(* ===== verification/CPrelude.thy ===== *)
theory CPrelude
  imports Main "HOL-Library.Word"
begin

unbundle bit_operations_syntax

text \<open>
  The vocabulary the component theories share: the C integer types of the programs as fixed
  width words (\<open>int\<close> and \<open>unsigned\<close> have the same 32 bits and differ in the operations
  the code applies: \<open>sint\<close> and \<open>signed_drop_bit\<close> for the signed reading, \<open>uint\<close>
  and \<open>drop_bit\<close> for the unsigned one), little-endian assembly of bytes into words, and the
  rewrite collections that the word proofs use. An equation between 32-bit words whose shift
  amounts and masks are literals is split into its 32 bits by \<open>word32_bits\<close>.
\<close>

type_synonym byte = "8 word"
type_synonym u32 = "32 word"
type_synonym i32 = "32 word"
type_synonym i64 = "64 word"

named_theorems c_step \<open>unfolding equations of the operations of a component\<close>
named_theorems c_inv \<open>preservation of the component invariants\<close>

subsection \<open>Bitwise equality of words of a literal width\<close>

lemma all_less_upt: "(\<forall>n<k. P n) \<longleftrightarrow> list_all P [0..<k]"
  by (auto simp: list_all_iff)

lemma upt_8: "[0..<8] = [0,1,2,3,4,5,6,7]"
  by (simp add: upt_rec)

lemma upt_32: "[0..<32] = [0,1,2,3,4,5,6,7,8,9,10,11,12,13,14,15,16,17,18,19,20,21,22,23,24,25,
   26,27,28,29,30,31]"
  by (simp add: upt_rec)

lemma word8_eq_iff: "(x::8 word) = y \<longleftrightarrow> list_all (\<lambda>n. bit x n = bit y n) [0..<8]"
  unfolding all_less_upt[symmetric] by (auto intro!: bit_word_eqI)

lemma word32_eq_iff: "(x::32 word) = y \<longleftrightarrow> list_all (\<lambda>n. bit x n = bit y n) [0..<32]"
  unfolding all_less_upt[symmetric] by (auto intro!: bit_word_eqI)

lemmas word8_bits = word8_eq_iff[unfolded upt_8 list.pred_inject simp_thms]
lemmas word32_bits = word32_eq_iff[unfolded upt_32 list.pred_inject simp_thms]

lemma bit_byte_beyond [simp]: "8 \<le> n \<Longrightarrow> \<not> bit (b :: 8 word) n"
  by (auto dest: bit_imp_le_length)

lemma bit_word32_beyond [simp]: "32 \<le> n \<Longrightarrow> \<not> bit (b :: 32 word) n"
  by (auto dest: bit_imp_le_length)

lemma add_eq_or: "a AND b = 0 \<Longrightarrow> a + b = (a OR b :: 'a::len word)"
  by (rule disjunctive_add_eq_or)

subsection \<open>Little-endian words\<close>

definition le16 :: "byte \<Rightarrow> byte \<Rightarrow> 32 word" where
  "le16 b0 b1 = ucast b0 OR push_bit 8 (ucast b1)"

definition le32 :: "byte \<Rightarrow> byte \<Rightarrow> byte \<Rightarrow> byte \<Rightarrow> 32 word" where
  "le32 b0 b1 b2 b3 = ucast b0 OR push_bit 8 (ucast b1) OR push_bit 16 (ucast b2) OR push_bit 24 (ucast b3)"

definition byte_of :: "32 word \<Rightarrow> nat \<Rightarrow> byte" where
  "byte_of w k = ucast (drop_bit (8 * k) w)"

lemma le32_byte_of: "le32 (byte_of w 0) (byte_of w 1) (byte_of w 2) (byte_of w 3) = w"
  by (simp add: le32_def byte_of_def word32_bits bit_simps)

lemmas le32_byte_of_Suc [simp] = le32_byte_of[simplified]

lemma ucast_byte_word [simp]: "ucast (ucast (c :: byte) :: 32 word) = c"
  by (simp add: word8_bits bit_simps)

lemma byte_of_le32:
  "byte_of (le32 b0 b1 b2 b3) 0 = b0" "byte_of (le32 b0 b1 b2 b3) 1 = b1"
  "byte_of (le32 b0 b1 b2 b3) 2 = b2" "byte_of (le32 b0 b1 b2 b3) 3 = b3"
  by (simp_all add: le32_def byte_of_def word8_bits bit_simps)

lemma byte_of_le32_Suc0: "byte_of (le32 b0 b1 b2 b3) (Suc 0) = b1"
  using byte_of_le32(2) by simp

lemma le16_byte_of: "le16 (byte_of w 0) (byte_of w 1) = w AND 0xffff"
  by (simp add: le16_def byte_of_def word32_bits bit_simps)

subsection \<open>C division: truncation towards zero\<close>

definition c_div :: "int \<Rightarrow> int \<Rightarrow> int" where
  "c_div a b = sgn a * sgn b * (\<bar>a\<bar> div \<bar>b\<bar>)"

definition c_rem :: "int \<Rightarrow> int \<Rightarrow> int" where
  "c_rem a b = sgn a * (\<bar>a\<bar> mod \<bar>b\<bar>)"

lemma c_div_rem: "c_div a b * b + c_rem a b = a"
proof -
  have "c_div a b * b + c_rem a b = sgn a * (\<bar>b\<bar> * (\<bar>a\<bar> div \<bar>b\<bar>) + \<bar>a\<bar> mod \<bar>b\<bar>)"
    by (simp add: c_div_def c_rem_def algebra_simps abs_sgn)
  also have "\<dots> = a" by (simp only: mult_div_mod_eq sgn_mult_abs)
  finally show ?thesis .
qed

lemma c_rem_nonneg: "0 \<le> a \<Longrightarrow> 0 < b \<Longrightarrow> c_rem a b = a mod b"
  by (cases "a = 0") (simp_all add: c_rem_def)

definition INT_MAX :: int where
  "INT_MAX = 2 ^ 31 - 1"

text \<open>\<open>fgets(line, n + 1, fp)\<close>: at most \<open>n\<close> characters, up to and including a newline.\<close>

fun fgets :: "nat \<Rightarrow> string \<Rightarrow> string \<times> string" where
  "fgets 0 s = ([], s)"
| "fgets (Suc n) [] = ([], [])"
| "fgets (Suc n) (c # s) =
     (if c = CHR 0x0A then ([c], s) else (let (l, r) = fgets n s in (c # l, r)))"

lemma fgets_line: "CHR 0x0A \<notin> set l \<Longrightarrow> length l < n \<Longrightarrow> fgets n (l @ CHR 0x0A # r) = (l @ [CHR 0x0A], r)"
proof (induction l arbitrary: n)
  case Nil
  then show ?case by (cases n) simp_all
next
  case (Cons x l)
  then obtain m where m: "n = Suc m" "length l < m" by (cases n) auto
  show ?case using Cons(1)[OF _ m(2)] Cons(2) m(1) by auto
qed

lemma fgets_shorter: "0 < n \<Longrightarrow> s \<noteq> [] \<Longrightarrow> length (snd (fgets n s)) < length s"
proof (induction n s rule: fgets.induct)
  case (3 n c s)
  show ?case
  proof (cases "n = 0 \<or> s = []")
    case True
    then show ?thesis by (cases n) auto
  next
    case False
    then show ?thesis using 3 by (auto split: prod.splits)
  qed
qed auto

end
