(* ===== verification/Memory.thy ===== *)
theory Memory
  imports CPrelude
begin

text \<open>
  The simulated memory of the RISC-V simulator, \<open>A5/src/memory.c\<close>: a table of 65536 page
  pointers, each \<open>NULL\<close> until the page is first touched, each page 16384 \<open>int\<close>s. A page
  pointer is modelled by the page number it was taken from, so that a store through the pointer
  returned by \<open>get_page\<close> is an update of that entry of the table. \<open>calloc\<close> is taken to
  succeed. The calls of \<open>exit(-1)\<close> on an unaligned access are the left injections of the
  results.
\<close>

type_synonym page = "nat \<Rightarrow> i32"

record memory =
  pages :: "nat \<Rightarrow> page option"

datatype mem_fault =
    UnalignedWordWrite i32
  | UnalignedHalfwordWrite i32
  | UnalignedWordRead i32
  | UnalignedHalfwordRead i32

definition memory_create :: memory where
  "memory_create = \<lparr>pages = (\<lambda>_. None)\<rparr>"

text \<open>\<open>memory_delete\<close> walks the whole table and frees the pages it finds: the result is the
  list of the freed page numbers, in the order of the calls of \<open>free\<close>.\<close>

definition memory_delete :: "memory \<Rightarrow> nat list" where
  "memory_delete mem = filter (\<lambda>j. pages mem j \<noteq> None) [0..<0x10000]"

definition page_number :: "i32 \<Rightarrow> nat" where
  "page_number addr = unat (signed_drop_bit 16 addr AND 0x0ffff)"

definition word_index :: "i32 \<Rightarrow> nat" where
  "word_index addr = unat (signed_drop_bit 2 addr AND 0x3fff)"

definition get_page :: "memory \<Rightarrow> i32 \<Rightarrow> page \<times> memory" where
  "get_page mem addr =
     (case pages mem (page_number addr) of
        None \<Rightarrow> ((\<lambda>_. 0), mem\<lparr>pages := (pages mem)(page_number addr := Some (\<lambda>_. 0))\<rparr>)
      | Some p \<Rightarrow> (p, mem))"

definition put_page :: "memory \<Rightarrow> i32 \<Rightarrow> page \<Rightarrow> memory" where
  "put_page mem addr p = mem\<lparr>pages := (pages mem)(page_number addr := Some p)\<rparr>"

definition memory_wr_w :: "memory \<Rightarrow> i32 \<Rightarrow> i32 \<Rightarrow> mem_fault + memory" where
  "memory_wr_w mem addr data =
     (if addr AND 0x3 \<noteq> 0 then Inl (UnalignedWordWrite addr)
      else let (page, mem') = get_page mem addr
           in Inr (put_page mem' addr (page(word_index addr := data))))"

definition memory_wr_h :: "memory \<Rightarrow> i32 \<Rightarrow> i32 \<Rightarrow> mem_fault + memory" where
  "memory_wr_h mem addr data =
     (if addr AND 0x1 \<noteq> 0 then Inl (UnalignedHalfwordWrite addr)
      else let (page, mem') = get_page mem addr; index = word_index addr
           in if addr AND 2 = 0
              then Inr (put_page mem' addr
                     (page(index := (page index AND 0xffff0000) OR (data AND 0x0000ffff))))
              else Inr (put_page mem' addr
                     (page(index := (page index AND 0x0000ffff) OR push_bit 16 data))))"

text \<open>The two \<open>switch\<close> statements over the byte lane \<open>addr & 3\<close>.\<close>

definition merge_byte :: "i32 \<Rightarrow> i32 \<Rightarrow> i32 \<Rightarrow> i32" where
  "merge_byte sel w data =
     (if sel = 0 then (w AND 0xffffff00) OR (data AND 0xff)
      else if sel = 1 then (w AND 0xffff00ff) OR push_bit 8 (data AND 0xff)
      else if sel = 2 then (w AND 0xff00ffff) OR push_bit 16 (data AND 0xff)
      else if sel = 3 then (w AND 0x00ffffff) OR push_bit 24 (data AND 0xff)
      else w)"

definition extract_byte :: "i32 \<Rightarrow> i32 \<Rightarrow> i32" where
  "extract_byte sel w =
     (if sel = 0 then w AND 0xff
      else if sel = 1 then signed_drop_bit 8 w AND 0xff
      else if sel = 2 then signed_drop_bit 16 w AND 0xff
      else if sel = 3 then signed_drop_bit 24 w AND 0xff
      else 0)"

definition memory_wr_b :: "memory \<Rightarrow> i32 \<Rightarrow> i32 \<Rightarrow> mem_fault + memory" where
  "memory_wr_b mem addr data =
     (let (page, mem') = get_page mem addr; index = word_index addr
      in Inr (put_page mem' addr (page(index := merge_byte (addr AND 0x3) (page index) data))))"

definition memory_rd_w :: "memory \<Rightarrow> i32 \<Rightarrow> mem_fault + i32 \<times> memory" where
  "memory_rd_w mem addr =
     (let (page, mem') = get_page mem addr
      in if addr AND 0x3 \<noteq> 0 then Inl (UnalignedWordRead addr)
         else Inr (page (word_index addr), mem'))"

definition memory_rd_h :: "memory \<Rightarrow> i32 \<Rightarrow> mem_fault + i32 \<times> memory" where
  "memory_rd_h mem addr =
     (let (page, mem') = get_page mem addr; index = word_index addr
      in if addr AND 0x1 \<noteq> 0 then Inl (UnalignedHalfwordRead addr)
         else if addr AND 2 = 0 then Inr (page index AND 0xffff, mem')
         else Inr (signed_drop_bit 16 (page index) AND 0xffff, mem'))"

definition memory_rd_b :: "memory \<Rightarrow> i32 \<Rightarrow> mem_fault + i32 \<times> memory" where
  "memory_rd_b mem addr =
     (let (page, mem') = get_page mem addr; index = word_index addr
      in Inr (extract_byte (addr AND 0x3) (page index), mem'))"

subsection \<open>The abstract view: a function from addresses to bytes\<close>

text \<open>\<open>cell\<close> reads the word that holds an address, \<open>byte_at\<close> the byte at an address. The
  simulated memory is little-endian and reads as zero where nothing was stored.\<close>

definition cell :: "memory \<Rightarrow> i32 \<Rightarrow> i32" where
  "cell mem a = (case pages mem (page_number a) of None \<Rightarrow> 0 | Some p \<Rightarrow> p (word_index a))"

definition byte_at :: "memory \<Rightarrow> i32 \<Rightarrow> byte" where
  "byte_at mem a = byte_of (cell mem a) (unat (a AND 3))"

definition store_cell :: "memory \<Rightarrow> i32 \<Rightarrow> i32 \<Rightarrow> memory" where
  "store_cell mem a v = put_page (snd (get_page mem a)) a ((fst (get_page mem a))(word_index a := v))"

definition same_word :: "i32 \<Rightarrow> i32 \<Rightarrow> bool" where
  "same_word a b \<longleftrightarrow> a AND 0xfffffffc = b AND 0xfffffffc"

lemma page_number_drop: "page_number a = unat (drop_bit 16 a)"
  unfolding page_number_def by (rule arg_cong[where f = unat]) (simp add: word32_bits bit_simps)

lemma word_index_drop: "word_index a = unat (drop_bit 2 a AND 0x3fff)"
  unfolding word_index_def by (rule arg_cong[where f = unat]) (simp add: word32_bits bit_simps)

lemma same_cell_iff:
  "same_word a b \<longleftrightarrow> page_number a = page_number b \<and> word_index a = word_index b"
  unfolding page_number_drop word_index_drop word_unat_eq_iff[symmetric]
  by (rule iffI; simp add: word32_bits bit_simps same_word_def)

lemma get_page_cell [simp]: "fst (get_page mem a) (word_index a) = cell mem a"
  by (simp add: get_page_def cell_def split: option.splits)

lemma get_page_cells [simp]: "cell (snd (get_page mem a)) b = cell mem b"
  by (auto simp: get_page_def cell_def split: option.splits)

lemma get_page_bytes [simp]: "byte_at (snd (get_page mem a)) = byte_at mem"
  by (rule ext) (simp add: byte_at_def)

lemma cell_store_cell: "cell (store_cell mem a v) b = (if same_word b a then v else cell mem b)"
  by (cases "same_word b a")
     (auto simp: store_cell_def get_page_def put_page_def cell_def same_cell_iff split: option.splits)

lemma low_bits_cases:
  obtains "(a::i32) AND 3 = 0" | "a AND 3 = 1" | "a AND 3 = 2" | "a AND 3 = 3"
  by (simp add: word32_bits bit_simps) blast

lemma addr_eq_iff: "a = b \<longleftrightarrow> same_word a b \<and> a AND 3 = b AND 3"
  by (rule iffI; simp add: word32_bits bit_simps same_word_def)

lemma cell_same_word: "same_word b a \<Longrightarrow> cell mem b = cell mem a"
  by (auto simp: cell_def same_cell_iff split: option.splits)


lemma less_4_cases:
  assumes "k < (4::nat)" obtains "k = 0" | "k = 1" | "k = 2" | "k = 3"
  using assms by linarith

lemma byte_of_merge_byte:
  "k < 4 \<Longrightarrow> byte_of (merge_byte (a AND 3) w d) k = (if k = unat (a AND 3) then ucast d else byte_of w k)"
  by (rule low_bits_cases[of a]; erule less_4_cases)
     (simp_all add: merge_byte_def byte_of_def word8_bits bit_simps)

lemma extract_byte_eq: "extract_byte (a AND 3) w = ucast (byte_of w (unat (a AND 3)))"
proof (rule low_bits_cases[of a])
qed (simp_all add: extract_byte_def byte_of_def, simp_all add: word32_bits bit_simps)

lemma unat_low_bits: "unat ((a::i32) AND 3) < 4"
  by (rule low_bits_cases[of a]) simp_all

lemma aligned_add:
  assumes "a AND 3 = (0::i32)" "k AND 3 = k"
  shows "same_word (a + k) a" "(a + k) AND 3 = k"
proof -
  have k: "k AND 0xfffffffc = 0"
    using assms(2) by (simp add: word32_bits bit_simps)
  have "a AND k = 0" using assms(1) k by (simp add: word32_bits bit_simps)
  then have "a + k = a OR k" by (rule add_eq_or)
  then show "same_word (a + k) a" "(a + k) AND 3 = k" using assms k
    by (simp_all add: same_word_def word32_bits bit_simps)
qed

lemma memory_rd_b_eq: "memory_rd_b mem a = Inr (ucast (byte_at mem a), snd (get_page mem a))"
  by (simp add: memory_rd_b_def split_beta Let_def extract_byte_eq byte_at_def)

lemma memory_wr_b_eq:
  "memory_wr_b mem a d = Inr (store_cell mem a (merge_byte (a AND 3) (cell mem a) d))"
  by (simp add: memory_wr_b_def split_beta Let_def store_cell_def)

lemma memory_wr_w_eq:
  "memory_wr_w mem a d = (if a AND 3 \<noteq> 0 then Inl (UnalignedWordWrite a) else Inr (store_cell mem a d))"
  by (simp add: memory_wr_w_def store_cell_def split_beta)

lemma memory_rd_w_eq:
  "memory_rd_w mem a = (if a AND 3 \<noteq> 0 then Inl (UnalignedWordRead a) else Inr (cell mem a, snd (get_page mem a)))"
  by (simp add: memory_rd_w_def split_beta Let_def)

lemma byte_at_store_byte:
  "byte_at (store_cell mem a (merge_byte (a AND 3) (cell mem a) d)) = (byte_at mem)(a := ucast d)"
proof
  fix b
  have "same_word b a \<Longrightarrow> cell mem b = cell mem a"
    by (simp add: cell_same_word)
  then show "byte_at (store_cell mem a (merge_byte (a AND 3) (cell mem a) d)) b = ((byte_at mem)(a := ucast d)) b"
    by (auto simp: byte_at_def cell_store_cell byte_of_merge_byte unat_low_bits addr_eq_iff[of b a] same_word_def[of a a]
       word_unat_eq_iff[of "b AND 3" "a AND 3", symmetric])
qed

definition upd_word :: "(i32 \<Rightarrow> byte) \<Rightarrow> i32 \<Rightarrow> i32 \<Rightarrow> (i32 \<Rightarrow> byte)" where
  "upd_word f a d = f(a := byte_of d 0, a + 1 := byte_of d 1, a + 2 := byte_of d 2, a + 3 := byte_of d 3)"

definition upd_half :: "(i32 \<Rightarrow> byte) \<Rightarrow> i32 \<Rightarrow> i32 \<Rightarrow> (i32 \<Rightarrow> byte)" where
  "upd_half f a d = f(a := byte_of d 0, a + 1 := byte_of d 1)"

lemma byte_at_store_word:
  assumes "a AND 3 = 0"
  shows "byte_at (store_cell mem a d) = upd_word (byte_at mem) a d"
proof
  fix b
  have low: "(a + 1) AND 3 = 1" "(a + 2) AND 3 = 2" "(a + 3) AND 3 = 3"
    and sw: "same_word (a + 1) a" "same_word (a + 2) a" "same_word (a + 3) a"
    using aligned_add[OF assms, of 1] aligned_add[OF assms, of 2] aligned_add[OF assms, of 3] by auto
  have sb: "same_word b (a + 1) = same_word b a" "same_word b (a + 2) = same_word b a" "same_word b (a + 3) = same_word b a"
    using sw by (simp_all add: same_word_def)
  show "byte_at (store_cell mem a d) b = upd_word (byte_at mem) a d b"
    unfolding upd_word_def fun_upd_apply addr_eq_iff[of b] sb low assms
    by (rule low_bits_cases[of b]) (auto simp: byte_at_def cell_store_cell)
qed

lemma cell_le32:
  assumes "a AND 3 = 0"
  shows "cell mem a = le32 (byte_at mem a) (byte_at mem (a + 1)) (byte_at mem (a + 2)) (byte_at mem (a + 3))"
proof -
  have low: "(a + 1) AND 3 = 1" "(a + 2) AND 3 = 2" "(a + 3) AND 3 = 3"
    and sw: "same_word (a + 1) a" "same_word (a + 2) a" "same_word (a + 3) a"
    using aligned_add[OF assms, of 1] aligned_add[OF assms, of 2] aligned_add[OF assms, of 3] by auto
  then have "cell mem (a + 1) = cell mem a" "cell mem (a + 2) = cell mem a" "cell mem (a + 3) = cell mem a"
    by (simp_all add: cell_same_word)
  with low assms show ?thesis by (simp add: byte_at_def le32_byte_of del: One_nat_def)
qed

lemma half_lane: "a AND 1 = 0 \<Longrightarrow> a AND 3 = 0 \<or> a AND 3 = (2::i32)"
  by (simp add: word32_bits bit_simps)

definition merge_half :: "i32 \<Rightarrow> i32 \<Rightarrow> i32 \<Rightarrow> i32" where
  "merge_half a w d = (if a AND 2 = 0 then (w AND 0xffff0000) OR (d AND 0x0000ffff)
     else (w AND 0x0000ffff) OR push_bit 16 d)"

lemma memory_wr_h_eq:
  "memory_wr_h mem a d = (if a AND 1 \<noteq> 0 then Inl (UnalignedHalfwordWrite a)
     else Inr (store_cell mem a (merge_half a (cell mem a) d)))"
  by (simp add: memory_wr_h_def store_cell_def split_beta Let_def merge_half_def)

lemma and3_and2: "(a AND 3 = 0 \<Longrightarrow> a AND 2 = 0)" "(a AND 3 = 2 \<Longrightarrow> a AND 2 = (2::i32))"
  by (simp_all add: word32_bits bit_simps)

lemma aligned_add_half:
  assumes "a AND 3 = (2::i32)"
  shows "same_word (a + 1) a" "(a + 1) AND 3 = 3"
proof -
  have "a AND 1 = 0" using assms by (simp add: word32_bits bit_simps)
  then have "a + 1 = a OR 1" by (rule add_eq_or)
  then show "same_word (a + 1) a" "(a + 1) AND 3 = 3" using assms
    by (simp_all add: same_word_def word32_bits bit_simps)
qed

lemma byte_of_merge_half:
  "a AND 3 = 0 \<Longrightarrow> k < 4 \<Longrightarrow> byte_of (merge_half a w d) k = (if k < 2 then byte_of d k else byte_of w k)"
  "a AND 3 = 2 \<Longrightarrow> k < 4 \<Longrightarrow> byte_of (merge_half a w d) k = (if k < 2 then byte_of w k else byte_of d (k - 2))"
  by (erule less_4_cases; simp add: merge_half_def and3_and2 byte_of_def word8_bits bit_simps)+

lemma byte_at_store_half:
  assumes "a AND 1 = 0"
  shows "byte_at (store_cell mem a (merge_half a (cell mem a) d)) = upd_half (byte_at mem) a d"
proof
  fix b
  have same: "same_word b a \<Longrightarrow> cell mem b = cell mem a"
    by (simp add: cell_same_word)
  from half_lane[OF assms] show "byte_at (store_cell mem a (merge_half a (cell mem a) d)) b = upd_half (byte_at mem) a d b"
  proof
    assume a: "a AND 3 = 0"
    have sw: "same_word b (a + 1) = same_word b a" and low: "(a + 1) AND 3 = 1"
      using aligned_add[OF a, of 1] by (simp_all add: same_word_def)
    show ?thesis unfolding upd_half_def fun_upd_apply addr_eq_iff[of b] sw low a
      by (rule low_bits_cases[of b]) (auto simp: byte_at_def cell_store_cell byte_of_merge_half(1)[OF a] same)
  next
    assume a: "a AND 3 = 2"
    have sw: "same_word b (a + 1) = same_word b a" and low: "(a + 1) AND 3 = 3"
      using aligned_add_half[OF a] by (simp_all add: same_word_def)
    show ?thesis unfolding upd_half_def fun_upd_apply addr_eq_iff[of b] sw low a
      by (rule low_bits_cases[of b]) (auto simp: byte_at_def cell_store_cell byte_of_merge_half(2)[OF a] same)
  qed
qed

lemma memory_rd_h_eq:
  "memory_rd_h mem a = (if a AND 1 \<noteq> 0 then Inl (UnalignedHalfwordRead a)
     else Inr (le16 (byte_at mem a) (byte_at mem (a + 1)), snd (get_page mem a)))"
proof (cases "a AND 1 = 0")
  case False
  then show ?thesis by (simp add: memory_rd_h_def split_beta Let_def)
next
  case True
  from half_lane[OF True] show ?thesis
  proof
    assume a: "a AND 3 = 0"
    then have "cell mem (a + 1) = cell mem a"
      using aligned_add[OF a, of 1] by (simp add: cell_same_word)
    with True a aligned_add[OF a, of 1] show ?thesis
      by (simp add: memory_rd_h_def split_beta Let_def and3_and2 byte_at_def le16_def byte_of_def)
        (simp add: word32_bits bit_simps)
  next
    assume a: "a AND 3 = 2"
    then have "cell mem (a + 1) = cell mem a"
      using aligned_add_half[OF a] by (simp add: cell_same_word)
    with True a aligned_add_half[OF a] show ?thesis
      by (simp add: memory_rd_h_def split_beta Let_def and3_and2 byte_at_def le16_def byte_of_def)
        (simp add: word32_bits bit_simps)
  qed
qed

subsection \<open>Writing a run of bytes\<close>

text \<open>The copy loop of \<open>pass_args_to_program\<close> (\<open>main.c\<close>): one byte write per
  \<open>char\<close>, which is signed, at increasing addresses.\<close>

fun store_bytes :: "('m \<Rightarrow> i32 \<Rightarrow> i32 \<Rightarrow> 'e + 'm) \<Rightarrow> 'm \<Rightarrow> i32 \<Rightarrow> byte list \<Rightarrow> 'e + 'm" where
  "store_bytes wr m a [] = Inr m"
| "store_bytes wr m a (c # cs) =
     (case wr m a (scast c) of Inl e \<Rightarrow> Inl e | Inr m' \<Rightarrow> store_bytes wr m' (a + 1) cs)"

subsection \<open>The interface the simulator relies on\<close>

text \<open>
  What the loader and the instruction loop need of the memory: each read returns the bytes of the
  abstract view and keeps it, each write changes exactly the bytes it names, and an unaligned word
  or halfword access faults.
\<close>

locale byte_memory =
  fixes bytes :: "'m \<Rightarrow> i32 \<Rightarrow> byte"
    and rd_b :: "'m \<Rightarrow> i32 \<Rightarrow> 'e + i32 \<times> 'm"
    and rd_h :: "'m \<Rightarrow> i32 \<Rightarrow> 'e + i32 \<times> 'm"
    and rd_w :: "'m \<Rightarrow> i32 \<Rightarrow> 'e + i32 \<times> 'm"
    and wr_b :: "'m \<Rightarrow> i32 \<Rightarrow> i32 \<Rightarrow> 'e + 'm"
    and wr_h :: "'m \<Rightarrow> i32 \<Rightarrow> i32 \<Rightarrow> 'e + 'm"
    and wr_w :: "'m \<Rightarrow> i32 \<Rightarrow> i32 \<Rightarrow> 'e + 'm"
  assumes rd_b_law: "\<exists>m'. rd_b m a = Inr (ucast (bytes m a), m') \<and> bytes m' = bytes m"
    and rd_h_law: "a AND 1 = 0 \<Longrightarrow>
      \<exists>m'. rd_h m a = Inr (le16 (bytes m a) (bytes m (a + 1)), m') \<and> bytes m' = bytes m"
    and rd_w_law: "a AND 3 = 0 \<Longrightarrow>
      \<exists>m'. rd_w m a = Inr (le32 (bytes m a) (bytes m (a + 1)) (bytes m (a + 2)) (bytes m (a + 3)), m')
           \<and> bytes m' = bytes m"
    and wr_b_law: "\<exists>m'. wr_b m a d = Inr m' \<and> bytes m' = (bytes m)(a := ucast d)"
    and wr_h_law: "a AND 1 = 0 \<Longrightarrow> \<exists>m'. wr_h m a d = Inr m' \<and> bytes m' = upd_half (bytes m) a d"
    and wr_w_law: "a AND 3 = 0 \<Longrightarrow> \<exists>m'. wr_w m a d = Inr m' \<and> bytes m' = upd_word (bytes m) a d"
    and unaligned_h: "a AND 1 \<noteq> 0 \<Longrightarrow> (\<exists>e. rd_h m a = Inl e) \<and> (\<exists>e. wr_h m a d = Inl e)"
    and unaligned_w: "a AND 3 \<noteq> 0 \<Longrightarrow> (\<exists>e. rd_w m a = Inl e) \<and> (\<exists>e. wr_w m a d = Inl e)"
begin

lemma wr_w_then_rd_w:
  assumes "wr_w m a d = Inr m'"
  shows "\<exists>m''. rd_w m' a = Inr (d, m'') \<and> bytes m'' = bytes m'"
proof -
  have al: "a AND 3 = 0" using assms unaligned_w[of a m d] by force
  have "bytes m' = upd_word (bytes m) a d" using wr_w_law[OF al, of m d] assms by auto
  then show ?thesis using rd_w_law[OF al, of m']
    by (simp add: upd_word_def le32_byte_of)
qed

lemma wr_w_frame:
  assumes w: "wr_w m a d = Inr m'" and b: "b AND 3 = 0" "b \<noteq> a"
  shows "\<exists>v n n'. rd_w m b = Inr (v, n) \<and> rd_w m' b = Inr (v, n')"
proof -
  have al: "a AND 3 = 0" using w unaligned_w[of a m d] by force
  have "bytes m' = upd_word (bytes m) a d" using wr_w_law[OF al, of m d] w by auto
  moreover have "upd_word (bytes m) a d (b + k) = bytes m (b + k)" if "k AND 3 = k" for k
  proof -
    have "same_word (b + k) b" by (rule aligned_add(1)[OF b(1) that])
    moreover have "\<not> same_word b a" using b al addr_eq_iff[of b a] by auto
    moreover have "same_word (a + j) a" if "j AND 3 = j" for j by (rule aligned_add(1)[OF al that])
    then have "same_word a a" "same_word (a + 1) a" "same_word (a + 2) a" "same_word (a + 3) a"
      by (simp_all add: same_word_def)
    ultimately show ?thesis unfolding upd_word_def fun_upd_apply same_word_def by metis
  qed
  from this[of 0] this[of 1] this[of 2] this[of 3] show ?thesis
    using rd_w_law[OF b(1), of m] rd_w_law[OF b(1), of m'] calculation by auto
qed

lemma store_bytes_law:
  assumes "length bs \<le> 2 ^ 32"
  shows "\<exists>m'. store_bytes wr_b m a bs = Inr m' \<and>
     (\<forall>k < length bs. bytes m' (a + of_nat k) = bs ! k) \<and>
     (\<forall>b. (\<forall>k < length bs. b \<noteq> a + of_nat k) \<longrightarrow> bytes m' b = bytes m b)"
  using assms
proof (induction bs arbitrary: m a)
  case Nil
  then show ?case by simp
next
  case (Cons c bs)
  obtain m1 where m1: "wr_b m a (scast c) = Inr m1" "bytes m1 = (bytes m)(a := ucast (scast c :: i32))"
    using wr_b_law by blast
  obtain m' where m': "store_bytes wr_b m1 (a + 1) bs = Inr m'"
     "\<forall>k < length bs. bytes m' (a + 1 + of_nat k) = bs ! k"
     "\<forall>b. (\<forall>k < length bs. b \<noteq> a + 1 + of_nat k) \<longrightarrow> bytes m' b = bytes m1 b"
    using Cons.IH[of m1 "a + 1"] Cons.prems by auto
  have fresh: "a \<noteq> a + 1 + of_nat k" if "k < length bs" for k
  proof
    assume "a = a + 1 + of_nat k"
    then have "of_nat (Suc k) = (0 :: i32)" by (simp add: algebra_simps)
    then have "2 ^ 32 dvd Suc k" by (simp add: word_of_nat_eq_0_iff del: of_nat_Suc)
    with that Cons.prems show False by (auto dest: dvd_imp_le)
  qed
  then have "bytes m' a = bytes m1 a" using m'(3) by auto
  moreover have "ucast (scast c :: i32) = c" by (simp add: word8_bits bit_simps)
  ultimately have "bytes m' a = c" using m1(2) by simp
  moreover have "bytes m' (a + of_nat k) = (c # bs) ! k" if "k < length (c # bs)" for k
    using that m'(2) calculation by (cases k) (auto simp: algebra_simps)
  moreover have "bytes m' b = bytes m b" if "\<forall>k < length (c # bs). b \<noteq> a + of_nat k" for b
  proof -
    have "b \<noteq> a" using that by force
    moreover have "b \<noteq> a + 1 + of_nat k" if "k < length bs" for k
      using \<open>\<forall>k < length (c # bs). b \<noteq> a + of_nat k\<close>[rule_format, of "Suc k"] that
      by (simp add: algebra_simps)
    ultimately show ?thesis using m'(3) m1(2) by simp
  qed
  ultimately show ?case using m1(1) m'(1) by auto
qed

end

interpretation mem: byte_memory byte_at memory_rd_b memory_rd_h memory_rd_w
    memory_wr_b memory_wr_h memory_wr_w
  by unfold_locales
     (auto simp: memory_rd_b_eq memory_rd_h_eq memory_rd_w_eq memory_wr_b_eq memory_wr_h_eq
       memory_wr_w_eq byte_at_store_byte byte_at_store_half byte_at_store_word cell_le32)


lemma byte_at_create: "byte_at memory_create = (\<lambda>_. 0)"
  by (simp add: fun_eq_iff byte_at_def cell_def memory_create_def byte_of_def)

subsection \<open>Properties\<close>

text \<open>C3: the memory is an array of \<open>2 ^ 32\<close> bytes, all zero at first: each read returns the
  bytes it names, zero-extended and little-endian, and changes none, each write changes exactly
  the bytes it names, and a misaligned halfword or word access ends the program.\<close>

theorem memory_is_byte_array:
  "byte_at memory_create = (\<lambda>_. 0) \<and>
   (\<exists>m'. memory_rd_b m a = Inr (ucast (byte_at m a), m') \<and> byte_at m' = byte_at m) \<and>
   (if a AND 1 = 0
    then (\<exists>m'. memory_rd_h m a = Inr (le16 (byte_at m a) (byte_at m (a + 1)), m') \<and> byte_at m' = byte_at m)
    else memory_rd_h m a = Inl (UnalignedHalfwordRead a)) \<and>
   (if a AND 3 = 0
    then (\<exists>m'. memory_rd_w m a = Inr (le32 (byte_at m a) (byte_at m (a + 1)) (byte_at m (a + 2))
           (byte_at m (a + 3)), m') \<and> byte_at m' = byte_at m)
    else memory_rd_w m a = Inl (UnalignedWordRead a)) \<and>
   (\<exists>m'. memory_wr_b m a d = Inr m' \<and> byte_at m' = (byte_at m)(a := ucast d)) \<and>
   (if a AND 1 = 0
    then (\<exists>m'. memory_wr_h m a d = Inr m' \<and>
           byte_at m' = (byte_at m)(a := byte_of d 0, a + 1 := byte_of d 1))
    else memory_wr_h m a d = Inl (UnalignedHalfwordWrite a)) \<and>
   (if a AND 3 = 0
    then (\<exists>m'. memory_wr_w m a d = Inr m' \<and> byte_at m' =
           (byte_at m)(a := byte_of d 0, a + 1 := byte_of d 1, a + 2 := byte_of d 2, a + 3 := byte_of d 3))
    else memory_wr_w m a d = Inl (UnalignedWordWrite a))"
  using mem.rd_b_law[of m a] mem.rd_h_law[of a m] mem.rd_w_law[of a m] mem.wr_b_law[of m a d]
    mem.wr_h_law[of a m d] mem.wr_w_law[of a m d] byte_at_create
  by (simp add: memory_rd_h_eq memory_rd_w_eq memory_wr_h_eq memory_wr_w_eq upd_half_def upd_word_def)

text \<open>A word that was stored is read back, and a word at another aligned address reads the
  same before and after the store.\<close>

theorem memory_store_load:
  assumes "memory_wr_w m a d = Inr m'"
  shows "(\<exists>n. memory_rd_w m' a = Inr (d, n)) \<and>
    (\<forall>b. b AND 3 = 0 \<and> b \<noteq> a \<longrightarrow> (\<exists>v n n'. memory_rd_w m b = Inr (v, n) \<and> memory_rd_w m' b = Inr (v, n')))"
  using mem.wr_w_then_rd_w[OF assms] mem.wr_w_frame[OF assms] by blast

theorem memory_store_load_witness:
  "\<exists>m' n. memory_wr_w memory_create 0x10008 0xdeadbeef = Inr m' \<and>
     memory_rd_w m' 0x10008 = Inr (0xdeadbeef, n)"
proof -
  obtain m' where m': "memory_wr_w memory_create 0x10008 0xdeadbeef = Inr m'"
    by (simp add: memory_wr_w_eq)
  show ?thesis using memory_store_load[OF m'] m' by blast
qed

end
