(* ===== verification/Simulate.thy ===== *)
theory Simulate
  imports Memory
begin

text \<open>
  The instruction loop of the RISC-V simulator, \<open>A5/src/simulate.c\<close>. The state is the
  program counter (a global of the code), the register array of \<open>simulate\<close> (which the code
  does not initialise except for entry 0: the registers at the start are an argument), the memory,
  and the bytes still to come from standard input and written so far to standard output. One turn
  of \<open>while (1)\<close> is \<open>sim_step\<close>: it goes on with a new state, returns from
  \<open>simulate\<close>, ends the process on a fault of the memory, or performs an operation that C
  leaves undefined (a shift by an amount outside 0..31, a remainder by zero, a quotient that does
  not fit). Signed addition, subtraction and left shift wrap around, as in the compiled code.
\<close>

record cpu =
  program_counter :: u32
  reg :: "nat \<Rightarrow> i32"
  mem :: memory
  stdin :: "byte list"
  stdout :: "byte list"

datatype undefined_op = ShiftOutOfRange | DivisionOverflow | DivisionByZero

datatype sim_outcome =
    Next cpu
  | Return int cpu
  | Exit mem_fault
  | Undefined undefined_op

abbreviation (input) EXIT_FAILURE :: int where "EXIT_FAILURE \<equiv> 1"

text \<open>The enumerations of opcodes, \<open>func3\<close> and \<open>func7\<close> values.\<close>

abbreviation (input) ECALL :: u32 where "ECALL \<equiv> 0x73"
abbreviation (input) LUI :: u32 where "LUI \<equiv> 0x37"
abbreviation (input) AUIPC :: u32 where "AUIPC \<equiv> 0x17"
abbreviation (input) JAL :: u32 where "JAL \<equiv> 0x6f"
abbreviation (input) JALR :: u32 where "JALR \<equiv> 0x67"
abbreviation (input) BRANCH_INST :: u32 where "BRANCH_INST \<equiv> 0x63"
abbreviation (input) LOAD_INST :: u32 where "LOAD_INST \<equiv> 0x03"
abbreviation (input) STORE_INST :: u32 where "STORE_INST \<equiv> 0x23"
abbreviation (input) IMMEDIATE_INST :: u32 where "IMMEDIATE_INST \<equiv> 0x13"
abbreviation (input) RTYPE_INST :: u32 where "RTYPE_INST \<equiv> 0x33"

abbreviation (input) BEQ :: u32 where "BEQ \<equiv> 0x00"
abbreviation (input) BNE :: u32 where "BNE \<equiv> 0x01"
abbreviation (input) BLT :: u32 where "BLT \<equiv> 0x04"
abbreviation (input) BGE :: u32 where "BGE \<equiv> 0x05"
abbreviation (input) BLTU :: u32 where "BLTU \<equiv> 0x06"
abbreviation (input) BGEU :: u32 where "BGEU \<equiv> 0x07"

abbreviation (input) LB :: u32 where "LB \<equiv> 0x00"
abbreviation (input) LH :: u32 where "LH \<equiv> 0x01"
abbreviation (input) LW :: u32 where "LW \<equiv> 0x02"
abbreviation (input) LBU :: u32 where "LBU \<equiv> 0x04"
abbreviation (input) LHU :: u32 where "LHU \<equiv> 0x05"

abbreviation (input) SB :: u32 where "SB \<equiv> 0x00"
abbreviation (input) SH :: u32 where "SH \<equiv> 0x01"
abbreviation (input) SW :: u32 where "SW \<equiv> 0x02"

abbreviation (input) RTYPE_0 :: u32 where "RTYPE_0 \<equiv> 0x00"
abbreviation (input) RTYPE_1 :: u32 where "RTYPE_1 \<equiv> 0x20"
abbreviation (input) MUL_TYPE :: u32 where "MUL_TYPE \<equiv> 0x01"
abbreviation (input) ADD :: u32 where "ADD \<equiv> 0x00"
abbreviation (input) SUB :: u32 where "SUB \<equiv> 0x00"
abbreviation (input) SLL :: u32 where "SLL \<equiv> 0x01"
abbreviation (input) SLT :: u32 where "SLT \<equiv> 0x02"
abbreviation (input) SLTU :: u32 where "SLTU \<equiv> 0x03"
abbreviation (input) XOR_F3 :: u32 where "XOR_F3 \<equiv> 0x04"
abbreviation (input) SRL :: u32 where "SRL \<equiv> 0x05"
abbreviation (input) SRA :: u32 where "SRA \<equiv> 0x05"
abbreviation (input) OR_F3 :: u32 where "OR_F3 \<equiv> 0x06"
abbreviation (input) AND_F3 :: u32 where "AND_F3 \<equiv> 0x07"
abbreviation (input) MUL :: u32 where "MUL \<equiv> 0x00"
abbreviation (input) MULH :: u32 where "MULH \<equiv> 0x01"
abbreviation (input) MULHSU :: u32 where "MULHSU \<equiv> 0x02"
abbreviation (input) MULHU :: u32 where "MULHU \<equiv> 0x03"
abbreviation (input) DIV :: u32 where "DIV \<equiv> 0x04"
abbreviation (input) DIVU :: u32 where "DIVU \<equiv> 0x05"
abbreviation (input) REM :: u32 where "REM \<equiv> 0x06"
abbreviation (input) REMU :: u32 where "REMU \<equiv> 0x07"

abbreviation (input) ADDI :: u32 where "ADDI \<equiv> 0x00"
abbreviation (input) SLTI :: u32 where "SLTI \<equiv> 0x02"
abbreviation (input) SLTIU :: u32 where "SLTIU \<equiv> 0x03"
abbreviation (input) XORI :: u32 where "XORI \<equiv> 0x04"
abbreviation (input) ORI :: u32 where "ORI \<equiv> 0x06"
abbreviation (input) ANDI :: u32 where "ANDI \<equiv> 0x07"
abbreviation (input) SLLI :: u32 where "SLLI \<equiv> 0x01"
abbreviation (input) SRLI_SRAI :: u32 where "SRLI_SRAI \<equiv> 0x05"
abbreviation (input) SRLI :: u32 where "SRLI \<equiv> 0x00"
abbreviation (input) SRAI :: u32 where "SRAI \<equiv> 0x20"

subsection \<open>Instruction fields\<close>

definition opcode_of :: "u32 \<Rightarrow> u32" where
  "opcode_of word = drop_bit 25 (push_bit 25 word)"

definition func3_of :: "u32 \<Rightarrow> u32" where
  "func3_of word = drop_bit 29 (push_bit 17 word)"

definition func7_of :: "u32 \<Rightarrow> u32" where
  "func7_of word = drop_bit 25 word"

definition rd_of :: "u32 \<Rightarrow> nat" where
  "rd_of word = unat (drop_bit 27 (push_bit 20 word))"

definition rs1_of :: "u32 \<Rightarrow> nat" where
  "rs1_of word = unat (drop_bit 27 (push_bit 12 word))"

definition rs2_of :: "u32 \<Rightarrow> nat" where
  "rs2_of word = unat (drop_bit 27 (push_bit 7 word))"

definition set_reg :: "nat \<Rightarrow> i32 \<Rightarrow> cpu \<Rightarrow> cpu" where
  "set_reg rd v st = st\<lparr>reg := (reg st)(rd := v)\<rparr>"

definition advance :: "u32 \<Rightarrow> cpu \<Rightarrow> cpu" where
  "advance off st = st\<lparr>program_counter := program_counter st + off\<rparr>"

text \<open>\<open>reg[rd] = v; program_counter += 4\<close>, the end of most branches.\<close>

definition write_back :: "nat \<Rightarrow> i32 \<Rightarrow> cpu \<Rightarrow> sim_outcome" where
  "write_back rd v st = Next (advance 4 (set_reg rd v st))"

text \<open>The error branches print a message, all but those of the divisions with a newline, and
  return \<open>EXIT_FAILURE\<close>.\<close>

definition print :: "string \<Rightarrow> cpu \<Rightarrow> cpu" where
  "print msg st = st\<lparr>stdout := stdout st @ map of_char msg\<rparr>"

definition fail :: "string \<Rightarrow> cpu \<Rightarrow> sim_outcome" where
  "fail msg st = Return EXIT_FAILURE (print (msg @ [CHR 0x0A]) st)"

definition bool_word :: "bool \<Rightarrow> i32" where
  "bool_word b = (if b then 1 else 0)"

subsection \<open>The branches of the loop body\<close>

definition exec_ecall :: "u32 \<Rightarrow> cpu \<Rightarrow> sim_outcome" where
  "exec_ecall start_addr st =
     (if reg st 17 = 1 then
        (case stdin st of
           [] \<Rightarrow> Next (advance 4 (set_reg 10 (-1) st))
         | c # cs \<Rightarrow> Next (advance 4 (set_reg 10 (ucast c) (st\<lparr>stdin := cs\<rparr>))))
      else if reg st 17 = 2 then
        Next (advance 4 (st\<lparr>stdout := stdout st @ [ucast (reg st 10)]\<rparr>))
      else if reg st 17 = 3 \<or> reg st 17 = 93 then
        Return (uint ((program_counter st - start_addr) div 4 + 1)) st
      else Next st)"

definition exec_lui :: "u32 \<Rightarrow> cpu \<Rightarrow> sim_outcome" where
  "exec_lui word st = write_back (rd_of word) (push_bit 12 (drop_bit 12 word)) st"

definition exec_auipc :: "u32 \<Rightarrow> cpu \<Rightarrow> sim_outcome" where
  "exec_auipc word st =
     write_back (rd_of word) (program_counter st + push_bit 12 (drop_bit 12 word)) st"

definition jal_offset :: "u32 \<Rightarrow> u32" where
  "jal_offset word =
     (let imm_20 = push_bit 20 (signed_drop_bit 20 word);
          imm_10_1 = push_bit 1 (drop_bit 22 (push_bit 1 word));
          imm_11 = push_bit 11 (drop_bit 31 (push_bit 11 word));
          imm_19_12 = push_bit 12 (drop_bit 24 (push_bit 12 word))
      in ((imm_20 OR imm_19_12) OR imm_11) OR imm_10_1)"

definition exec_jal :: "u32 \<Rightarrow> cpu \<Rightarrow> sim_outcome" where
  "exec_jal word st =
     Next (advance (jal_offset word) (set_reg (rd_of word) (program_counter st + 4) st))"

definition exec_jalr :: "u32 \<Rightarrow> cpu \<Rightarrow> sim_outcome" where
  "exec_jalr word st =
     (let imm = signed_drop_bit 20 word; total_offset = imm + of_nat (rs1_of word)
      in Next ((set_reg (rd_of word) (program_counter st + 4) st)\<lparr>program_counter := total_offset\<rparr>))"

definition branch_offset :: "u32 \<Rightarrow> u32" where
  "branch_offset word =
     (let imm_1_4 = push_bit 1 (drop_bit 28 (push_bit 20 word));
          imm_5_10 = push_bit 5 (drop_bit 26 (push_bit 1 word));
          imm_11 = push_bit 11 (drop_bit 31 (push_bit 24 word));
          tmp_offset = (imm_1_4 OR imm_5_10) OR imm_11;
          signbit = push_bit 12 (signed_drop_bit 31 word)
      in signbit OR tmp_offset)"

text \<open>The condition of a branch, \<open>None\<close> for a \<open>func3\<close> that is no branch.\<close>

definition branch_taken :: "u32 \<Rightarrow> i32 \<Rightarrow> i32 \<Rightarrow> bool option" where
  "branch_taken func3 x y =
     (if func3 XOR BEQ = 0 then Some (x = y)
      else if func3 XOR BNE = 0 then Some (x \<noteq> y)
      else if func3 XOR BLT = 0 then Some (sint x < sint y)
      else if func3 XOR BGE = 0 then Some (sint y \<le> sint x)
      else if func3 XOR BLTU = 0 then Some (uint x < uint y)
      else if func3 XOR BGEU = 0 then Some (uint y \<le> uint x)
      else None)"

definition exec_branch :: "u32 \<Rightarrow> cpu \<Rightarrow> sim_outcome" where
  "exec_branch word st =
     (case branch_taken (func3_of word) (reg st (rs1_of word)) (reg st (rs2_of word)) of
        Some taken \<Rightarrow> Next (if taken then advance (branch_offset word) st else st)
      | None \<Rightarrow> fail ''ERROR OCCURED - no such BRANCH instr. was found '' st)"

definition load_into :: "nat \<Rightarrow> mem_fault + i32 \<times> memory \<Rightarrow> cpu \<Rightarrow> sim_outcome" where
  "load_into rd r st =
     (case r of Inl f \<Rightarrow> Exit f | Inr (value, m) \<Rightarrow> write_back rd value (st\<lparr>mem := m\<rparr>))"

definition exec_load :: "u32 \<Rightarrow> cpu \<Rightarrow> sim_outcome" where
  "exec_load word st =
     (let func3 = func3_of word; rd = rd_of word; offset = drop_bit 20 word;
          a = reg st (rs1_of word) + offset
      in if func3 XOR LB = 0 then load_into rd (memory_rd_b (mem st) a) st
         else if func3 XOR LH = 0 then load_into rd (memory_rd_h (mem st) a) st
         else if func3 XOR LW = 0 then load_into rd (memory_rd_w (mem st) a) st
         else if func3 XOR LBU = 0 then load_into rd (memory_rd_b (mem st) a) st
         else if func3 XOR LHU = 0 then load_into rd (memory_rd_h (mem st) a) st
         else fail ''ERROR OCCURED - no such LOAD instr. was found '' st)"

definition store_done :: "mem_fault + memory \<Rightarrow> cpu \<Rightarrow> sim_outcome" where
  "store_done r st = (case r of Inl f \<Rightarrow> Exit f | Inr m \<Rightarrow> Next (advance 4 (st\<lparr>mem := m\<rparr>)))"

definition exec_store :: "u32 \<Rightarrow> cpu \<Rightarrow> sim_outcome" where
  "exec_store word st =
     (let func3 = func3_of word; src = reg st (rs2_of word);
          offset_0_4 = drop_bit 27 (push_bit 20 word);
          offset_5_11 = push_bit 5 (drop_bit 25 word);
          a = reg st (rs1_of word) + (offset_0_4 + offset_5_11)
      in if func3 XOR SB = 0 then store_done (memory_wr_b (mem st) a src) st
         else if func3 XOR SH = 0 then store_done (memory_wr_h (mem st) a src) st
         else if func3 XOR SW = 0 then store_done (memory_wr_w (mem st) a src) st
         else fail ''Error occured in STORE_INST'' st)"

definition exec_immediate :: "u32 \<Rightarrow> cpu \<Rightarrow> sim_outcome" where
  "exec_immediate word st =
     (let func3 = func3_of word; func7 = func7_of word; x = reg st (rs1_of word); rd = rd_of word;
          shamt = unat (drop_bit 27 (push_bit 7 word));
          imm_11_0 = drop_bit 20 word; signed_imm_11_0 = signed_drop_bit 20 word;
          signbit = drop_bit 31 word
      in if func3 XOR ADDI = 0 then write_back rd (x + signed_imm_11_0) st
         else if func3 XOR SLTI = 0 then write_back rd (bool_word (sint x < sint signed_imm_11_0)) st
         else if func3 XOR SLTIU = 0 then write_back rd (bool_word (uint x < uint signed_imm_11_0)) st
         else if func3 XOR XORI = 0 then
           (if signbit = 0 then write_back rd (x XOR imm_11_0) st
            else write_back rd (x XOR signed_imm_11_0) st)
         else if func3 XOR ORI = 0 then
           (if signbit = 0 then write_back rd (x OR imm_11_0) st
            else write_back rd (x OR signed_imm_11_0) st)
         else if func3 XOR ANDI = 0 then
           (if signbit = 0 then write_back rd (x AND imm_11_0) st
            else write_back rd (x AND signed_imm_11_0) st)
         else if func3 XOR SLLI = 0 then write_back rd (push_bit shamt x) st
         else if func3 XOR SRLI_SRAI = 0 then
           (if func7 XOR SRLI = 0 then write_back rd (drop_bit shamt x) st
            else if func7 XOR SRAI = 0 then
              (if signbit = 0 then write_back rd (drop_bit shamt x) st
               else write_back rd (signed_drop_bit shamt x) st)
            else Next st)
         else fail ''Error occured in IMMEDIATE_INST'' st)"

text \<open>A shift by a register: C defines it for amounts 0 to 31 only.\<close>

definition shift_by :: "(nat \<Rightarrow> i32 \<Rightarrow> i32) \<Rightarrow> i32 \<Rightarrow> i32 \<Rightarrow> undefined_op + i32" where
  "shift_by sh x y = (if 0 \<le> sint y \<and> sint y < 32 then Inr (sh (nat (sint y)) x) else Inl ShiftOutOfRange)"

definition write_result :: "nat \<Rightarrow> undefined_op + i32 \<Rightarrow> cpu \<Rightarrow> sim_outcome" where
  "write_result rd r st = (case r of Inl u \<Rightarrow> Undefined u | Inr v \<Rightarrow> write_back rd v st)"

definition exec_rtype_0 :: "u32 \<Rightarrow> cpu \<Rightarrow> sim_outcome" where
  "exec_rtype_0 word st =
     (let func3 = func3_of word; x = reg st (rs1_of word); y = reg st (rs2_of word); rd = rd_of word
      in if func3 XOR ADD = 0 then write_back rd (x + y) st
         else if func3 XOR SLL = 0 then write_result rd (shift_by push_bit x y) st
         else if func3 XOR SLT = 0 then
           (if sint x < sint y then write_back rd 0x00000001 st else write_back rd 0x00 st)
         else if func3 XOR SLTU = 0 then
           (if uint x < uint y then write_back rd 0x00000001 st else write_back rd 0x00 st)
         else if func3 XOR XOR_F3 = 0 then write_back rd (x XOR y) st
         else if func3 XOR SRL = 0 then write_result rd (shift_by signed_drop_bit x y) st
         else if func3 XOR OR_F3 = 0 then write_back rd (x OR y) st
         else if func3 XOR AND_F3 = 0 then write_back rd (x AND y) st
         else fail ''Error in IMMEDIATE_RTYP0 instructions'' st)"

definition exec_rtype_1 :: "u32 \<Rightarrow> cpu \<Rightarrow> sim_outcome" where
  "exec_rtype_1 word st =
     (let func3 = func3_of word; x = reg st (rs1_of word); y = reg st (rs2_of word); rd = rd_of word
      in if func3 XOR SUB = 0 then write_back rd (x - y) st
         else if func3 XOR SRA = 0 then
           (let signbit = drop_bit 31 x
            in if signbit = 0 then write_result rd (shift_by drop_bit x y) st
               else if signbit = 1 then write_result rd (shift_by signed_drop_bit x y) st
               else fail ''Error occured in RTYPE_1_INSTR'' st)
         else fail ''Error occured in RTYPE_1_INST'' st)"

text \<open>The products are computed in 64 bits: \<open>(int64_t)reg\<close> and \<open>(uint64_t)reg\<close> both
  extend the sign of the \<open>int\<close>, and a product with one unsigned factor is unsigned, so its
  shift is logical.\<close>

definition exec_mul :: "u32 \<Rightarrow> cpu \<Rightarrow> sim_outcome" where
  "exec_mul word st =
     (let func3 = func3_of word; x = reg st (rs1_of word); y = reg st (rs2_of word); rd = rd_of word;
          prod = (scast x :: i64) * scast y
      in if func3 XOR MUL = 0 then write_back rd (ucast prod) st
         else if func3 XOR MULH = 0 then write_back rd (ucast (signed_drop_bit 32 prod)) st
         else if func3 XOR MULHSU = 0 then write_back rd (ucast (drop_bit 32 prod)) st
         else if func3 XOR MULHU = 0 then write_back rd (ucast (drop_bit 32 prod)) st
         else if func3 XOR DIV = 0 then
           (if x \<noteq> 0 \<and> y \<noteq> 0 then
              (if sint x = - (2 ^ 31) \<and> sint y = -1 then Undefined DivisionOverflow
               else write_back rd (word_of_int (c_div (sint x) (sint y))) st)
            else Return EXIT_FAILURE (print ''Error dividing by zero'' st))
         else if func3 XOR DIVU = 0 then
           (if x \<noteq> 0 \<and> y \<noteq> 0 then write_back rd (x div y) st
            else Return EXIT_FAILURE (print ''Error dividing by zero'' st))
         else if func3 XOR REM = 0 then
           (if y = 0 then Undefined DivisionByZero
            else if sint x = - (2 ^ 31) \<and> sint y = -1 then Undefined DivisionOverflow
            else write_back rd (word_of_int (c_rem (sint x) (sint y))) st)
         else if func3 XOR REMU = 0 then
           (if y = 0 then Undefined DivisionByZero else write_back rd (x mod y) st)
         else fail ''Error occured in MUL_TYPE'' st)"

definition exec_rtype :: "u32 \<Rightarrow> cpu \<Rightarrow> sim_outcome" where
  "exec_rtype word st =
     (let func7 = func7_of word
      in if func7 XOR RTYPE_0 = 0 then exec_rtype_0 word st
         else if func7 XOR RTYPE_1 = 0 then exec_rtype_1 word st
         else if func7 XOR MUL_TYPE = 0 then exec_mul word st
         else fail ''Error occured in RTYPE_INST'' st)"

subsection \<open>The loop\<close>

definition exec_inst :: "u32 \<Rightarrow> u32 \<Rightarrow> cpu \<Rightarrow> sim_outcome" where
  "exec_inst start_addr word st =
     (let opcode = opcode_of word
      in if opcode XOR ECALL = 0 then exec_ecall start_addr st
         else if opcode XOR LUI = 0 then exec_lui word st
         else if opcode XOR AUIPC = 0 then exec_auipc word st
         else if opcode XOR JAL = 0 then exec_jal word st
         else if opcode XOR JALR = 0 then exec_jalr word st
         else if opcode XOR BRANCH_INST = 0 then exec_branch word st
         else if opcode XOR LOAD_INST = 0 then exec_load word st
         else if opcode XOR STORE_INST = 0 then exec_store word st
         else if opcode XOR IMMEDIATE_INST = 0 then exec_immediate word st
         else if opcode XOR RTYPE_INST = 0 then exec_rtype word st
         else fail ''ERROR OCCURED - no such opcode '' st)"

definition sim_step :: "u32 \<Rightarrow> cpu \<Rightarrow> sim_outcome" where
  "sim_step start_addr st =
     (case memory_rd_w (mem st) (program_counter st) of
        Inl f \<Rightarrow> Exit f
      | Inr (inst_word, m) \<Rightarrow> exec_inst start_addr inst_word (st\<lparr>mem := m\<rparr>))"

fun sim_loop :: "nat \<Rightarrow> u32 \<Rightarrow> cpu \<Rightarrow> sim_outcome option" where
  "sim_loop 0 start_addr st = None"
| "sim_loop (Suc fuel) start_addr st =
     (case sim_step start_addr st of
        Next st' \<Rightarrow> sim_loop fuel start_addr st'
      | r \<Rightarrow> Some r)"

definition simulate :: "nat \<Rightarrow> memory \<Rightarrow> u32 \<Rightarrow> (nat \<Rightarrow> i32) \<Rightarrow> byte list \<Rightarrow> sim_outcome option" where
  "simulate fuel m start_addr uninit input =
     sim_loop fuel start_addr
       \<lparr>program_counter = start_addr, reg = uninit(0 := 0), mem = m, stdin = input, stdout = []\<rparr>"

end
