(* ===== verification/IsaSpec.thy ===== *)
theory IsaSpec
  imports Simulate
begin

text \<open>
  The reference semantics of RV32IM, written from the instruction formats with byte memory and a
  hard-wired register 0, and the simulation proof: where \<open>sim_domain\<close> holds, a turn of the
  loop of \<open>A5/src/simulate.c\<close> is the instruction of the reference machine, and so is any
  run of the loop. \<open>sim_domain\<close> leaves out exactly the cases where the code departs from the
  instruction set; the departures are stated at the end.
\<close>

subsection \<open>Fields and immediates\<close>

definition bits :: "nat \<Rightarrow> nat \<Rightarrow> u32 \<Rightarrow> u32" where
  "bits hi lo w = drop_bit lo w AND mask (hi + 1 - lo)"

definition imm_i :: "u32 \<Rightarrow> u32" where
  "imm_i w = signed_take_bit 11 (bits 31 20 w)"

definition imm_s :: "u32 \<Rightarrow> u32" where
  "imm_s w = signed_take_bit 11 (push_bit 5 (bits 31 25 w) OR bits 11 7 w)"

definition imm_b :: "u32 \<Rightarrow> u32" where
  "imm_b w = signed_take_bit 12 (push_bit 12 (bits 31 31 w) OR push_bit 11 (bits 7 7 w)
     OR push_bit 5 (bits 30 25 w) OR push_bit 1 (bits 11 8 w))"

definition imm_u :: "u32 \<Rightarrow> u32" where
  "imm_u w = push_bit 12 (bits 31 12 w)"

definition imm_j :: "u32 \<Rightarrow> u32" where
  "imm_j w = signed_take_bit 20 (push_bit 20 (bits 31 31 w) OR push_bit 12 (bits 19 12 w)
     OR push_bit 11 (bits 20 20 w) OR push_bit 1 (bits 30 21 w))"

lemma mask_values: "mask 1 = (1::u32)" "mask 3 = (7::u32)" "mask 4 = (15::u32)" "mask 5 = (31::u32)" "mask 6 = (63::u32)"
   "mask 7 = (127::u32)" "mask 8 = (255::u32)" "mask 10 = (1023::u32)" "mask 12 = (4095::u32)" "mask 20 = (1048575::u32)"
  by (simp_all add: mask_eq_exp_minus_1)

lemma field_bits:
  "opcode_of w = bits 6 0 w" "func3_of w = bits 14 12 w" "func7_of w = bits 31 25 w"
  "rd_of w = unat (bits 11 7 w)" "rs1_of w = unat (bits 19 15 w)" "rs2_of w = unat (bits 24 20 w)"
  unfolding opcode_of_def func3_of_def func7_of_def rd_of_def rs1_of_def rs2_of_def bits_def
     word_unat_eq_iff[symmetric]
  by (simp_all only: word32_bits bit_simps) (simp_all add: bit_simps numeral_2_eq_2)

lemma branch_offset_eq: "branch_offset w = imm_b w"
  unfolding branch_offset_def imm_b_def bits_def word32_bits Let_def bit_simps by simp

lemma imm_eqs: "signed_drop_bit 20 w = imm_i w" "push_bit 12 (drop_bit 12 w) = imm_u w"
  unfolding imm_i_def imm_u_def bits_def word32_bits bit_simps by simp_all

lemma nonneg_imm: "\<not> bit w 31 \<Longrightarrow> drop_bit 20 w = imm_i w"
   "\<not> bit w 31 \<Longrightarrow> drop_bit 27 (push_bit 20 w) + push_bit 5 (drop_bit 25 w) = imm_s w"
proof -
  assume n: "\<not> bit w 31"
  show "drop_bit 20 w = imm_i w" using n
    unfolding imm_i_def bits_def word32_bits bit_simps by simp
  have "drop_bit 27 (push_bit 20 w) AND push_bit 5 (drop_bit 25 w) = 0"
    unfolding word32_bits bit_simps by simp
  then have "drop_bit 27 (push_bit 20 w) + push_bit 5 (drop_bit 25 w) = drop_bit 27 (push_bit 20 w) OR push_bit 5 (drop_bit 25 w)"
    by (rule add_eq_or)
  also have "\<dots> = imm_s w" using n
    unfolding imm_s_def bits_def word32_bits bit_simps by simp
  finally show "drop_bit 27 (push_bit 20 w) + push_bit 5 (drop_bit 25 w) = imm_s w" .
qed

subsection \<open>Register operations\<close>

definition isa_alu :: "u32 \<Rightarrow> u32 \<Rightarrow> i32 \<Rightarrow> i32 \<Rightarrow> i32 option" where
  "isa_alu f7 f3 x y =
     (let sh = unat (y AND 31)
      in if f7 = 0 then
           (if f3 = 0 then Some (x + y)
            else if f3 = 1 then Some (push_bit sh x)
            else if f3 = 2 then Some (bool_word (sint x < sint y))
            else if f3 = 3 then Some (bool_word (uint x < uint y))
            else if f3 = 4 then Some (x XOR y)
            else if f3 = 5 then Some (drop_bit sh x)
            else if f3 = 6 then Some (x OR y)
            else if f3 = 7 then Some (x AND y) else None)
         else if f7 = 0x20 then
           (if f3 = 0 then Some (x - y) else if f3 = 5 then Some (signed_drop_bit sh x) else None)
         else if f7 = 1 then
           (if f3 = 0 then Some (word_of_int (sint x * sint y))
            else if f3 = 1 then Some (word_of_int (sint x * sint y div 2 ^ 32))
            else if f3 = 2 then Some (word_of_int (sint x * uint y div 2 ^ 32))
            else if f3 = 3 then Some (word_of_int (uint x * uint y div 2 ^ 32))
            else if f3 = 4 then Some (if y = 0 then -1 else word_of_int (c_div (sint x) (sint y)))
            else if f3 = 5 then Some (if y = 0 then -1 else x div y)
            else if f3 = 6 then Some (if y = 0 then x else word_of_int (c_rem (sint x) (sint y)))
            else if f3 = 7 then Some (if y = 0 then x else x mod y) else None)
         else None)"

text \<open>Where the simulator computes the value of the instruction set.\<close>

definition alu_domain :: "u32 \<Rightarrow> u32 \<Rightarrow> i32 \<Rightarrow> i32 \<Rightarrow> bool" where
  "alu_domain f7 f3 x y =
     (if f7 = 0 then
        (if f3 = 1 then y < 32 else if f3 = 5 then y < 32 \<and> 0 \<le> sint x else True)
      else if f7 = 0x20 then (if f3 = 5 then y < 32 else True)
      else if f3 = 2 then 0 \<le> sint y
      else if f3 = 3 then 0 \<le> sint x \<and> 0 \<le> sint y
      else if f3 = 4 \<or> f3 = 6 then x \<noteq> 0 \<and> y \<noteq> 0 \<and> \<not> (sint x = - (2 ^ 31) \<and> sint y = -1)
      else if f3 = 5 then x \<noteq> 0 \<and> y \<noteq> 0
      else if f3 = 7 then y \<noteq> 0
      else True)"

lemma xor_eq_zero_iff [simp]: "(a :: 'a::len word) XOR b = 0 \<longleftrightarrow> a = b"
  by (metis xor.assoc xor.left_neutral xor.right_neutral xor_self_eq)

lemma prod64: "(scast (x::i32) :: i64) * scast y = word_of_int (sint x * sint y)"
  by simp

lemma word64_low: "ucast (word_of_int p :: i64) = (word_of_int p :: 32 word)"
  by (rule bit_word_eqI) (simp add: bit_simps)

lemma word64_high:
  "ucast (signed_drop_bit 32 (word_of_int p :: i64)) = (word_of_int (p div 2 ^ 32) :: 32 word)"
  "ucast (drop_bit 32 (word_of_int p :: i64)) = (word_of_int (p div 2 ^ 32) :: 32 word)"
  unfolding drop_bit_eq_div[symmetric] by (rule bit_word_eqI, auto simp add: bit_simps)+

lemmas prod_simps = prod64 word64_low word64_high

lemma uint_nonneg_sint: "0 \<le> sint (y::i32) \<Longrightarrow> uint y = sint y"
proof -
  assume "0 \<le> sint y"
  moreover have "sint y < 2 ^ 32" using sint_lt[of y] by simp
  moreover have "uint y = take_bit 32 (sint y)" 
    using unsigned_less[of y, where 'a = int] by (simp add: sint_uint take_bit_signed_take_bit take_bit_int_eq_self)
  ultimately show ?thesis by (simp add: take_bit_int_eq_self)
qed

lemma small_shift:
  assumes "(y::i32) < 32"
  shows "0 \<le> sint y" "sint y < 32" "nat (sint y) = unat (y AND 31)"
proof -
  have u: "uint y < 32" using assms by (simp add: word_less_def)
  then have s: "sint y = uint y" 
    by (simp add: sint_uint) (rule signed_take_bit_int_eq_self, auto intro: order_trans[of _ 0])
  have "y AND mask 5 = y" using assms by (intro less_mask_eq) simp
  then have "y AND 31 = y" by (simp add: mask_values)
  then show "0 \<le> sint y" "sint y < 32" "nat (sint y) = unat (y AND 31)" using s u by simp_all
qed

lemma signbit_eq: "drop_bit 31 (x::i32) = (if bit x 31 then 1 else 0)"
  unfolding word32_bits bit_simps by simp

lemma nonneg_bit: "0 \<le> sint (x::i32) \<longleftrightarrow> \<not> bit x 31"
  using bit_last_iff[of x] by auto

lemma nonneg_shift:
  assumes "\<not> bit (x::i32) 31"
  shows "signed_drop_bit n x = drop_bit n x"
proof (rule bit_word_eqI)
  fix k assume "k < LENGTH(32)"
  then show "bit (signed_drop_bit n x) k = bit (drop_bit n x) k"
    using assms by (cases "n + k < 32"; cases "n + k = 31") (auto simp: bit_simps)
qed

lemma func3_cases:
  obtains "func3_of w = 0" | "func3_of w = 1" | "func3_of w = 2" | "func3_of w = 3"
    | "func3_of w = 4" | "func3_of w = 5" | "func3_of w = 6" | "func3_of w = 7"
proof -
  have "func3_of w = drop_bit 12 w AND 7"
    unfolding func3_of_def word32_bits bit_simps by (simp add: bit_simps)
  then have "func3_of w \<le> 7" using word_and_le1[of "drop_bit 12 w" 7] by simp
  then have "unat (func3_of w) \<le> 7" by (simp add: word_le_nat_alt)
  then have "unat (func3_of w) = 0 \<or> unat (func3_of w) = 1 \<or> unat (func3_of w) = 2 \<or> unat (func3_of w) = 3
    \<or> unat (func3_of w) = 4 \<or> unat (func3_of w) = 5 \<or> unat (func3_of w) = 6 \<or> unat (func3_of w) = 7"
    by linarith
  then show ?thesis by (elim disjE) (rule that, simp add: word_unat_eq_iff)+
qed

lemma shift_in_range: "y < 32 \<Longrightarrow> shift_by sh x y = Inr (sh (unat (y AND 31)) x)"
  by (simp add: shift_by_def small_shift)

lemma exec_rtype_0_isa:
  assumes "isa_alu 0 (func3_of w) (reg st (rs1_of w)) (reg st (rs2_of w)) = Some v"
    and "alu_domain 0 (func3_of w) (reg st (rs1_of w)) (reg st (rs2_of w))"
  shows "exec_rtype_0 w st = write_back (rd_of w) v st"
  using assms
  by (rule_tac func3_cases[of w])
     (auto simp add: isa_alu_def alu_domain_def exec_rtype_0_def Let_def bool_word_def shift_in_range write_result_def nonneg_shift nonneg_bit
       simp del: not_less)

lemma exec_rtype_1_isa:
  assumes "isa_alu 0x20 (func3_of w) (reg st (rs1_of w)) (reg st (rs2_of w)) = Some v"
    and "alu_domain 0x20 (func3_of w) (reg st (rs1_of w)) (reg st (rs2_of w))"
  shows "exec_rtype_1 w st = write_back (rd_of w) v st"
  using assms
  by (rule_tac func3_cases[of w])
     (auto simp add: isa_alu_def alu_domain_def exec_rtype_1_def Let_def shift_in_range write_result_def signbit_eq nonneg_shift
       simp del: not_less)

lemma exec_mul_isa:
  assumes "isa_alu 1 (func3_of w) (reg st (rs1_of w)) (reg st (rs2_of w)) = Some v"
    and "alu_domain 1 (func3_of w) (reg st (rs1_of w)) (reg st (rs2_of w))"
  shows "exec_mul w st = write_back (rd_of w) v st"
  using assms
  by (rule_tac func3_cases[of w])
     (simp_all only: isa_alu_def alu_domain_def exec_mul_def Let_def prod_simps, auto simp: uint_nonneg_sint)

subsection \<open>The reference machine\<close>

record isa_state =
  ipc :: u32
  iregs :: "nat \<Rightarrow> i32"
  ibytes :: "i32 \<Rightarrow> byte"

definition isa_write :: "nat \<Rightarrow> i32 \<Rightarrow> isa_state \<Rightarrow> isa_state" where
  "isa_write rd v s = (if rd = 0 then s else s\<lparr>iregs := (iregs s)(rd := v)\<rparr>)"

definition isa_next :: "nat \<Rightarrow> i32 \<Rightarrow> isa_state \<Rightarrow> isa_state" where
  "isa_next rd v s = (isa_write rd v s)\<lparr>ipc := ipc s + 4\<rparr>"

definition isa_alu_imm :: "u32 \<Rightarrow> i32 \<Rightarrow> i32 option" where
  "isa_alu_imm w x =
     (let f3 = bits 14 12 w; f7 = bits 31 25 w; imm = imm_i w; sh = unat (bits 24 20 w)
      in if f3 = 0 then Some (x + imm)
         else if f3 = 1 then (if f7 = 0 then Some (push_bit sh x) else None)
         else if f3 = 2 then Some (bool_word (sint x < sint imm))
         else if f3 = 3 then Some (bool_word (uint x < uint imm))
         else if f3 = 4 then Some (x XOR imm)
         else if f3 = 5 then (if f7 = 0 then Some (drop_bit sh x)
            else if f7 = 0x20 then Some (signed_drop_bit sh x) else None)
         else if f3 = 6 then Some (x OR imm)
         else if f3 = 7 then Some (x AND imm) else None)"

definition isa_branch :: "u32 \<Rightarrow> i32 \<Rightarrow> i32 \<Rightarrow> bool option" where
  "isa_branch f3 x y =
     (if f3 = 0 then Some (x = y) else if f3 = 1 then Some (x \<noteq> y)
      else if f3 = 4 then Some (sint x < sint y) else if f3 = 5 then Some (\<not> sint x < sint y)
      else if f3 = 6 then Some (uint x < uint y) else if f3 = 7 then Some (\<not> uint x < uint y)
      else None)"

definition isa_load :: "u32 \<Rightarrow> (i32 \<Rightarrow> byte) \<Rightarrow> i32 \<Rightarrow> i32 option" where
  "isa_load f3 m a =
     (if f3 = 0 then Some (scast (m a))
      else if f3 = 1 then (if a AND 1 = 0 then Some (signed_take_bit 15 (le16 (m a) (m (a + 1)))) else None)
      else if f3 = 2 then (if a AND 3 = 0 then Some (le32 (m a) (m (a + 1)) (m (a + 2)) (m (a + 3))) else None)
      else if f3 = 4 then Some (ucast (m a))
      else if f3 = 5 then (if a AND 1 = 0 then Some (le16 (m a) (m (a + 1))) else None)
      else None)"

definition isa_store :: "u32 \<Rightarrow> (i32 \<Rightarrow> byte) \<Rightarrow> i32 \<Rightarrow> i32 \<Rightarrow> (i32 \<Rightarrow> byte) option" where
  "isa_store f3 m a v =
     (if f3 = 0 then Some (m(a := ucast v))
      else if f3 = 1 then (if a AND 1 = 0 then Some (upd_half m a v) else None)
      else if f3 = 2 then (if a AND 3 = 0 then Some (upd_word m a v) else None)
      else None)"

definition isa_exec :: "u32 \<Rightarrow> isa_state \<Rightarrow> isa_state option" where
  "isa_exec w s =
     (let op = bits 6 0 w; f3 = bits 14 12 w; rd = unat (bits 11 7 w);
          x = iregs s (unat (bits 19 15 w)); y = iregs s (unat (bits 24 20 w))
      in if op = 0x37 then Some (isa_next rd (imm_u w) s)
         else if op = 0x17 then Some (isa_next rd (ipc s + imm_u w) s)
         else if op = 0x6f then Some ((isa_write rd (ipc s + 4) s)\<lparr>ipc := ipc s + imm_j w\<rparr>)
         else if op = 0x67 then Some ((isa_write rd (ipc s + 4) s)\<lparr>ipc := (x + imm_i w) AND NOT 1\<rparr>)
         else if op = 0x63 then
           map_option (\<lambda>taken. s\<lparr>ipc := ipc s + (if taken then imm_b w else 4)\<rparr>) (isa_branch f3 x y)
         else if op = 0x03 then map_option (\<lambda>v. isa_next rd v s) (isa_load f3 (ibytes s) (x + imm_i w))
         else if op = 0x23 then
           map_option (\<lambda>m. s\<lparr>ipc := ipc s + 4, ibytes := m\<rparr>) (isa_store f3 (ibytes s) (x + imm_s w) y)
         else if op = 0x13 then map_option (\<lambda>v. isa_next rd v s) (isa_alu_imm w x)
         else if op = 0x33 then map_option (\<lambda>v. isa_next rd v s) (isa_alu (bits 31 25 w) f3 x y)
         else None)"

text \<open>Where the simulator agrees: no write to register 0, no negative offset of a load or
  store, no sign to extend in a byte or halfword load, a taken branch, no \<open>JALR\<close>, a jump of
  less than 2 kB, and the operands of \<open>alu_domain\<close>.\<close>

definition sim_domain :: "u32 \<Rightarrow> isa_state \<Rightarrow> bool" where
  "sim_domain w s =
     (let op = bits 6 0 w; f3 = bits 14 12 w; f7 = bits 31 25 w; rd = unat (bits 11 7 w);
          x = iregs s (unat (bits 19 15 w)); y = iregs s (unat (bits 24 20 w))
      in if op = 0x23 then \<not> bit w 31
         else if op = 0x63 then isa_branch f3 x y = Some True
         else rd \<noteq> 0 \<and>
           (if op = 0x6f then bits 31 20 w = 0 \<or> bits 31 20 w = 0xfff
            else if op = 0x67 then False
            else if op = 0x03 then \<not> bit w 31 \<and>
              (f3 = 0 \<longrightarrow> \<not> bit (ibytes s (x + imm_i w)) 7) \<and>
              (f3 = 1 \<longrightarrow> \<not> bit (ibytes s (x + imm_i w + 1)) 7)
            else if op = 0x13 then f3 = 5 \<and> f7 = 0x20 \<longrightarrow> 0 \<le> sint x
            else if op = 0x33 then alu_domain f7 f3 x y
            else True))"

definition abs_cpu :: "cpu \<Rightarrow> isa_state" where
  "abs_cpu st = \<lparr>ipc = program_counter st, iregs = reg st, ibytes = byte_at (mem st)\<rparr>"

lemma jal_offset_eq:
  assumes "bits 31 20 w = 0 \<or> bits 31 20 w = 0xfff"
  shows "jal_offset w = imm_j w"
  using assms
  apply (elim disjE)
  unfolding jal_offset_def imm_j_def bits_def word32_bits Let_def bit_simps 
  by simp_all

lemma abs_write_back:
  "rd \<noteq> 0 \<Longrightarrow> \<exists>st'. write_back rd v st = Next st' \<and> abs_cpu st' = isa_next rd v (abs_cpu st)"
  by (simp add: write_back_def abs_cpu_def isa_next_def isa_write_def advance_def set_reg_def)

lemma exec_immediate_isa:
  assumes "isa_alu_imm w (reg st (rs1_of w)) = Some v"
    and "func3_of w = 5 \<and> func7_of w = 0x20 \<longrightarrow> 0 \<le> sint (reg st (rs1_of w))"
  shows "exec_immediate w st = write_back (rd_of w) v st"
proof -
  have sh: "drop_bit 27 (push_bit 7 w) = bits 24 20 w"
    unfolding bits_def word32_bits bit_simps by (simp add: bit_simps)
  have f7: "func7_of w = 0x20 \<Longrightarrow> \<not> bit w 31"
    unfolding func7_of_def word32_bits bit_simps by simp
  show ?thesis using assms unfolding isa_alu_imm_def field_bits(2,3)[symmetric] sh[symmetric]
    by (rule_tac func3_cases[of w])
       (auto simp add: exec_immediate_def Let_def imm_eqs nonneg_imm signbit_eq nonneg_shift nonneg_bit f7 split: if_splits)
qed

lemma byte_ext: "\<not> bit (b::byte) 7 \<Longrightarrow> (ucast b :: i32) = scast b"
  unfolding word32_bits bit_simps by simp

lemma half_ext: "\<not> bit (b1::byte) 7 \<Longrightarrow> le16 b0 b1 = signed_take_bit 15 (le16 b0 b1)"
  unfolding le16_def word32_bits bit_simps by simp

subsection \<open>One instruction\<close>

definition io_same :: "cpu \<Rightarrow> cpu \<Rightarrow> bool" where
  "io_same st st' \<longleftrightarrow> stdin st' = stdin st \<and> stdout st' = stdout st"

definition steps_to :: "sim_outcome \<Rightarrow> cpu \<Rightarrow> isa_state \<Rightarrow> bool" where
  "steps_to r st s \<longleftrightarrow> (\<exists>st'. r = Next st' \<and> abs_cpu st' = s \<and> io_same st st')"

lemma steps_to_write_back:
  "rd \<noteq> 0 \<Longrightarrow> abs_cpu st' = abs_cpu st \<Longrightarrow> io_same st st' \<Longrightarrow> steps_to (write_back rd v st') st (isa_next rd v (abs_cpu st))"
  by (auto simp: steps_to_def io_same_def write_back_def abs_cpu_def isa_next_def isa_write_def advance_def set_reg_def)

lemma io_same_refl [simp]: "io_same st st"
  by (simp add: io_same_def)

lemma steps_to_load_into:
  assumes "rd \<noteq> 0" "r = Inr (v, m)" "byte_at m = byte_at (mem st)"
  shows "steps_to (load_into rd r st) st (isa_next rd v (abs_cpu st))"
proof -
  have "abs_cpu (st\<lparr>mem := m\<rparr>) = abs_cpu st" "io_same st (st\<lparr>mem := m\<rparr>)"
    using assms(3) by (simp_all add: abs_cpu_def io_same_def)
  with assms(1,2) show ?thesis by (simp add: load_into_def steps_to_write_back)
qed

lemma exec_load_isa:
  assumes v: "isa_load (func3_of w) (byte_at (mem st)) (reg st (rs1_of w) + imm_i w) = Some v"
    and rd: "rd_of w \<noteq> 0" and nn: "\<not> bit w 31"
    and lb: "func3_of w = 0 \<longrightarrow> \<not> bit (byte_at (mem st) (reg st (rs1_of w) + imm_i w)) 7"
    and lh: "func3_of w = 1 \<longrightarrow> \<not> bit (byte_at (mem st) (reg st (rs1_of w) + imm_i w + 1)) 7"
  shows "steps_to (exec_load w st) st (isa_next (rd_of w) v (abs_cpu st))"
  using v lb lh
  by (rule_tac func3_cases[of w])
     (auto simp: exec_load_def isa_load_def Let_def nonneg_imm(1)[OF nn] memory_rd_b_eq memory_rd_h_eq memory_rd_w_eq
        cell_le32 byte_ext half_ext[symmetric] split: if_splits intro!: steps_to_load_into[OF rd])

lemma exec_store_isa:
  assumes m: "isa_store (func3_of w) (byte_at (mem st)) (reg st (rs1_of w) + imm_s w) (reg st (rs2_of w)) = Some m"
    and nn: "\<not> bit w 31"
  shows "steps_to (exec_store w st) st ((abs_cpu st)\<lparr>ipc := program_counter st + 4, ibytes := m\<rparr>)"
  using m
  by (rule_tac func3_cases[of w])
     (auto simp: exec_store_def isa_store_def Let_def nonneg_imm(2)[OF nn] memory_wr_b_eq memory_wr_h_eq memory_wr_w_eq
        byte_at_store_byte byte_at_store_half byte_at_store_word store_done_def steps_to_def abs_cpu_def advance_def
        io_same_def split: if_splits)

lemma branch_taken_isa: "branch_taken f3 x y = isa_branch f3 x y"
  by (simp add: branch_taken_def isa_branch_def not_less)

lemma exec_branch_isa:
  assumes "isa_branch (func3_of w) (reg st (rs1_of w)) (reg st (rs2_of w)) = Some True"
  shows "steps_to (exec_branch w st) st ((abs_cpu st)\<lparr>ipc := program_counter st + imm_b w\<rparr>)"
  using assms by (simp add: exec_branch_def branch_taken_isa steps_to_def abs_cpu_def advance_def branch_offset_eq io_same_def)

lemma exec_rtype_isa:
  assumes "isa_alu (func7_of w) (func3_of w) (reg st (rs1_of w)) (reg st (rs2_of w)) = Some v"
    and "alu_domain (func7_of w) (func3_of w) (reg st (rs1_of w)) (reg st (rs2_of w))"
  shows "exec_rtype w st = write_back (rd_of w) v st"
proof -
  have "func7_of w = 0 \<or> func7_of w = 0x20 \<or> func7_of w = 1"
    using assms(1) by (auto simp: isa_alu_def Let_def split: if_splits)
  then show ?thesis using assms exec_rtype_0_isa exec_rtype_1_isa exec_mul_isa
    by (auto simp: exec_rtype_def Let_def)
qed

lemma exec_inst_isa:
  assumes e: "isa_exec w (abs_cpu st) = Some s'" and d: "sim_domain w (abs_cpu st)"
  shows "steps_to (exec_inst start_addr w st) st s'"
proof -
  define op where "op = opcode_of w"
  have ops: "op = 0x37 \<or> op = 0x17 \<or> op = 0x6f \<or> op = 0x67 \<or> op = 0x63 \<or> op = 0x03 \<or> op = 0x23 \<or> op = 0x13 \<or> op = 0x33"
    using e by (auto simp: isa_exec_def op_def field_bits(1) Let_def split: if_splits)
  note e' = e[unfolded isa_exec_def field_bits[symmetric] op_def[symmetric] Let_def]
    and d' = d[unfolded sim_domain_def field_bits[symmetric] op_def[symmetric] Let_def]
  have ex: "exec_inst start_addr w st = (if op = ECALL then exec_ecall start_addr st else
      if op = 0x37 then exec_lui w st else if op = 0x17 then exec_auipc w st else if op = 0x6f then exec_jal w st
      else if op = 0x67 then exec_jalr w st else if op = 0x63 then exec_branch w st else if op = 0x03 then exec_load w st
      else if op = 0x23 then exec_store w st else if op = 0x13 then exec_immediate w st else if op = 0x33 then exec_rtype w st
      else fail ''ERROR OCCURED - no such opcode '' st)"
    by (simp add: exec_inst_def op_def)
  from ops consider
      (lui) "op = 0x37" | (auipc) "op = 0x17" | (jal) "op = 0x6f" | (jalr) "op = 0x67"
    | (branch) "op = 0x63" | (load) "op = 0x03" | (store) "op = 0x23" | (imm) "op = 0x13" | (rtype) "op = 0x33"
    by blast
  note cases = this
  have fields: "iregs (abs_cpu st) = reg st" "ipc (abs_cpu st) = program_counter st" "ibytes (abs_cpu st) = byte_at (mem st)"
    by (simp_all add: abs_cpu_def)
  from cases show ?thesis
  proof cases
    case lui
    then show ?thesis using e' d' ex by (simp add: fields exec_lui_def imm_eqs) (auto intro: steps_to_write_back)
  next
    case auipc
    then show ?thesis using e' d' ex by (simp add: fields exec_auipc_def imm_eqs) (auto intro: steps_to_write_back)
  next
    case jal
    then have "jal_offset w = imm_j w" using d' by (intro jal_offset_eq) (auto split: if_splits)
    then show ?thesis using jal e' d' ex
      by (auto simp add: fields exec_jal_def steps_to_def isa_write_def advance_def set_reg_def abs_cpu_def io_same_def)
  next
    case jalr
    then show ?thesis using d' by simp
  next
    case branch
    then show ?thesis using e' d' ex exec_branch_isa[of w st] by (auto simp add: fields)
  next
    case load
    then show ?thesis using e' d' ex exec_load_isa[of w st] by (auto simp add: fields)
  next
    case store
    then show ?thesis using e' d' ex exec_store_isa[of w st] by (auto simp add: fields)
  next
    case imm
    then obtain v where "isa_alu_imm w (reg st (rs1_of w)) = Some v" "s' = isa_next (rd_of w) v (abs_cpu st)"
      using e' by (auto simp: fields)
    then show ?thesis using imm d' ex exec_immediate_isa[of w st v] by (auto simp add: fields intro: steps_to_write_back)
  next
    case rtype
    then obtain v where "isa_alu (func7_of w) (func3_of w) (reg st (rs1_of w)) (reg st (rs2_of w)) = Some v"
        "s' = isa_next (rd_of w) v (abs_cpu st)"
      using e' by (auto simp: fields)
    then show ?thesis using rtype d' ex exec_rtype_isa[of w st v] by (auto simp add: fields intro: steps_to_write_back)
  qed
qed

subsection \<open>Runs\<close>

definition isa_fetch :: "isa_state \<Rightarrow> u32 option" where
  "isa_fetch s = (if ipc s AND 3 = 0
     then Some (le32 (ibytes s (ipc s)) (ibytes s (ipc s + 1)) (ibytes s (ipc s + 2)) (ibytes s (ipc s + 3)))
     else None)"

fun isa_run :: "nat \<Rightarrow> isa_state \<Rightarrow> isa_state option" where
  "isa_run 0 s = Some s"
| "isa_run (Suc n) s =
     (case isa_fetch s of None \<Rightarrow> None
      | Some w \<Rightarrow> (case isa_exec w s of None \<Rightarrow> None | Some s' \<Rightarrow> isa_run n s'))"

fun domain_run :: "nat \<Rightarrow> isa_state \<Rightarrow> bool" where
  "domain_run 0 s = True"
| "domain_run (Suc n) s =
     (case isa_fetch s of None \<Rightarrow> False
      | Some w \<Rightarrow> sim_domain w s \<and> (case isa_exec w s of None \<Rightarrow> False | Some s' \<Rightarrow> domain_run n s'))"

lemma sim_step_fetch:
  assumes "isa_fetch (abs_cpu st) = Some w"
  shows "\<exists>m. sim_step start_addr st = exec_inst start_addr w (st\<lparr>mem := m\<rparr>) \<and> byte_at m = byte_at (mem st)"
proof -
  have al: "program_counter st AND 3 = 0" and w: "w = cell (mem st) (program_counter st)"
    using assms by (auto simp: isa_fetch_def abs_cpu_def cell_le32 split: if_splits)
  then show ?thesis by (auto simp: sim_step_def memory_rd_w_eq)
qed

lemma abs_cpu_mem: "byte_at m = byte_at (mem st) \<Longrightarrow> abs_cpu (st\<lparr>mem := m\<rparr>) = abs_cpu st"
  by (simp add: abs_cpu_def)

lemma sim_step_isa:
  assumes f: "isa_fetch (abs_cpu st) = Some w" and e: "isa_exec w (abs_cpu st) = Some s'"
    and d: "sim_domain w (abs_cpu st)"
  shows "\<exists>st'. sim_step start_addr st = Next st' \<and> abs_cpu st' = s' \<and> io_same st st'"
proof -
  obtain m where m: "sim_step start_addr st = exec_inst start_addr w (st\<lparr>mem := m\<rparr>)" "byte_at m = byte_at (mem st)"
    using sim_step_fetch[OF f] by blast
  have "steps_to (exec_inst start_addr w (st\<lparr>mem := m\<rparr>)) (st\<lparr>mem := m\<rparr>) s'"
    by (rule exec_inst_isa) (simp_all add: abs_cpu_mem[OF m(2)] e d)
  then show ?thesis by (auto simp: m(1) steps_to_def io_same_def)
qed

lemma rd_b_bytes: "memory_rd_b m a = Inr (v, m') \<Longrightarrow> byte_at m' = byte_at m"
  by (auto simp: memory_rd_b_eq)

lemma rd_h_bytes: "memory_rd_h m a = Inr (v, m') \<Longrightarrow> byte_at m' = byte_at m"
  by (auto simp: memory_rd_h_eq split: if_splits)

lemma rd_w_bytes: "memory_rd_w m a = Inr (v, m') \<Longrightarrow> byte_at m' = byte_at m"
  by (auto simp: memory_rd_w_eq split: if_splits)

lemmas exec_defs = exec_ecall_def exec_lui_def exec_auipc_def exec_jal_def exec_jalr_def
  exec_branch_def exec_load_def exec_store_def exec_immediate_def exec_rtype_def exec_rtype_0_def
  exec_rtype_1_def exec_mul_def fail_def write_back_def write_result_def load_into_def store_done_def



subsection \<open>What the loop does\<close>

text \<open>A memory that holds the given words from address 0 on.\<close>

definition demo_memory :: "u32 list \<Rightarrow> memory" where
  "demo_memory ws = \<lparr>pages = (\<lambda>j. if j = 0 then Some (\<lambda>i. if i < length ws then ws ! i else 0) else None)\<rparr>"

definition demo_cpu :: "u32 list \<Rightarrow> cpu" where
  "demo_cpu ws = \<lparr>program_counter = 0, reg = (\<lambda>_. 0), mem = demo_memory ws, stdin = [], stdout = []\<rparr>"

text \<open>\<open>addi a0,zero,65; add a0,a0,a0; sw a0,16(zero); lw a1,16(zero)\<close>\<close>

abbreviation (input) demo_program :: "u32 list" where
  "demo_program \<equiv> [0x04100513, 0x00a50533, 0x00a02823, 0x01002583]"

lemma demo_runs: "isa_run 4 (abs_cpu (demo_cpu demo_program)) \<noteq> None"
    "domain_run 4 (abs_cpu (demo_cpu demo_program))"
  by code_simp+

lemma demo_result: "map_option (\<lambda>s. (ipc s, iregs s 10, iregs s 11))
    (isa_run 4 (abs_cpu (demo_cpu demo_program))) = Some (16, 130, 130)"
  by code_simp

text \<open>C1: the simulator implements the instruction set: any run of the reference machine whose
  instructions lie in \<open>sim_domain\<close> is a run of the loop of \<open>simulate\<close> that ends in the
  corresponding state, with the same registers, memory bytes and program counter and no input or
  output, whatever the loop does after it.\<close>

theorem simulate_implements_isa:
  assumes "isa_run n (abs_cpu st) = Some s'" and "domain_run n (abs_cpu st)"
  shows "\<exists>st'. abs_cpu st' = s' \<and> io_same st st' \<and>
     (\<forall>fuel. sim_loop (n + fuel) start_addr st = sim_loop fuel start_addr st')"
  using assms
proof (induction n arbitrary: st)
  case 0
  then show ?case by (auto intro!: exI[of _ st])
next
  case (Suc n)
  obtain w s1 where f: "isa_fetch (abs_cpu st) = Some w" and e: "isa_exec w (abs_cpu st) = Some s1"
    and r: "isa_run n s1 = Some s'" and d: "sim_domain w (abs_cpu st)" "domain_run n s1"
    using Suc.prems by (auto split: option.splits)
  obtain st1 where st1: "sim_step start_addr st = Next st1" "abs_cpu st1 = s1" "io_same st st1"
    using sim_step_isa[OF f e d(1)] by blast
  obtain st' where "abs_cpu st' = s'" "io_same st1 st'"
     "\<forall>fuel. sim_loop (n + fuel) start_addr st1 = sim_loop fuel start_addr st'"
    using Suc.IH[of st1] r d(2) st1(2) by auto
  then show ?case using st1 by (intro exI[of _ st']) (auto simp: io_same_def)
qed

theorem simulate_implements_isa_witness:
  "\<exists>st'. reg st' 11 = 130 \<and> program_counter st' = 16 \<and>
     sim_loop 5 0 (demo_cpu demo_program) = sim_loop 1 0 st'"
proof -
  obtain s' where s': "isa_run 4 (abs_cpu (demo_cpu demo_program)) = Some s'"
    using demo_runs(1) by blast
  obtain st' where "abs_cpu st' = s'"
      "\<forall>fuel. sim_loop (4 + fuel) 0 (demo_cpu demo_program) = sim_loop fuel 0 st'"
    using simulate_implements_isa[OF s' demo_runs(2), where start_addr = 0] by blast
  moreover have "ipc s' = 16" "iregs s' 11 = 130" using demo_result s' by auto
  ultimately show ?thesis by (intro exI[of _ st']) (auto simp: abs_cpu_def dest: spec[of _ 1])
qed

text \<open>What an instruction may change: registers other than its destination keep their value
  (for a system call other than \<open>a0\<close>), only stores change a byte of the memory, and only
  system calls read or write the streams.\<close>

theorem exec_inst_frame:
  assumes "exec_inst start_addr w st = Next st'"
  shows "(\<forall>r. r \<noteq> (if opcode_of w = ECALL then 10 else rd_of w) \<longrightarrow> reg st' r = reg st r)
    \<and> (opcode_of w \<noteq> STORE_INST \<longrightarrow> byte_at (mem st') = byte_at (mem st))
    \<and> (opcode_of w \<noteq> ECALL \<longrightarrow> io_same st st')"
  using assms
  unfolding exec_inst_def exec_defs Let_def
  by (auto simp: advance_def set_reg_def io_same_def
        dest: rd_b_bytes rd_h_bytes rd_w_bytes
        split: if_splits list.splits option.splits sum.splits)

theorem exec_inst_frame_witness:
  "\<exists>st'. exec_inst 0 0x04100513 (demo_cpu []) = Next st' \<and> reg st' 11 = 0 \<and> stdout st' = []"
proof -
  obtain st' where e: "exec_inst 0 0x04100513 (demo_cpu []) = Next st'"
    by (simp add: exec_inst_def exec_defs Let_def opcode_of_def func3_of_def)
  show ?thesis using exec_inst_frame[OF e] e
    by (simp add: opcode_of_def rd_of_def io_same_def demo_cpu_def)
qed

text \<open>A conditional branch whose condition is false never gets past itself: the code adds the
  offset when the branch is taken and nothing otherwise, so the loop does not end, whatever the
  fuel.\<close>

theorem untaken_branch_stuck:
  assumes f: "isa_fetch (abs_cpu st) = Some w" and op: "opcode_of w = BRANCH_INST"
    and b: "branch_taken (func3_of w) (reg st (rs1_of w)) (reg st (rs2_of w)) = Some False"
  shows "sim_loop fuel start_addr st = None"
  using f b
proof (induction fuel arbitrary: st)
  case 0
  then show ?case by simp
next
  case (Suc fuel)
  obtain m where m: "sim_step start_addr st = exec_inst start_addr w (st\<lparr>mem := m\<rparr>)" "byte_at m = byte_at (mem st)"
    using sim_step_fetch[OF Suc.prems(1)] by blast
  then have "sim_step start_addr st = Next (st\<lparr>mem := m\<rparr>)"
    using Suc.prems(2) op by (simp add: exec_inst_def exec_branch_def)
  then show ?case using Suc.IH[of "st\<lparr>mem := m\<rparr>"] Suc.prems abs_cpu_mem[OF m(2)] by simp
qed

text \<open>\<open>bne zero,zero,8\<close>\<close>

lemma demo_bne: "isa_fetch (abs_cpu (demo_cpu [0x00001463])) = Some 0x00001463"
    "opcode_of 0x00001463 = BRANCH_INST"
    "branch_taken (func3_of 0x00001463) (reg (demo_cpu [0x00001463]) (rs1_of 0x00001463))
       (reg (demo_cpu [0x00001463]) (rs2_of 0x00001463)) = Some False"
  by code_simp+

theorem untaken_branch_stuck_witness:
  "sim_loop 1000 0 (demo_cpu [0x00001463]) = None"
  by (rule untaken_branch_stuck[OF demo_bne])

text \<open>A \<open>JALR\<close> stores the return address and jumps to its offset plus the number of the
  base register, not plus the contents of that register.\<close>

theorem jalr_target:
  assumes "opcode_of w = JALR"
  shows "\<exists>st'. exec_inst start_addr w st = Next st' \<and>
    program_counter st' = imm_i w + of_nat (rs1_of w) \<and>
    reg st' = (reg st)(rd_of w := program_counter st + 4) \<and> mem st' = mem st"
  using assms by (simp add: exec_inst_def exec_jalr_def set_reg_def imm_eqs)

text \<open>\<open>ret\<close>, that is \<open>jalr zero,0(ra)\<close>, goes to address 1.\<close>

theorem jalr_target_witness:
  "\<exists>st'. exec_inst 0 0x00008067 (demo_cpu []) = Next st' \<and> program_counter st' = 1"
  using jalr_target[where w = "0x00008067" and st = "demo_cpu []"]
  by (auto simp: opcode_of_def imm_eqs(1)[symmetric] rs1_of_def)

text \<open>The system calls, as the handler is meant.\<close>

definition ecall_result :: "u32 \<Rightarrow> cpu \<Rightarrow> sim_outcome" where
  "ecall_result start_addr st =
     (if reg st 17 = 1 then
        Next (st\<lparr>program_counter := program_counter st + 4, stdin := drop 1 (stdin st),
                reg := (reg st)(10 := if stdin st = [] then -1 else ucast (hd (stdin st)))\<rparr>)
      else if reg st 17 = 2 then
        Next (st\<lparr>program_counter := program_counter st + 4, stdout := stdout st @ [ucast (reg st 10)]\<rparr>)
      else if reg st 17 \<in> {3, 93} then
        Return (uint (program_counter st - start_addr) div 4 + 1) st
      else Next st)"

lemma exec_ecall_result:
  "exec_ecall start_addr st = ecall_result start_addr st"
proof -
  have "uint ((w::32 word) div 4 + 1) = uint w div 4 + 1" for w
  proof -
    have "uint w < 2 ^ 32" using uint_lt2p[of w] by simp
    moreover have "0 \<le> uint w" by simp
    ultimately have "uint w div 4 + 1 < 2 ^ 32" by simp
    then show ?thesis by (simp add: uint_word_ariths uint_div pos_imp_zdiv_nonneg_iff)
  qed
  then show ?thesis
    by (auto simp: exec_ecall_def ecall_result_def advance_def set_reg_def split: list.splits)
qed

text \<open>The system calls: \<open>getchar\<close> puts the next byte of the input, or -1 at its end,
  into \<open>a0\<close> and steps on, \<open>putchar\<close> appends the low byte of \<open>a0\<close> to the output and
  steps on, the two exit calls return the distance from the start address in instructions plus
  one, and any other number in \<open>a7\<close> repeats the same instruction for ever.\<close>

theorem ecall_behaviour:
  assumes "isa_fetch (abs_cpu st) = Some w" and "opcode_of w = ECALL"
  shows "\<exists>m. byte_at m = byte_at (mem st) \<and>
     sim_step start_addr st = ecall_result start_addr (st\<lparr>mem := m\<rparr>) \<and>
     (reg st 17 \<notin> {1, 2, 3, 93} \<longrightarrow> (\<forall>fuel. sim_loop fuel start_addr st = None))"
proof -
  have step: "\<exists>m. byte_at m = byte_at (mem s) \<and> sim_step start_addr s = ecall_result start_addr (s\<lparr>mem := m\<rparr>)"
    if "abs_cpu s = abs_cpu st" for s
    using sim_step_fetch[of s w start_addr] assms that by (auto simp: exec_inst_def exec_ecall_result)
  have stuck: "sim_loop fuel start_addr s = None"
    if "reg st 17 \<notin> {1, 2, 3, 93}" "abs_cpu s = abs_cpu st" for fuel s
    using that(2)
  proof (induction fuel arbitrary: s)
    case (Suc fuel)
    obtain m where m: "byte_at m = byte_at (mem s)" "sim_step start_addr s = ecall_result start_addr (s\<lparr>mem := m\<rparr>)"
      using step[OF Suc.prems] by blast
    have "reg s 17 = reg st 17" using Suc.prems by (simp add: abs_cpu_def)
    then show ?case using that(1) m Suc.IH[of "s\<lparr>mem := m\<rparr>"] Suc.prems abs_cpu_mem[OF m(1)]
      by (simp add: ecall_result_def)
  qed simp
  show ?thesis using step[of st] stuck[of st] by blast
qed

lemma demo_ecall: "isa_fetch (abs_cpu (demo_cpu [0x73])) = Some 0x73" "opcode_of 0x73 = ECALL"
  by code_simp+

theorem ecall_behaviour_witness:
  "sim_loop 20 0 (demo_cpu [0x73]) = None"
  using ecall_behaviour[OF demo_ecall, of 0] by (auto simp: demo_cpu_def)

text \<open>A byte load, signed or not, puts the zero-extended byte into the register, and its
  offset is read without a sign: a signed byte load of a byte from \<open>0x80\<close> on gives a positive
  number.\<close>

theorem load_byte_zero_extends:
  assumes "opcode_of w = LOAD_INST" and "func3_of w = LB \<or> func3_of w = LBU"
  shows "\<exists>st'. exec_inst start_addr w st = Next st' \<and>
    reg st' (rd_of w) = ucast (byte_at (mem st) (reg st (rs1_of w) + drop_bit 20 w)) \<and>
    byte_at (mem st') = byte_at (mem st) \<and> program_counter st' = program_counter st + 4"
  using assms
  by (auto simp: exec_inst_def exec_load_def Let_def memory_rd_b_eq load_into_def write_back_def
      advance_def set_reg_def)

text \<open>\<open>lb a0,0(zero)\<close> on a memory that starts with the byte \<open>0xff\<close>\<close>

theorem load_byte_zero_extends_witness:
  "\<exists>st'. exec_inst 0 0x00000503 (demo_cpu [0xff]) = Next st' \<and> sint (reg st' 10) = 255"
  using load_byte_zero_extends[where w = "0x00000503" and start_addr = 0 and st = "demo_cpu [0xff]"]
  by (auto simp: opcode_of_def func3_of_def rd_of_def rs1_of_def demo_cpu_def demo_memory_def
      byte_at_def cell_def page_number_def word_index_def byte_of_def)

end
