(* ===== verification/Assembly.thy ===== *)
theory Assembly
  imports CPrelude
begin

text \<open>
  The table of assembly text by address, \<open>A5/src/assembly.c\<close>: open addressing with linear
  probing over at most four slots, growing to \<open>1 + 2 * size\<close> until every entry fits. An address
  is an \<open>int\<close>, so \<open>addr % table_size\<close> is the truncating remainder, which is negative
  for a negative address: the read outside the array that follows is the error
  \<open>OutOfBounds\<close>. The size of the table is an \<open>int\<close> as well; growing it past
  \<open>INT_MAX\<close> is the error \<open>SizeOverflow\<close>. The text pointer of an entry is modelled by the
  string it points to (\<open>strdup\<close> copies it).
\<close>

record entry =
  valid :: bool
  addr :: i32
  entry_text :: string

record assembly =
  table_size :: nat
  lookup_table :: "entry list"

datatype asm_error = OutOfBounds | SizeOverflow

definition NOT_FOUND :: int where
  "NOT_FOUND = -1"

definition empty_entry :: entry where
  "empty_entry = \<lparr>valid = False, addr = 0, entry_text = []\<rparr>"

definition assembly_create :: assembly where
  "assembly_create = \<lparr>table_size = 4, lookup_table = replicate 4 empty_entry\<rparr>"

text \<open>The two probe loops differ in the test on the entry only.\<close>

fun probe :: "(entry \<Rightarrow> bool) \<Rightarrow> assembly \<Rightarrow> nat \<Rightarrow> int \<Rightarrow> asm_error + int" where
  "probe p as 0 idx = Inr NOT_FOUND"
| "probe p as (Suc offsets) idx =
     (if idx < 0 \<or> int (length (lookup_table as)) \<le> idx then Inl OutOfBounds
      else if p (lookup_table as ! nat idx) then Inr idx
      else let idx' = idx + 1
           in probe p as offsets (if idx' = int (table_size as) then 0 else idx'))"

definition assembly_find_entry :: "assembly \<Rightarrow> i32 \<Rightarrow> asm_error + int" where
  "assembly_find_entry as a =
     probe (\<lambda>e. valid e \<and> addr e = a) as 4 (c_rem (sint a) (int (table_size as)))"

definition assembly_find_empty :: "assembly \<Rightarrow> i32 \<Rightarrow> asm_error + int" where
  "assembly_find_empty as a =
     probe (\<lambda>e. \<not> valid e) as 4 (c_rem (sint a) (int (table_size as)))"

text \<open>One pass of the inner \<open>for\<close> of the rehash: \<open>None\<close> is the break on a collision.\<close>

fun rehash_into :: "assembly \<Rightarrow> entry list \<Rightarrow> asm_error + assembly option" where
  "rehash_into as [] = Inr (Some as)"
| "rehash_into as (e # es) =
     (if valid e then
        (case assembly_find_empty as (addr e) of
           Inl err \<Rightarrow> Inl err
         | Inr new_idx \<Rightarrow>
             if new_idx = NOT_FOUND then Inr None
             else rehash_into (as\<lparr>lookup_table := (lookup_table as)[nat new_idx := e]\<rparr>) es)
      else rehash_into as es)"

function rehash_loop :: "entry list \<Rightarrow> nat \<Rightarrow> asm_error + assembly" where
  "rehash_loop old_table new_size =
     (if INT_MAX < int new_size then Inl SizeOverflow
      else (case rehash_into \<lparr>table_size = new_size, lookup_table = replicate new_size empty_entry\<rparr> old_table of
              Inl err \<Rightarrow> Inl err
            | Inr (Some as') \<Rightarrow> Inr as'
            | Inr None \<Rightarrow> rehash_loop old_table (1 + new_size * 2)))"
  by pat_completeness auto
termination
  by (relation "measure (\<lambda>(old, n). nat (INT_MAX + 1 - int n))") auto

declare rehash_loop.simps [simp del]

definition assembly_grow_and_rehash :: "assembly \<Rightarrow> asm_error + assembly" where
  "assembly_grow_and_rehash as =
     rehash_loop (take (table_size as) (lookup_table as)) (1 + 2 * table_size as)"

lemma rehash_into_size:
  "rehash_into as es = Inr (Some as') \<Longrightarrow>
   table_size as' = table_size as \<and> length (lookup_table as') = length (lookup_table as)"
  by (induction as es rule: rehash_into.induct) (auto split: if_splits sum.splits)

lemma rehash_loop_size:
  "rehash_loop old n = Inr as' \<Longrightarrow>
   n \<le> table_size as' \<and> int (table_size as') \<le> INT_MAX \<and> length (lookup_table as') = table_size as'"
proof (induction old n rule: rehash_loop.induct)
  case (1 old n)
  show ?case using "1.prems" unfolding rehash_loop.simps[of old n]
    by (auto split: if_splits sum.splits option.splits dest!: rehash_into_size dest: "1.IH")
qed

lemma grow_size:
  "assembly_grow_and_rehash as = Inr as' \<Longrightarrow> table_size as < table_size as' \<and> int (table_size as') \<le> INT_MAX"
  by (auto simp: assembly_grow_and_rehash_def dest!: rehash_loop_size)

text \<open>The \<open>while (idx == NOT_FOUND)\<close> loop of \<open>assembly_set\<close>.\<close>

function find_slot :: "assembly \<Rightarrow> i32 \<Rightarrow> asm_error + assembly \<times> int" where
  "find_slot as a =
     (case assembly_find_empty as a of
        Inl err \<Rightarrow> Inl err
      | Inr idx \<Rightarrow>
          if idx = NOT_FOUND then
            (case assembly_grow_and_rehash as of
               Inl err \<Rightarrow> Inl err
             | Inr as' \<Rightarrow> find_slot as' a)
          else Inr (as, idx))"
  by pat_completeness auto
termination
  by (relation "measure (\<lambda>(as, a). nat (INT_MAX - int (table_size as)))") (auto dest!: grow_size)

declare find_slot.simps [simp del]

definition assembly_set :: "assembly \<Rightarrow> i32 \<Rightarrow> string \<Rightarrow> asm_error + assembly" where
  "assembly_set as a str =
     (let store = (\<lambda>(as, idx). as\<lparr>lookup_table := (lookup_table as)
            [nat idx := \<lparr>valid = True, addr = a, entry_text = str\<rparr>]\<rparr>)
      in case assembly_find_entry as a of
           Inl err \<Rightarrow> Inl err
         | Inr idx \<Rightarrow>
             if idx = NOT_FOUND then
               (case find_slot as a of Inl err \<Rightarrow> Inl err | Inr slot \<Rightarrow> Inr (store slot))
             else Inr (store (as, idx)))"

definition assembly_get :: "assembly \<Rightarrow> i32 \<Rightarrow> asm_error + string" where
  "assembly_get as a =
     (case assembly_find_entry as a of
        Inl err \<Rightarrow> Inl err
      | Inr idx \<Rightarrow> if idx = NOT_FOUND then Inr [] else Inr (entry_text (lookup_table as ! nat idx)))"

text \<open>\<open>assembly_delete\<close> frees the text of each valid entry: the result is the list of the
  indices whose text is freed, in order.\<close>

definition assembly_delete :: "assembly \<Rightarrow> nat list" where
  "assembly_delete as = filter (\<lambda>k. valid (lookup_table as ! k)) [0..<table_size as]"

subsection \<open>Well-formed tables and their map\<close>

text \<open>An entry sits within four slots of the home slot of its address, and no address occurs
  twice: then the probe of a lookup meets every entry it could be looking for, also in the presence
  of free slots (the loop does not stop at them, and entries are never removed).\<close>

definition addr_inj :: "entry list \<Rightarrow> bool" where
  "addr_inj es \<longleftrightarrow> (\<forall>i < length es. \<forall>j < length es.
     valid (es ! i) \<longrightarrow> valid (es ! j) \<longrightarrow> addr (es ! i) = addr (es ! j) \<longrightarrow> i = j)"

definition home :: "assembly \<Rightarrow> i32 \<Rightarrow> nat" where
  "home as a = nat (sint a) mod table_size as"

definition in_reach :: "assembly \<Rightarrow> i32 \<Rightarrow> nat \<Rightarrow> bool" where
  "in_reach as a i \<longleftrightarrow> (\<exists>j < 4. i = (home as a + j) mod table_size as)"

definition asm_shape :: "assembly \<Rightarrow> bool" where
  "asm_shape as \<longleftrightarrow> length (lookup_table as) = table_size as \<and> 4 \<le> table_size as \<and> int (table_size as) \<le> INT_MAX"

definition asm_wf :: "assembly \<Rightarrow> bool" where
  "asm_wf as \<longleftrightarrow> asm_shape as \<and> addr_inj (lookup_table as) \<and>
     (\<forall>i < table_size as. valid (lookup_table as ! i) \<longrightarrow>
        0 \<le> sint (addr (lookup_table as ! i)) \<and> in_reach as (addr (lookup_table as ! i)) i)"

definition entries :: "assembly \<Rightarrow> entry set" where
  "entries as = {e \<in> set (lookup_table as). valid e}"

definition asm_map :: "assembly \<Rightarrow> i32 \<Rightarrow> string option" where
  "asm_map as a = map_option entry_text (find (\<lambda>e. valid e \<and> addr e = a) (lookup_table as))"

lemma probe_cases:
  assumes len: "length (lookup_table as) = table_size as" and "idx < table_size as"
  shows "(\<exists>j < k. p (lookup_table as ! ((idx + j) mod table_size as)) \<and>
            probe p as k (int idx) = Inr (int ((idx + j) mod table_size as)))
       \<or> (probe p as k (int idx) = Inr NOT_FOUND \<and>
            (\<forall>j < k. \<not> p (lookup_table as ! ((idx + j) mod table_size as))))"
  using assms(2)
proof (induction k arbitrary: idx)
  case 0
  then show ?case by simp
next
  case (Suc k)
  let ?nx = "if Suc idx = table_size as then 0 else Suc idx"
  have nx: "?nx = Suc idx mod table_size as" using Suc.prems by simp
  have nl: "?nx < table_size as" using Suc.prems by auto
  have sh: "(?nx + j) mod table_size as = (idx + Suc j) mod table_size as" for j
    unfolding nx by (simp add: mod_add_left_eq)
  have st: "probe p as (Suc k) (int idx) =
     (if p (lookup_table as ! idx) then Inr (int idx) else probe p as k (int ?nx))"
    using Suc.prems len by (simp add: Let_def) (auto simp: algebra_simps)
  show ?case
  proof (cases "p (lookup_table as ! idx)")
    case True
    then show ?thesis using st Suc.prems by (intro disjI1 exI[of _ 0]) simp
  next
    case False
    from Suc.IH[OF nl] show ?thesis
    proof (elim disjE exE conjE)
      fix j assume "j < k" "p (lookup_table as ! ((?nx + j) mod table_size as))"
        "probe p as k (int ?nx) = Inr (int ((?nx + j) mod table_size as))"
      then show ?thesis using st False unfolding sh by (intro disjI1 exI[of _ "Suc j"]) simp
    next
      assume "probe p as k (int ?nx) = Inr NOT_FOUND"
        and n: "\<forall>j < k. \<not> p (lookup_table as ! ((?nx + j) mod table_size as))"
      moreover have "\<not> p (lookup_table as ! ((idx + j) mod table_size as))" if "j < Suc k" for j
        using that n False Suc.prems unfolding sh by (cases j) auto
      ultimately show ?thesis using st False by simp
    qed
  qed
qed

lemma hash_home:
  assumes "asm_shape as" "0 \<le> sint a"
  shows "c_rem (sint a) (int (table_size as)) = int (home as a)" "home as a < table_size as"
  using assms by (simp_all add: asm_shape_def home_def c_rem_nonneg zmod_int)


lemma find_entry_cases:
  assumes wf: "asm_wf as" and a: "0 \<le> sint a"
  obtains (hit) i where "i < table_size as" "valid (lookup_table as ! i)" "addr (lookup_table as ! i) = a"
      "assembly_find_entry as a = Inr (int i)"
    | (miss) "assembly_find_entry as a = Inr NOT_FOUND"
      "\<forall>i < table_size as. valid (lookup_table as ! i) \<longrightarrow> addr (lookup_table as ! i) \<noteq> a"
proof -
  have sh: "asm_shape as" using wf by (simp add: asm_wf_def)
  have len: "length (lookup_table as) = table_size as" and pos: "0 < table_size as"
    using sh by (auto simp: asm_shape_def)
  from probe_cases[OF len hash_home(2)[OF sh a], of 4 "\<lambda>e. valid e \<and> addr e = a"]
  show ?thesis
  proof (elim disjE exE conjE)
    fix j assume "valid (lookup_table as ! ((home as a + j) mod table_size as))"
      "addr (lookup_table as ! ((home as a + j) mod table_size as)) = a"
      "probe (\<lambda>e. valid e \<and> addr e = a) as 4 (int (home as a)) = Inr (int ((home as a + j) mod table_size as))"
    then show ?thesis using pos hash_home(1)[OF sh a]
      by (intro hit[of "(home as a + j) mod table_size as"]) (simp_all add: assembly_find_entry_def)
  next
    assume f: "probe (\<lambda>e. valid e \<and> addr e = a) as 4 (int (home as a)) = Inr NOT_FOUND"
      and n: "\<forall>j < 4. \<not> (valid (lookup_table as ! ((home as a + j) mod table_size as)) \<and>
                 addr (lookup_table as ! ((home as a + j) mod table_size as)) = a)"
    have "\<forall>i < table_size as. valid (lookup_table as ! i) \<longrightarrow> addr (lookup_table as ! i) \<noteq> a"
    proof (intro allI impI notI)
      fix i assume i: "i < table_size as" "valid (lookup_table as ! i)" "addr (lookup_table as ! i) = a"
      then have "in_reach as a i" using wf by (auto simp: asm_wf_def)
      then show False using n i by (auto simp: in_reach_def)
    qed
    then show ?thesis using f hash_home(1)[OF sh a] by (intro miss) (simp_all add: assembly_find_entry_def)
  qed
qed

lemma find_empty_cases:
  assumes sh: "asm_shape as" and a: "0 \<le> sint a"
  obtains (slot) i where "i < table_size as" "\<not> valid (lookup_table as ! i)" "in_reach as a i"
      "assembly_find_empty as a = Inr (int i)"
    | (full) "assembly_find_empty as a = Inr NOT_FOUND" "\<forall>i. in_reach as a i \<longrightarrow> valid (lookup_table as ! i)"
proof -
  have len: "length (lookup_table as) = table_size as" and pos: "0 < table_size as"
    using sh by (auto simp: asm_shape_def)
  from probe_cases[OF len hash_home(2)[OF sh a], of 4 "\<lambda>e. \<not> valid e"]
  show ?thesis
  proof (elim disjE exE conjE)
    fix j :: nat assume "j < 4" "\<not> valid (lookup_table as ! ((home as a + j) mod table_size as))"
      "probe (\<lambda>e. \<not> valid e) as 4 (int (home as a)) = Inr (int ((home as a + j) mod table_size as))"
    then show ?thesis using pos hash_home(1)[OF sh a]
      by (intro slot[of "(home as a + j) mod table_size as"]) (auto simp add: assembly_find_empty_def in_reach_def)
  next
    assume "probe (\<lambda>e. \<not> valid e) as 4 (int (home as a)) = Inr NOT_FOUND"
      "\<forall>j < 4. \<not> \<not> valid (lookup_table as ! ((home as a + j) mod table_size as))"
    then show ?thesis using hash_home(1)[OF sh a]
      by (intro full) (auto simp add: assembly_find_empty_def in_reach_def)
  qed
qed

definition put_entry :: "assembly \<Rightarrow> nat \<Rightarrow> entry \<Rightarrow> assembly" where
  "put_entry as i e = as\<lparr>lookup_table := (lookup_table as)[i := e]\<rparr>"

lemma put_entry_home [simp]: "home (put_entry as i e) = home as" "in_reach (put_entry as i e) = in_reach as"
    "table_size (put_entry as i e) = table_size as"
  by (auto simp: put_entry_def home_def in_reach_def fun_eq_iff)

lemma asm_wf_len: "asm_wf as \<Longrightarrow> length (lookup_table as) = table_size as"
  by (simp add: asm_wf_def asm_shape_def)

lemma put_entry_wf:
  assumes wf: "asm_wf as" and i: "i < table_size as"
    and e: "valid e" "0 \<le> sint (addr e)" "in_reach as (addr e) i"
    and other: "\<And>j. j < table_size as \<Longrightarrow> j \<noteq> i \<Longrightarrow> valid (lookup_table as ! j) \<Longrightarrow>
        addr (lookup_table as ! j) \<noteq> addr e"
  shows "asm_wf (put_entry as i e)"
proof -
  have "addr_inj ((lookup_table as)[i := e])"
    using wf i other unfolding addr_inj_def asm_wf_def asm_shape_def
    by (auto simp: nth_list_update) metis
  then show ?thesis using wf i e
    by (auto simp: asm_wf_def asm_shape_def nth_list_update) (auto simp: put_entry_def nth_list_update)
qed

lemma asm_map_entry:
  assumes "asm_wf as" "i < table_size as" "valid (lookup_table as ! i)"
  shows "asm_map as (addr (lookup_table as ! i)) = Some (entry_text (lookup_table as ! i))"
proof -
  let ?P = "\<lambda>e. valid e \<and> addr e = addr (lookup_table as ! i)"
  have "find ?P (lookup_table as) \<noteq> None"
    using assms asm_wf_len[OF assms(1)] by (auto simp: find_None_iff)
  then obtain e where f: "find ?P (lookup_table as) = Some e" by auto
  then obtain k where k: "k < table_size as" "?P (lookup_table as ! k)" "e = lookup_table as ! k"
    using asm_wf_len[OF assms(1)] by (auto simp: find_Some_iff)
  then have "k = i" using assms asm_wf_len[OF assms(1)] by (auto simp: asm_wf_def addr_inj_def)
  then show ?thesis using f k by (simp add: asm_map_def)
qed

lemma asm_map_None:
  "asm_wf as \<Longrightarrow> asm_map as a = None \<longleftrightarrow>
     (\<forall>i < table_size as. valid (lookup_table as ! i) \<longrightarrow> addr (lookup_table as ! i) \<noteq> a)"
  using asm_wf_len[of as] by (auto simp: asm_map_def find_None_iff in_set_conv_nth)

lemma asm_map_entries:
  assumes "asm_wf as"
  shows "asm_map as a = Some t \<longleftrightarrow> (\<exists>e \<in> entries as. addr e = a \<and> entry_text e = t)"
proof
  assume m: "asm_map as a = Some t"
  then obtain i where i: "i < table_size as" "valid (lookup_table as ! i)" "addr (lookup_table as ! i) = a"
    using asm_map_None[OF assms, of a] by (metis option.distinct(1))
  then have "entry_text (lookup_table as ! i) = t" using asm_map_entry[OF assms i(1,2)] m by simp
  then show "\<exists>e \<in> entries as. addr e = a \<and> entry_text e = t"
    using i asm_wf_len[OF assms] by (intro bexI[of _ "lookup_table as ! i"]) (simp_all add: entries_def)
next
  assume "\<exists>e \<in> entries as. addr e = a \<and> entry_text e = t"
  then obtain i where "i < table_size as" "valid (lookup_table as ! i)" "addr (lookup_table as ! i) = a"
      "entry_text (lookup_table as ! i) = t"
    using asm_wf_len[OF assms] by (auto simp: entries_def in_set_conv_nth)
  then show "asm_map as a = Some t" using asm_map_entry[OF assms] by auto
qed

lemma asm_map_cong: "asm_wf as \<Longrightarrow> asm_wf bs \<Longrightarrow> entries as = entries bs \<Longrightarrow> asm_map as = asm_map bs"
  by (rule ext, rule option.expand[rotated 1]) (metis asm_map_entries option.collapse option.distinct(1) option.sel option.exhaust)+

lemma entries_put_entry:
  assumes "i < length (lookup_table as)" "\<not> valid (lookup_table as ! i)" "valid e"
  shows "entries (put_entry as i e) = insert e (entries as)"
  using assms set_update_subset_insert[of "lookup_table as" i e] set_update_memI[OF assms(1), of e]
  by (auto simp: entries_def put_entry_def in_set_conv_nth nth_list_update)

text \<open>Storing in a free or matching slot is an update of the map.\<close>

lemma asm_map_put_entry:
  assumes wf: "asm_wf as" "asm_wf (put_entry as i e)" and i: "i < table_size as" and e: "valid e"
    and slot: "\<not> valid (lookup_table as ! i) \<or> addr (lookup_table as ! i) = addr e"
  shows "asm_map (put_entry as i e) = (asm_map as)(addr e := Some (entry_text e))"
proof
  fix a
  have nth: "lookup_table (put_entry as i e) ! k = (if k = i then e else lookup_table as ! k)" if "k < table_size as" for k
    using that i asm_wf_len[OF wf(1)] by (simp add: put_entry_def nth_list_update)
  show "asm_map (put_entry as i e) a = ((asm_map as)(addr e := Some (entry_text e))) a"
  proof (cases "a = addr e")
    case True
    then show ?thesis using asm_map_entry[OF wf(2), of i] nth[OF i] i e by simp
  next
    case False
    show ?thesis
    proof (cases "asm_map as a")
      case None
      then show ?thesis using False asm_map_None[OF wf(1), of a] asm_map_None[OF wf(2), of a] nth by auto
    next
      case (Some t)
      then obtain k where k: "k < table_size as" "valid (lookup_table as ! k)" "addr (lookup_table as ! k) = a"
        using asm_map_None[OF wf(1), of a] by auto
      then have "k \<noteq> i" using slot False by auto
      then show ?thesis using asm_map_entry[OF wf(1) k(1,2)] asm_map_entry[OF wf(2), of k] nth[OF k(1)] k False by simp
    qed
  qed
qed


lemma addr_inj_Cons:
  "addr_inj (x # xs) \<longleftrightarrow> addr_inj xs \<and> (valid x \<longrightarrow> (\<forall>y \<in> set xs. valid y \<longrightarrow> addr y \<noteq> addr x))"
  (is "?l \<longleftrightarrow> ?r")
proof
  assume l: ?l
  have "addr_inj xs" unfolding addr_inj_def
  proof (intro allI impI)
    fix i j assume "i < length xs" "j < length xs" "valid (xs ! i)" "valid (xs ! j)" "addr (xs ! i) = addr (xs ! j)"
    then show "i = j" using l[unfolded addr_inj_def, rule_format, of "Suc i" "Suc j"] by simp
  qed
  moreover have "addr (xs ! j) \<noteq> addr x" if "valid x" "j < length xs" "valid (xs ! j)" for j
    using that l[unfolded addr_inj_def, rule_format, of 0 "Suc j"] by auto
  ultimately show ?r by (auto simp: in_set_conv_nth)
next
  assume r: ?r
  show ?l unfolding addr_inj_def
  proof (intro allI impI)
    fix i j assume "i < length (x # xs)" "j < length (x # xs)" "valid ((x # xs) ! i)" "valid ((x # xs) ! j)"
      "addr ((x # xs) ! i) = addr ((x # xs) ! j)"
    then show "i = j" using r nth_mem[of "i - 1" xs] nth_mem[of "j - 1" xs]
      by (cases i; cases j) (auto simp add: addr_inj_def)
  qed
qed

lemma entries_addr:
  "asm_wf as \<Longrightarrow> j < table_size as \<Longrightarrow> valid (lookup_table as ! j) \<Longrightarrow>
   addr (lookup_table as ! j) \<in> addr ` entries as"
  using asm_wf_len[of as] by (auto simp: entries_def)

lemma fresh_table_wf:
  "4 \<le> n \<Longrightarrow> int n \<le> INT_MAX \<Longrightarrow> asm_wf \<lparr>table_size = n, lookup_table = replicate n empty_entry\<rparr>"
  by (simp add: asm_wf_def asm_shape_def addr_inj_def empty_entry_def)

lemma entries_fresh: "entries \<lparr>table_size = n, lookup_table = replicate n empty_entry\<rparr> = {}"
  by (auto simp: entries_def empty_entry_def)

lemma rehash_into_spec:
  assumes "asm_wf as" "addr_inj es"
    "\<forall>e \<in> set es. valid e \<longrightarrow> 0 \<le> sint (addr e) \<and> addr e \<notin> addr ` entries as"
  shows "(\<exists>r. rehash_into as es = Inr r) \<and>
     (\<forall>as'. rehash_into as es = Inr (Some as') \<longrightarrow>
        asm_wf as' \<and> entries as' = entries as \<union> {e \<in> set es. valid e})"
  using assms
proof (induction as es rule: rehash_into.induct)
  case (1 as)
  then show ?case by simp
next
  case (2 as e es)
  have inj: "addr_inj es" and hd: "valid e \<Longrightarrow> \<forall>f \<in> set es. valid f \<longrightarrow> addr f \<noteq> addr e"
    using "2.prems"(2) by (auto simp: addr_inj_Cons)
  show ?case
  proof (cases "valid e")
    case False
    then show ?thesis using "2.IH"(2)[OF False "2.prems"(1) inj] "2.prems"(3) by auto
  next
    case True
    have e: "0 \<le> sint (addr e)" "addr e \<notin> addr ` entries as" using True "2.prems"(3) by auto
    have sh: "asm_shape as" using "2.prems"(1) by (simp add: asm_wf_def)
    show ?thesis using sh e(1)
    proof (cases rule: find_empty_cases)
      case full
      then show ?thesis using True by simp
    next
      case (slot i)
      let ?as = "put_entry as i e"
      have len: "i < length (lookup_table as)" using slot(1) asm_wf_len[OF "2.prems"(1)] by simp
      have wf: "asm_wf ?as"
        by (rule put_entry_wf[OF "2.prems"(1) slot(1) True e(1) slot(3)])
           (metis entries_addr "2.prems"(1) e(2))
      have ent: "entries ?as = insert e (entries as)"
        using entries_put_entry[OF len slot(2) True] .
      have found: "int i \<noteq> NOT_FOUND" by (simp add: NOT_FOUND_def)
      note IH = "2.IH"(1)[OF True slot(4) found, unfolded nat_int, folded put_entry_def]
      have "\<forall>f \<in> set es. valid f \<longrightarrow> 0 \<le> sint (addr f) \<and> addr f \<notin> addr ` entries ?as"
        using "2.prems"(3) hd[OF True] unfolding ent image_insert by simp
      note IH[OF wf inj this]
      moreover have "rehash_into as (e # es) = rehash_into ?as es"
        using True slot by (simp add: NOT_FOUND_def put_entry_def)
      moreover have "entries ?as \<union> {f \<in> set es. valid f} = entries as \<union> {f \<in> set (e # es). valid f}"
        using ent True by auto
      ultimately show ?thesis by (simp only:) blast
    qed
  qed
qed

lemma rehash_loop_spec:
  assumes "4 \<le> n" "addr_inj old" "\<forall>e \<in> set old. valid e \<longrightarrow> 0 \<le> sint (addr e)"
  shows "rehash_loop old n \<noteq> Inl OutOfBounds \<and>
     (\<forall>as'. rehash_loop old n = Inr as' \<longrightarrow> asm_wf as' \<and> entries as' = {e \<in> set old. valid e})"
  using assms
proof (induction old n rule: rehash_loop.induct)
  case (1 old n)
  show ?case
  proof (cases "INT_MAX < int n")
    case True
    then show ?thesis by (simp add: rehash_loop.simps[of old n])
  next
    case False
    let ?f = "\<lparr>table_size = n, lookup_table = replicate n empty_entry\<rparr>"
    have spec: "(\<exists>r. rehash_into ?f old = Inr r) \<and> (\<forall>as'. rehash_into ?f old = Inr (Some as') \<longrightarrow>
        asm_wf as' \<and> entries as' = {e \<in> set old. valid e})"
      using rehash_into_spec[of ?f old] fresh_table_wf[of n] False "1.prems" by (simp add: entries_fresh)
    then obtain r where r: "rehash_into ?f old = Inr r" by auto
    show ?thesis
    proof (cases r)
      case None
      then show ?thesis using "1.IH"[OF False r None] "1.prems" r False by (simp add: rehash_loop.simps[of old n])
    next
      case (Some as')
      then show ?thesis using r spec False by (simp add: rehash_loop.simps[of old n])
    qed
  qed
qed

lemma grow_spec:
  assumes "asm_wf as"
  shows "assembly_grow_and_rehash as \<noteq> Inl OutOfBounds"
    and "assembly_grow_and_rehash as = Inr as' \<Longrightarrow> asm_wf as' \<and> entries as' = entries as"
proof -
  have "4 \<le> 1 + 2 * table_size as" "take (table_size as) (lookup_table as) = lookup_table as"
    using assms by (auto simp: asm_wf_def asm_shape_def)
  moreover have "\<forall>e \<in> set (lookup_table as). valid e \<longrightarrow> 0 \<le> sint (addr e)"
    using assms asm_wf_len[OF assms] by (auto simp: asm_wf_def in_set_conv_nth)
  ultimately show "assembly_grow_and_rehash as \<noteq> Inl OutOfBounds"
    "assembly_grow_and_rehash as = Inr as' \<Longrightarrow> asm_wf as' \<and> entries as' = entries as"
    using rehash_loop_spec[of "1 + 2 * table_size as" "lookup_table as"] assms
    by (auto simp: assembly_grow_and_rehash_def asm_wf_def entries_def)
qed

lemma find_slot_spec:
  assumes "asm_wf as" "0 \<le> sint a"
  shows "find_slot as a \<noteq> Inl OutOfBounds \<and>
    (\<forall>as' idx. find_slot as a = Inr (as', idx) \<longrightarrow> asm_wf as' \<and> entries as' = entries as \<and>
       (\<exists>i < table_size as'. idx = int i \<and> \<not> valid (lookup_table as' ! i) \<and> in_reach as' a i))"
  using assms
proof (induction as a rule: find_slot.induct)
  case (1 as a)
  have sh: "asm_shape as" using "1.prems" by (simp add: asm_wf_def)
  show ?case using sh "1.prems"(2)
  proof (cases rule: find_empty_cases)
    case (slot i)
    then show ?thesis using "1.prems" by (auto simp: find_slot.simps[of as a] NOT_FOUND_def)
  next
    case full
    show ?thesis
    proof (cases "assembly_grow_and_rehash as")
      case (Inl e)
      then show ?thesis using full grow_spec(1)[OF "1.prems"(1)] by (simp add: find_slot.simps[of as a])
    next
      case (Inr as')
      then show ?thesis using "1.IH"[OF full(1) refl Inr] grow_spec(2)[OF "1.prems"(1) Inr] "1.prems"(2) full
        by (simp add: find_slot.simps[of as a])
    qed
  qed
qed

theorem assembly_set_correct:
  assumes wf: "asm_wf as" and a: "0 \<le> sint a"
  shows "assembly_set as a str \<noteq> Inl OutOfBounds \<and>
     (\<forall>as'. assembly_set as a str = Inr as' \<longrightarrow> asm_wf as' \<and> asm_map as' = (asm_map as)(a := Some str))"
  using wf a
proof (cases rule: find_entry_cases)
  case (hit i)
  let ?e = "\<lparr>valid = True, addr = a, entry_text = str\<rparr>"
  have "assembly_set as a str = Inr (put_entry as i ?e)"
    using hit by (simp add: assembly_set_def NOT_FOUND_def put_entry_def)
  moreover have "asm_wf (put_entry as i ?e)"
    using wf a hit asm_wf_len[OF wf] by (intro put_entry_wf) (auto simp: asm_wf_def addr_inj_def)
  ultimately show ?thesis using asm_map_put_entry[OF wf _ hit(1), of ?e] hit by simp
next
  case miss
  let ?e = "\<lparr>valid = True, addr = a, entry_text = str\<rparr>"
  show ?thesis
  proof (cases "find_slot as a")
    case (Inl e)
    then show ?thesis using miss find_slot_spec[OF wf a] by (simp add: assembly_set_def)
  next
    case (Inr r)
    then obtain bs i where r: "r = (bs, int i)" and bs: "asm_wf bs" "entries bs = entries as"
        "i < table_size bs" "\<not> valid (lookup_table bs ! i)" "in_reach bs a i"
      using find_slot_spec[OF wf a] by (cases r) auto
    have "assembly_set as a str = Inr (put_entry bs i ?e)"
      using miss Inr r by (simp add: assembly_set_def put_entry_def)
    moreover have "a \<notin> addr ` entries as"
      using miss(2) asm_wf_len[OF wf] by (auto simp: entries_def in_set_conv_nth)
    then have "asm_wf (put_entry bs i ?e)"
      using bs a by (intro put_entry_wf) (simp_all, metis entries_addr bs(1,2))
    moreover have "asm_map bs = asm_map as" using asm_map_cong[OF bs(1) wf bs(2)] .
    ultimately show ?thesis using asm_map_put_entry[OF bs(1) _ bs(3), of ?e] bs by simp
  qed
qed

theorem assembly_get_correct:
  assumes wf: "asm_wf as" and a: "0 \<le> sint a"
  shows "assembly_get as a = Inr (case asm_map as a of None \<Rightarrow> [] | Some s \<Rightarrow> s)"
  using wf a
proof (cases rule: find_entry_cases)
  case (hit i)
  then show ?thesis using asm_map_entry[OF wf hit(1,2)] by (simp add: assembly_get_def NOT_FOUND_def)
next
  case miss
  then show ?thesis using asm_map_None[OF wf, of a] by (simp add: assembly_get_def)
qed

subsection \<open>Growing stays within bounds\<close>

definition at_home :: "assembly \<Rightarrow> bool" where
  "at_home as \<longleftrightarrow> (\<forall>i < table_size as. valid (lookup_table as ! i) \<longrightarrow> sint (addr (lookup_table as ! i)) = int i)"

definition roomy :: "nat \<Rightarrow> assembly \<Rightarrow> bool" where
  "roomy M as \<longleftrightarrow> asm_wf as \<and> (\<forall>e \<in> entries as. sint (addr e) < int M) \<and>
     table_size as \<le> max 4 (2 * M) \<and> (M \<le> table_size as \<longrightarrow> at_home as)"

lemma find_empty_home:
  assumes wf: "asm_wf as" "at_home as" and a: "0 \<le> sint a" "sint a < int (table_size as)" "a \<notin> addr ` entries as"
  shows "assembly_find_empty as a = Inr (sint a)" "\<not> valid (lookup_table as ! nat (sint a))"
    "in_reach as a (nat (sint a))"
proof -
  have sh: "asm_shape as" using wf(1) by (simp add: asm_wf_def)
  have h: "home as a = nat (sint a)" using a by (simp add: home_def)
  show nv: "\<not> valid (lookup_table as ! nat (sint a))"
  proof
    assume v: "valid (lookup_table as ! nat (sint a))"
    have lt: "nat (sint a) < table_size as" using a by simp
    have "sint (addr (lookup_table as ! nat (sint a))) = sint a" using wf(2) v lt a(1) by (simp add: at_home_def)
    then have "addr (lookup_table as ! nat (sint a)) = a" by (rule signed_word_eqI)
    then show False using entries_addr[OF wf(1) lt v] a(3) by simp
  qed
  show "in_reach as a (nat (sint a))" using a h by (auto simp: in_reach_def intro!: exI[of _ 0])
  show "assembly_find_empty as a = Inr (sint a)"
    using nv hash_home[OF sh a(1)] h a asm_wf_len[OF wf(1)]
    by (simp add: assembly_find_empty_def numeral_eq_Suc)
qed

lemma put_entry_home_slot:
  assumes "asm_wf as" "at_home as" "0 \<le> sint (addr e)" "sint (addr e) < int (table_size as)"
  shows "at_home (put_entry as (nat (sint (addr e))) e)"
  using assms asm_wf_len[OF assms(1)] by (auto simp: at_home_def put_entry_def nth_list_update)

lemma rehash_into_home:
  assumes "asm_wf as" "at_home as" "addr_inj es"
    "\<forall>e \<in> set es. valid e \<longrightarrow> 0 \<le> sint (addr e) \<and> sint (addr e) < int (table_size as) \<and> addr e \<notin> addr ` entries as"
  shows "\<exists>as'. rehash_into as es = Inr (Some as') \<and> at_home as'"
  using assms
proof (induction es arbitrary: as)
  case Nil
  then show ?case by simp
next
  case (Cons e es)
  have inj: "addr_inj es" and hd: "valid e \<Longrightarrow> \<forall>f \<in> set es. valid f \<longrightarrow> addr f \<noteq> addr e"
    using Cons.prems(3) by (auto simp: addr_inj_Cons)
  show ?case
  proof (cases "valid e")
    case False
    then show ?thesis using Cons.IH[OF Cons.prems(1,2) inj] Cons.prems(4) by auto
  next
    case True
    then have e: "0 \<le> sint (addr e)" "sint (addr e) < int (table_size as)" "addr e \<notin> addr ` entries as"
      using Cons.prems(4) by auto
    let ?as = "put_entry as (nat (sint (addr e))) e"
    note fe = find_empty_home[OF Cons.prems(1,2) e]
    have lt: "nat (sint (addr e)) < table_size as" using e by simp
    have wf: "asm_wf ?as"
      by (rule put_entry_wf[OF Cons.prems(1) lt True e(1) fe(3)]) (metis entries_addr Cons.prems(1) e(3))
    have ent: "entries ?as = insert e (entries as)"
      using entries_put_entry[OF _ fe(2) True] lt asm_wf_len[OF Cons.prems(1)] by simp
    have "\<forall>f \<in> set es. valid f \<longrightarrow> 0 \<le> sint (addr f) \<and> sint (addr f) < int (table_size ?as) \<and> addr f \<notin> addr ` entries ?as"
      using Cons.prems(4) hd[OF True] unfolding ent by simp
    from Cons.IH[OF wf put_entry_home_slot[OF Cons.prems(1,2) e(1,2)] inj this]
    show ?thesis using True fe(1) e(1) by (simp add: NOT_FOUND_def put_entry_def)
  qed
qed

lemma rehash_loop_ok:
  assumes "4 \<le> n" "n \<le> max 4 (2 * M)" "int (max 4 (2 * M)) \<le> INT_MAX" "addr_inj old"
    "\<forall>e \<in> set old. valid e \<longrightarrow> 0 \<le> sint (addr e) \<and> sint (addr e) < int M"
  shows "\<exists>as'. rehash_loop old n = Inr as' \<and> table_size as' \<le> max 4 (2 * M) \<and> (M \<le> table_size as' \<longrightarrow> at_home as')"
  using assms
proof (induction old n rule: rehash_loop.induct)
  case (1 old n)
  let ?f = "\<lparr>table_size = n, lookup_table = replicate n empty_entry\<rparr>"
  have n: "\<not> INT_MAX < int n" using "1.prems" by linarith
  have wf: "asm_wf ?f" using fresh_table_wf[of n] "1.prems"(1) n by simp
  have spec: "\<exists>r. rehash_into ?f old = Inr r"
    using rehash_into_spec[of ?f old] wf "1.prems" by (simp add: entries_fresh)
  show ?case
  proof (cases "M \<le> n")
    case True
    have "at_home ?f" by (simp add: at_home_def empty_entry_def)
    then obtain as' where "rehash_into ?f old = Inr (Some as')" "at_home as'"
      using rehash_into_home[of ?f old] wf "1.prems"(4,5) True by (fastforce simp: entries_fresh)
    then show ?thesis using n "1.prems"(2) by (auto simp: rehash_loop.simps[of old n] dest!: rehash_into_size)
  next
    case False
    obtain r where r: "rehash_into ?f old = Inr r" using spec by auto
    show ?thesis
    proof (cases r)
      case None
      have "4 \<le> 1 + n * 2" "1 + n * 2 \<le> max 4 (2 * M)" using False "1.prems"(1) by auto
      then show ?thesis using "1.IH"[OF n r None] "1.prems"(3,4,5) r None n by (simp add: rehash_loop.simps[of old n])
    next
      case (Some as')
      then show ?thesis using r n False "1.prems"(2)
        by (auto simp: rehash_loop.simps[of old n] dest!: rehash_into_size)
    qed
  qed
qed

lemma grow_roomy:
  assumes r: "roomy M as" and M: "table_size as < M" "int (2 * M) \<le> INT_MAX"
  shows "\<exists>as'. assembly_grow_and_rehash as = Inr as' \<and> roomy M as' \<and> entries as' = entries as"
proof -
  have wf: "asm_wf as" and sz: "4 \<le> table_size as" using r by (auto simp: roomy_def asm_wf_def asm_shape_def)
  have ad: "\<forall>e \<in> set (lookup_table as). valid e \<longrightarrow> 0 \<le> sint (addr e) \<and> sint (addr e) < int M"
    using r wf asm_wf_len[OF wf] by (auto simp: roomy_def entries_def asm_wf_def in_set_conv_nth)
  have "take (table_size as) (lookup_table as) = lookup_table as" using asm_wf_len[OF wf] by simp
  then obtain as' where g: "assembly_grow_and_rehash as = Inr as'" "table_size as' \<le> max 4 (2 * M)"
      "M \<le> table_size as' \<longrightarrow> at_home as'"
    using rehash_loop_ok[of "1 + 2 * table_size as" M "lookup_table as"] sz M wf ad
    by (auto simp: assembly_grow_and_rehash_def asm_wf_def)
  then show ?thesis using grow_spec(2)[OF wf g(1)] r by (auto simp: roomy_def)
qed

lemma find_slot_roomy:
  assumes "roomy M as" "0 \<le> sint a" "sint a < int M" "a \<notin> addr ` entries as" "int (2 * M) \<le> INT_MAX"
  shows "\<exists>as' i. find_slot as a = Inr (as', int i) \<and> roomy M as' \<and> entries as' = entries as \<and> i < table_size as' \<and>
     \<not> valid (lookup_table as' ! i) \<and> in_reach as' a i \<and> (M \<le> table_size as' \<longrightarrow> i = nat (sint a))"
  using assms
proof (induction as a rule: find_slot.induct)
  case (1 as a)
  have wf: "asm_wf as" and sh: "asm_shape as" using "1.prems"(1) by (auto simp: roomy_def asm_wf_def)
  have home: "assembly_find_empty as a = Inr (sint a)" if "M \<le> table_size as"
    using find_empty_home(1)[OF wf _ "1.prems"(2)] that "1.prems" by (auto simp: roomy_def)
  show ?case using sh "1.prems"(2)
  proof (cases rule: find_empty_cases)
    case (slot i)
    then have "find_slot as a = Inr (as, int i)" by (simp add: find_slot.simps[of as a] NOT_FOUND_def)
    then show ?thesis using slot "1.prems"(1) home by auto
  next
    case full
    then have "\<not> M \<le> table_size as" using home "1.prems"(2) by (auto simp: NOT_FOUND_def)
    then have "table_size as < M" by simp
    then obtain as' where g: "assembly_grow_and_rehash as = Inr as'" "roomy M as'" "entries as' = entries as"
      using grow_roomy[OF "1.prems"(1)] "1.prems"(5) by auto
    then show ?thesis using "1.IH"[OF full(1) refl g(1) g(2) "1.prems"(2,3) _ "1.prems"(5)] "1.prems"(4) full
      by (simp add: find_slot.simps[of as a])
  qed
qed

lemma assembly_set_roomy:
  assumes r: "roomy M as" and a: "0 \<le> sint a" "sint a < int M" and M: "int (2 * M) \<le> INT_MAX"
  shows "\<exists>as'. assembly_set as a str = Inr as' \<and> roomy M as'"
proof -
  have wf: "asm_wf as" using r by (simp add: roomy_def)
  let ?e = "\<lparr>valid = True, addr = a, entry_text = str\<rparr>"
  have ent: "\<forall>e \<in> entries (put_entry bs i ?e). sint (addr e) < int M" if "\<forall>e \<in> entries bs. sint (addr e) < int M" for bs i
    using that a(2) set_update_subset_insert[of "lookup_table bs" i ?e] by (auto simp: entries_def put_entry_def)
  show ?thesis using wf a(1)
  proof (cases rule: find_entry_cases)
    case (hit i)
    then have s: "assembly_set as a str = Inr (put_entry as i ?e)"
      by (simp add: assembly_set_def NOT_FOUND_def put_entry_def)
    moreover have "asm_wf (put_entry as i ?e)" using assembly_set_correct[OF wf a(1), of str] s by simp
    moreover have "at_home as \<Longrightarrow> at_home (put_entry as i ?e)"
      using hit asm_wf_len[OF wf] by (auto simp: at_home_def put_entry_def nth_list_update)
    ultimately show ?thesis using r ent by (auto simp: roomy_def)
  next
    case miss
    have "a \<notin> addr ` entries as" using miss(2) asm_wf_len[OF wf] by (auto simp: entries_def in_set_conv_nth)
    then obtain bs i where b: "find_slot as a = Inr (bs, int i)" "roomy M bs" "i < table_size bs"
        "M \<le> table_size bs \<longrightarrow> i = nat (sint a)"
      using find_slot_roomy[OF r a _ M] by blast
    then have s: "assembly_set as a str = Inr (put_entry bs i ?e)"
      using miss by (simp add: assembly_set_def put_entry_def)
    moreover have "asm_wf (put_entry bs i ?e)" using assembly_set_correct[OF wf a(1), of str] s by simp
    moreover have "at_home (put_entry bs i ?e)" if "M \<le> table_size bs"
      using put_entry_home_slot[of bs ?e] b that a by (auto simp: roomy_def)
    ultimately show ?thesis using b(2) ent by (auto simp: roomy_def)
  qed
qed

lemma create_roomy: "roomy M assembly_create"
  using fresh_table_wf[of 4] entries_fresh[of 4]
  by (simp add: roomy_def assembly_create_def INT_MAX_def at_home_def empty_entry_def)

lemma create_map: "asm_map assembly_create = (\<lambda>_. None)"
  by (auto simp: assembly_create_def empty_entry_def asm_map_def find_None_iff)

subsection \<open>The interface the loader relies on\<close>

text \<open>\<open>set_all\<close> is the sequence of \<open>assembly_set\<close> calls the loader makes, one per
  disassembled line.\<close>

fun set_all :: "('t \<Rightarrow> 'k \<Rightarrow> 's \<Rightarrow> 'e + 't) \<Rightarrow> 't \<Rightarrow> ('k \<times> 's) list \<Rightarrow> 'e + 't" where
  "set_all st t [] = Inr t"
| "set_all st t ((a, s) # rest) = (case st t a s of Inl e \<Rightarrow> Inl e | Inr t1 \<Rightarrow> set_all st t1 rest)"

locale text_table =
  fixes create :: 't
    and set_text :: "'t \<Rightarrow> 'k \<Rightarrow> 's \<Rightarrow> 'e + 't"
    and get_text :: "'t \<Rightarrow> 'k \<Rightarrow> 'e + 's"
    and no_text :: 's
    and key_ok :: "'k \<Rightarrow> bool"
    and inv :: "'t \<Rightarrow> bool"
    and lookup :: "'t \<Rightarrow> 'k \<Rightarrow> 's option"
  assumes create_law: "inv create \<and> lookup create = (\<lambda>_. None)"
    and set_law: "inv t \<Longrightarrow> key_ok a \<Longrightarrow>
      \<exists>t'. set_text t a s = Inr t' \<and> inv t' \<and> lookup t' = (lookup t)(a := Some s)"
    and get_law: "inv t \<Longrightarrow> key_ok a \<Longrightarrow>
      get_text t a = Inr (case lookup t a of None \<Rightarrow> no_text | Some s \<Rightarrow> s)"
begin

lemma set_all_law:
  assumes "inv t" "\<forall>(a, s) \<in> set kvs. key_ok a"
  shows "\<exists>t'. set_all set_text t kvs = Inr t' \<and> inv t' \<and> lookup t' = lookup t ++ map_of (rev kvs)"
  using assms
proof (induction kvs arbitrary: t)
  case Nil
  then show ?case by simp
next
  case (Cons kv kvs)
  obtain a s where kv: "kv = (a, s)" by (cases kv)
  obtain t1 where t1: "set_text t a s = Inr t1" "inv t1" "lookup t1 = (lookup t)(a := Some s)"
    using set_law[of t a s] Cons.prems kv by auto
  obtain t' where t': "set_all set_text t1 kvs = Inr t'" "inv t'" "lookup t' = lookup t1 ++ map_of (rev kvs)"
    using Cons.IH[OF t1(2)] Cons.prems(2) by auto
  then show ?case using t1 kv by (auto simp: map_add_def fun_eq_iff split: option.splits)
qed

lemma get_after_set_all:
  assumes "\<forall>(a, s) \<in> set kvs. key_ok a" "key_ok a"
  shows "\<exists>t. set_all set_text create kvs = Inr t \<and>
     get_text t a = Inr (case map_of (rev kvs) a of None \<Rightarrow> no_text | Some s \<Rightarrow> s)"
  using set_all_law[OF _ assms(1), of create] create_law get_law assms(2)
  by (auto split: option.splits)

end

definition addr_ok :: "i32 \<Rightarrow> bool" where
  "addr_ok a \<longleftrightarrow> 0 \<le> sint a \<and> sint a < 2 ^ 29"

interpretation asm: text_table assembly_create assembly_set assembly_get "[]" addr_ok
    "roomy (2 ^ 29)" asm_map
proof unfold_locales
  show "roomy (2 ^ 29) assembly_create \<and> asm_map assembly_create = (\<lambda>_. None)"
    by (simp add: create_roomy create_map)
next
  fix t a s assume "roomy (2 ^ 29) t" "addr_ok a"
  then show "\<exists>t'. assembly_set t a s = Inr t' \<and> roomy (2 ^ 29) t' \<and> asm_map t' = (asm_map t)(a := Some s)"
    using assembly_set_roomy[of "2 ^ 29" t a s] assembly_set_correct[of t a s]
    by (auto simp: addr_ok_def INT_MAX_def roomy_def)
next
  fix t a assume "roomy (2 ^ 29) t" "addr_ok a"
  then show "assembly_get t a = Inr (case asm_map t a of None \<Rightarrow> [] | Some s \<Rightarrow> s)"
    using assembly_get_correct[of t a] by (simp add: roomy_def addr_ok_def)
qed

subsection \<open>Properties\<close>

text \<open>C13: after any sequence of \<open>assembly_set\<close> calls on a new table, at addresses
  that are not negative and below \<open>2 ^ 29\<close> (a negative one indexes before the table, see
  \<open>assembly_get_negative_address\<close>), none of which can fail (no read outside the table, no overflow of its size, and the
  growing loops end), \<open>assembly_get\<close> returns the text last set for the address, and the empty
  string for an address that was never set.\<close>

theorem assembly_get_returns_last_set:
  assumes "\<forall>(k, s) \<in> set kvs. addr_ok k" and "addr_ok a"
  shows "\<exists>t. set_all assembly_set assembly_create kvs = Inr t \<and>
     assembly_get t a = Inr (case map_of (rev kvs) a of None \<Rightarrow> [] | Some s \<Rightarrow> s)"
  using assms by (rule asm.get_after_set_all)

text \<open>Five addresses with the same home slot in the initial table of four: the table grows.\<close>

theorem assembly_get_returns_last_set_witness:
  "\<exists>t. set_all assembly_set assembly_create
      [(0, ''a''), (4, ''b''), (8, ''c''), (12, ''d''), (16, ''e''), (8, ''f'')] = Inr t \<and>
     assembly_get t 8 = Inr ''f''"
  using assembly_get_returns_last_set
    [of "[(0, ''a''), (4, ''b''), (8, ''c''), (12, ''d''), (16, ''e''), (8, ''f'')]" 8]
  by (simp add: addr_ok_def)

text \<open>\<open>assembly_set\<close> keeps the table well formed and changes the abstract map at the one
  address it names, through any number of rehashes; it never reads outside the table.\<close>

theorem assembly_set_updates_map:
  assumes "asm_wf as" and "0 \<le> sint a"
  shows "assembly_set as a str \<noteq> Inl OutOfBounds \<and>
     (\<forall>as'. assembly_set as a str = Inr as' \<longrightarrow> asm_wf as' \<and> asm_map as' = (asm_map as)(a := Some str))"
  using assms by (rule assembly_set_correct)

theorem assembly_set_updates_map_witness:
  "assembly_set assembly_create 4 ''x'' \<noteq> Inl OutOfBounds"
  using assembly_set_updates_map[of assembly_create 4 "''x''"] create_roomy[of 0]
  by (simp add: roomy_def)

text \<open>Looking up an address with a negative remainder reads outside the table: the table
  is only safe for addresses whose \<open>int\<close> value is not negative.\<close>

theorem assembly_get_negative_address:
  assumes "c_rem (sint a) (int (table_size as)) < 0"
  shows "assembly_get as a = Inl OutOfBounds"
  using assms by (simp add: assembly_get_def assembly_find_entry_def numeral_eq_Suc)

theorem assembly_get_negative_address_witness:
  "assembly_get assembly_create (-1) = Inl OutOfBounds"
  by (rule assembly_get_negative_address) (simp add: assembly_create_def c_rem_def)

end
