(* ===== verification/ReadExec.thy ===== *)
theory ReadExec
  imports Memory Assembly "HOL-Library.Char_ord"
begin

text \<open>
  The loader \<open>A5/src/read_exec.c\<close>: it reads a disassembly listing line by line, stores
  instruction words and data bytes into the simulated memory, the text of the instructions into
  the table of \<open>Assembly\<close>, and finds the start address. Of the C library it uses
  \<open>fgets\<close> and the conversions \<open>%x\<close> and \<open>%s\<close> of \<open>sscanf\<close>, which come first. The
  file is its list of characters. The static array \<open>hexes[4][9]\<close> is one run of 36
  characters: a token that is too long for its row goes on into the next rows, and a token that
  runs past the last row is \<open>HexesOverflow\<close>, a write outside the array.
\<close>

datatype load_error =
    MemFault mem_fault
  | AsmFault asm_error
  | HexesOverflow
  | EmptyLine
  | NoStartSymbol

subsection \<open>The library functions the loader calls\<close>

definition is_space :: "char \<Rightarrow> bool" where
  "is_space c \<longleftrightarrow> c \<in> {CHR '' '', CHR 0x09, CHR 0x0A, CHR 0x0B, CHR 0x0C, CHR 0x0D}"

definition skip_space :: "string \<Rightarrow> string" where
  "skip_space s = dropWhile is_space s"

definition is_xdigit :: "char \<Rightarrow> bool" where
  "is_xdigit c \<longleftrightarrow> c \<in> set ''0123456789abcdefABCDEF''"

definition c_string :: "string \<Rightarrow> string" where
  "c_string s = takeWhile (\<lambda>c. c \<noteq> CHR 0x00) s"

text \<open>The three functions on digits of the loader itself.\<close>

definition is_hex :: "char \<Rightarrow> bool" where
  "is_hex c \<longleftrightarrow> (if CHR ''0'' \<le> c \<and> c \<le> CHR ''9'' then True
     else if CHR ''a'' \<le> c \<and> c \<le> CHR ''f'' then True else False)"

definition to_hex :: "char \<Rightarrow> nat" where
  "to_hex c =
     (if CHR ''0'' \<le> c \<and> c \<le> CHR ''9'' then of_char c - of_char (CHR ''0'')
      else if CHR ''a'' \<le> c \<and> c \<le> CHR ''f'' then of_char c - of_char (CHR ''a'') + 10
      else if CHR ''A'' \<le> c \<and> c \<le> CHR ''F'' then of_char c - of_char (CHR ''A'') + 10
      else 0)"

definition to_hex2 :: "char \<Rightarrow> char \<Rightarrow> nat" where
  "to_hex2 a b = to_hex a * 16 + to_hex b"

definition hex_value :: "string \<Rightarrow> nat" where
  "hex_value s = foldl (\<lambda>v c. v * 16 + to_hex c) 0 s"

text \<open>The conversion \<open>%x\<close> into an \<open>unsigned int\<close>: white space, a sign, \<open>0x\<close>, digits;
  the value is that of \<open>strtoul\<close> in 64 bits, cut to 32.\<close>

definition scan_x :: "string \<Rightarrow> (u32 \<times> string) option" where
  "scan_x s =
     (let s1 = skip_space s;
          neg = (s1 \<noteq> [] \<and> hd s1 = CHR ''-'');
          s2 = (if s1 \<noteq> [] \<and> hd s1 \<in> {CHR ''-'', CHR ''+''} then tl s1 else s1);
          s3 = (if take 2 s2 \<in> {''0x'', ''0X''} then drop 2 s2 else s2);
          digits = takeWhile is_xdigit s3;
          v = hex_value digits;
          u = (if v < 2 ^ 64 then (if neg then - of_nat v else of_nat v) else -1 :: u32)
      in if digits = [] then None else Some (u, dropWhile is_xdigit s3))"

text \<open>The conversion \<open>%s\<close> with a width (\<open>None\<close>: no width).\<close>

definition scan_s :: "nat option \<Rightarrow> string \<Rightarrow> (string \<times> string) option" where
  "scan_s width s =
     (let s1 = skip_space s; w = takeWhile (\<lambda>c. \<not> is_space c) s1;
          t = (case width of None \<Rightarrow> w | Some n \<Rightarrow> take n w)
      in if w = [] then None else Some (t, drop (length t) s1))"

fun scan_tokens :: "nat option list \<Rightarrow> string \<Rightarrow> string list" where
  "scan_tokens [] s = []"
| "scan_tokens (width # widths) s =
     (case scan_s width s of None \<Rightarrow> [] | Some (t, r) \<Rightarrow> t # scan_tokens widths r)"

text \<open>The characters the three formats require literally.\<close>

definition expect :: "char \<Rightarrow> string \<Rightarrow> string option" where
  "expect c s = (if s \<noteq> [] \<and> hd s = c then Some (tl s) else None)"

definition pad_right :: "nat \<Rightarrow> string \<Rightarrow> string" where
  "pad_right n s = s @ replicate (n - length s) (CHR '' '')"

subsection \<open>The loader\<close>

text \<open>\<open>sscanf(line, " %x %s%s%s%s...")\<close>: the number of conversions, the address and the
  tokens; \<open>EOF\<close> counts as 0, which the code does not distinguish.\<close>

definition scan_data :: "string \<Rightarrow> nat \<times> u32 \<times> string list" where
  "scan_data line =
     (case scan_x line of
        None \<Rightarrow> (0, 0, [])
      | Some (adr, r) \<Rightarrow> (let ts = scan_tokens [None, None, None, None] r in (1 + length ts, adr, ts)))"

text \<open>\<open>sscanf(line, " %x: %x %7s %15s %23s")\<close>\<close>

definition scan_insn :: "string \<Rightarrow> nat \<times> u32 \<times> u32 \<times> string list" where
  "scan_insn line =
     (case scan_x line of
        None \<Rightarrow> (0, 0, 0, [])
      | Some (adr, r) \<Rightarrow>
          (case Option.bind (expect (CHR '':'') r) scan_x of
             None \<Rightarrow> (1, adr, 0, [])
           | Some (a, r) \<Rightarrow>
               (let ts = scan_tokens [Some 7, Some 15, Some 23] r in (2 + length ts, adr, a, ts))))"

text \<open>\<open>sscanf(line, "%x <%s")\<close>\<close>

definition scan_entry :: "string \<Rightarrow> (u32 \<times> string) option" where
  "scan_entry line =
     (case scan_x line of
        None \<Rightarrow> None
      | Some (adr, r) \<Rightarrow>
          (case Option.bind (expect (CHR ''<'') (skip_space r)) (scan_s None) of
             None \<Rightarrow> None
           | Some (symbol, _) \<Rightarrow> Some (adr, symbol)))"

text \<open>Storing the tokens of the first format into \<open>hexes[0]\<close> to \<open>hexes[3]\<close>.\<close>

fun put_tokens :: "nat \<Rightarrow> string list \<Rightarrow> string \<Rightarrow> load_error + string" where
  "put_tokens k [] hexes = Inr hexes"
| "put_tokens k (t # ts) hexes =
     (if 36 < 9 * k + length t + 1 then Inl HexesOverflow
      else put_tokens (k + 1) ts
        (take (9 * k) hexes @ t @ [CHR 0x00] @ drop (9 * k + length t + 1) hexes))"

function count_hexes_row :: "string \<Rightarrow> nat \<Rightarrow> nat \<Rightarrow> nat \<Rightarrow> nat \<times> bool" where
  "count_hexes_row hexes k i num =
     (if 8 \<le> i then (num, False)
      else if is_hex (hexes ! (9 * k + i)) then count_hexes_row hexes k (i + 1) (num + 1)
      else (num, True))"
  by pat_completeness auto
termination
  by (relation "measure (\<lambda>(hexes, k, i, num). 8 - i)") auto

declare count_hexes_row.simps [simp del]

text \<open>The rows from \<open>k\<close> on, \<open>n\<close> of them; the flag of a row says that the loops were left.\<close>

fun count_hexes_from :: "string \<Rightarrow> nat \<Rightarrow> nat \<Rightarrow> nat \<Rightarrow> nat" where
  "count_hexes_from hexes k 0 num = num div 2"
| "count_hexes_from hexes k (Suc n) num =
     (case count_hexes_row hexes k 0 num of
        (num', True) \<Rightarrow> num' div 2
      | (num', False) \<Rightarrow> count_hexes_from hexes (k + 1) n num')"

definition count_hexes :: "string \<Rightarrow> nat \<Rightarrow> nat" where
  "count_hexes hexes rows = count_hexes_from hexes 0 rows 0"

record loader =
  ld_mem :: memory
  ld_asm :: assembly
  ld_hexes :: string
  ld_start :: int
  ld_count :: nat
  ld_log :: "(nat \<times> string \<times> string) list"

text \<open>The loop over the data bytes of a line: byte \<open>i\<close>, \<open>n\<close> bytes to come.\<close>

fun store_data :: "memory \<Rightarrow> string \<Rightarrow> u32 \<Rightarrow> nat \<Rightarrow> nat \<Rightarrow> mem_fault + memory" where
  "store_data mem hexes adr i 0 = Inr mem"
| "store_data mem hexes adr i (Suc n) =
     (let block = i div 4; disp = (i mod 4) * 2;
          data = of_nat (to_hex2 (hexes ! (9 * block + disp)) (hexes ! (9 * block + disp + 1)))
      in case memory_wr_b mem adr data of
           Inl f \<Rightarrow> Inl f
         | Inr mem' \<Rightarrow> store_data mem' hexes (adr + 1) (i + 1) n)"

definition insn_text :: "string list \<Rightarrow> string" where
  "insn_text ts =
     (if length ts = 1 then pad_right 8 (ts ! 0)
      else if length ts = 2 then pad_right 8 (ts ! 0) @ '' '' @ pad_right 16 (ts ! 1)
      else pad_right 8 (ts ! 0) @ '' '' @ pad_right 16 (ts ! 1) @ '' '' @ pad_right 24 (ts ! 2))"

definition load_insn :: "u32 \<Rightarrow> u32 \<Rightarrow> string list \<Rightarrow> loader \<Rightarrow> load_error + loader" where
  "load_insn adr a ts ld =
     (case memory_wr_w (ld_mem ld) adr a of
        Inl f \<Rightarrow> Inl (MemFault f)
      | Inr m \<Rightarrow>
          if 2 < 2 + length ts then
            (case assembly_set (ld_asm ld) adr (insn_text ts) of
               Inl e \<Rightarrow> Inl (AsmFault e)
             | Inr as \<Rightarrow> Inr (ld\<lparr>ld_mem := m, ld_asm := as\<rparr>))
          else Inr (ld\<lparr>ld_mem := m\<rparr>))"

text \<open>The body of the \<open>while\<close> loop on the line \<open>fgets\<close> delivered. On an empty C string
  the code reads \<open>line[-1]\<close>.\<close>

definition load_line :: "string \<Rightarrow> loader \<Rightarrow> load_error + loader" where
  "load_line buffer ld =
     (let s = c_string buffer
      in if s = [] then Inl EmptyLine
         else let line = (if last s = CHR 0x0A then butlast s else s);
                  finish = (\<lambda>msg ld. ld\<lparr>ld_count := ld_count ld + 1,
                    ld_log := ld_log ld @ [(ld_count ld + 1, msg, line)]\<rparr>);
                  (n, adr, ts) = scan_data line
              in case put_tokens 0 ts (ld_hexes ld) of
                   Inl e \<Rightarrow> Inl e
                 | Inr hexes \<Rightarrow>
                     let ld = ld\<lparr>ld_hexes := hexes\<rparr>;
                         num_hex = (if 2 \<le> n then count_hexes hexes (n - 1) else 0)
                     in if num_hex \<noteq> 0 then
                          (case store_data (ld_mem ld) hexes adr 0 num_hex of
                             Inl f \<Rightarrow> Inl (MemFault f)
                           | Inr m \<Rightarrow> Inr (finish ''Data'' (ld\<lparr>ld_mem := m\<rparr>)))
                        else (case scan_insn line of (n, adr, a, ts) \<Rightarrow>
                          if 2 \<le> n then map_sum id (finish ''Insn'') (load_insn adr a ts ld)
                          else (case scan_entry line of
                                  None \<Rightarrow> Inr (finish ''Ukendt'' ld)
                                | Some (adr, symbol) \<Rightarrow>
                                    if symbol = ''_start>:'' then Inr (finish ''Start'' (ld\<lparr>ld_start := sint adr\<rparr>))
                                    else Inr (finish ''Entry'' ld))))"

definition MAXLINE :: nat where
  "MAXLINE = 1024"

function load_lines :: "string \<Rightarrow> loader \<Rightarrow> load_error + loader" where
  "load_lines input ld =
     (if input = [] then Inr ld
      else case load_line (fst (fgets (MAXLINE - 1) input)) ld of
             Inl e \<Rightarrow> Inl e
           | Inr ld' \<Rightarrow> load_lines (snd (fgets (MAXLINE - 1) input)) ld')"
  by pat_completeness auto
termination
  by (relation "measure (length \<circ> fst)") (auto simp: MAXLINE_def intro: fgets_shorter)

declare load_lines.simps [simp del]

definition read_exec :: "memory \<Rightarrow> assembly \<Rightarrow> string \<Rightarrow> string \<Rightarrow> load_error + int \<times> loader" where
  "read_exec mem as hexes input =
     (case load_lines input
         \<lparr>ld_mem = mem, ld_asm = as, ld_hexes = hexes, ld_start = -1, ld_count = 0, ld_log = []\<rparr> of
        Inl e \<Rightarrow> Inl e
      | Inr ld \<Rightarrow> if ld_start ld \<noteq> -1 then Inr (ld_start ld, ld) else Inl NoStartSymbol)"

subsection \<open>Lines of instructions\<close>

text \<open>The format of the disassembler, and what the loader makes of a line printed in it.\<close>

definition hex_digit :: "nat \<Rightarrow> char" where
  "hex_digit d = ''0123456789abcdef'' ! d"

fun hex_digits :: "nat \<Rightarrow> string" where
  "hex_digits n = (if n < 16 then [hex_digit n] else hex_digits (n div 16) @ [hex_digit (n mod 16)])"

declare hex_digits.simps [simp del]

text \<open>The eight digits of a word, as the disassembler prints it.\<close>

definition hex_word :: "u32 \<Rightarrow> string" where
  "hex_word w = replicate (8 - length (hex_digits (unat w))) (CHR ''0'') @ hex_digits (unat w)"

abbreviation TAB :: char where "TAB \<equiv> CHR 0x09"

definition columns :: "char \<Rightarrow> string list \<Rightarrow> string" where
  "columns sep ts = concat (map (\<lambda>t. sep # t) ts)"

definition print_insn :: "nat \<Rightarrow> u32 \<Rightarrow> u32 \<Rightarrow> string list \<Rightarrow> string" where
  "print_insn indent adr w ts =
     replicate indent (CHR '' '') @ hex_digits (unat adr) @ '':'' @ TAB # hex_word w @ columns TAB ts @ [CHR 0x0A]"

lemma digit_cases:
  assumes "d < (16::nat)"
  shows "d \<in> {0,1,2,3,4,5,6,7,8,9,10,11,12,13,14,15}"
  using assms unfolding insert_iff empty_iff by presburger

lemma hex_digit_props:
  assumes "d < 16"
  shows "is_xdigit (hex_digit d)" "to_hex (hex_digit d) = d" "is_hex (hex_digit d)"
    "\<not> is_space (hex_digit d)" "hex_digit d \<noteq> CHR ''-''" "hex_digit d \<noteq> CHR ''+''"
    "hex_digit d \<noteq> CHR ''x''" "hex_digit d \<noteq> CHR ''X''" "hex_digit d \<noteq> CHR 0x00" "hex_digit d \<noteq> CHR 0x0A"
  using digit_cases[OF assms]
  by (auto simp: hex_digit_def is_xdigit_def to_hex_def is_hex_def is_space_def less_eq_char_def)

lemma hex_value_append: "hex_value (s @ [c]) = hex_value s * 16 + to_hex c"
  by (simp add: hex_value_def)

lemma hex_value_digits [simp]: "hex_value (hex_digits n) = n"
proof (induction n rule: less_induct)
  case (less n)
  show ?case
  proof (cases "n < 16")
    case True
    then show ?thesis by (simp add: hex_digits.simps[of n] hex_value_def hex_digit_props)
  next
    case False
    then have "hex_value (hex_digits (n div 16)) = n div 16" by (intro less) simp
    with False show ?thesis by (simp add: hex_digits.simps[of n] hex_value_append hex_digit_props)
  qed
qed

lemma hex_value_zeros [simp]: "hex_value (replicate k (CHR ''0'') @ s) = hex_value s"
proof (induction k)
  case (Suc k)
  have "to_hex CHR ''0'' = 0" by (simp add: to_hex_def)
  with Suc show ?case by (simp add: hex_value_def)
qed simp

text \<open>A string of digits as \<open>hex_digits\<close> prints them.\<close>

definition numeral_string :: "string \<Rightarrow> bool" where
  "numeral_string s \<longleftrightarrow> s \<noteq> [] \<and> (\<forall>c \<in> set s. \<exists>d < 16. c = hex_digit d)"

lemma numeral_digits [simp]: "numeral_string (hex_digits n)"
proof (induction n rule: less_induct)
  case (less n)
  show ?case
  proof (cases "n < 16")
    case True
    then show ?thesis by (auto simp: hex_digits.simps[of n] numeral_string_def)
  next
    case False
    then have "numeral_string (hex_digits (n div 16))" by (intro less) simp
    with False show ?thesis by (auto simp: hex_digits.simps[of n] numeral_string_def intro: exI[of _ "n mod 16"])
  qed
qed

lemma numeral_hex_word [simp]: "numeral_string (hex_word w)"
proof -
  have "CHR ''0'' = hex_digit 0" by (simp add: hex_digit_def)
  then show ?thesis using numeral_digits[of "unat w"] by (auto simp: hex_word_def numeral_string_def intro: exI[of _ 0])
qed

lemma hex_value_word [simp]: "hex_value (hex_word w) = unat w"
  by (simp add: hex_word_def)

lemma length_hex_digits: "0 < k \<Longrightarrow> n < 16 ^ k \<Longrightarrow> length (hex_digits n) \<le> k"
proof (induction k arbitrary: n)
  case (Suc k)
  show ?case
  proof (cases "n < 16")
    case True
    then show ?thesis by (simp add: hex_digits.simps[of n])
  next
    case False
    then have "n div 16 < 16 ^ k" using Suc.prems by (simp add: less_mult_imp_div_less mult.commute)
    moreover have "0 < k" using False Suc.prems by (cases k) auto
    ultimately show ?thesis using Suc.IH[of "n div 16"] False by (simp add: hex_digits.simps[of n])
  qed
qed simp

lemma length_hex_word [simp]: "length (hex_word w) = 8"
proof -
  have "unat w < 16 ^ 8" using unsigned_less[of w, where 'a = nat] by simp
  then show ?thesis using length_hex_digits[of 8 "unat w"] by (simp add: hex_word_def)
qed

lemma scan_x_numeral:
  assumes s: "numeral_string s" and r: "r = [] \<or> \<not> is_xdigit (hd r)" "take 1 r \<notin> {''x'', ''X''}"
    and v: "hex_value s < 2 ^ 64" and i: "\<forall>c \<in> set i. is_space c"
  shows "scan_x (i @ s @ r) = Some (of_nat (hex_value s), r)"
proof -
  obtain c s' where cs: "s = c # s'" using s by (cases s) (auto simp: numeral_string_def)
  have all: "\<forall>c \<in> set s. is_xdigit c \<and> \<not> is_space c \<and> c \<notin> {CHR ''-'', CHR ''+'', CHR ''x'', CHR ''X''}"
    using s hex_digit_props by (fastforce simp: numeral_string_def)
  have skip: "skip_space (i @ s @ r) = s @ r"
    using i all cs by (simp add: skip_space_def dropWhile_append)
  have pre: "take 2 (s @ r) \<notin> {''0x'', ''0X''}"
    using all r(2) cs by (cases s'; cases r) auto
  have tw: "takeWhile is_xdigit (s @ r) = s" "dropWhile is_xdigit (s @ r) = r"
    using all r(1) by (cases r; simp add: takeWhile_append dropWhile_append)+
  show ?thesis unfolding scan_x_def skip Let_def
    using all cs pre v tw by auto
qed

lemma scan_s_token:
  assumes "t \<noteq> []" "\<forall>c \<in> set t. \<not> is_space c" "\<forall>c \<in> set i. is_space c"
    and "r = [] \<or> is_space (hd r)" and "case width of None \<Rightarrow> True | Some n \<Rightarrow> length t \<le> n"
  shows "scan_s width (i @ t @ r) = Some (t, r)"
proof -
  have skip: "skip_space (i @ t @ r) = t @ r"
    using assms(1,2,3) by (cases t) (simp_all add: skip_space_def dropWhile_append)
  have tw: "takeWhile (\<lambda>c. \<not> is_space c) (t @ r) = t"
    using assms(2,4) by (cases r) (simp_all add: takeWhile_append)
  show ?thesis unfolding scan_s_def skip Let_def tw using assms(1,5) by (auto split: option.splits)
qed

lemma scan_s_blank: "\<forall>c \<in> set s. is_space c \<Longrightarrow> scan_s width s = None"
  by (simp add: scan_s_def skip_space_def dropWhile_eq_Nil_conv[THEN iffD2] Let_def)

definition token :: "string \<Rightarrow> bool" where
  "token t \<longleftrightarrow> t \<noteq> [] \<and> (\<forall>c \<in> set t. \<not> is_space c \<and> c \<noteq> CHR 0x00)"

lemma tab_space [simp]: "is_space TAB" "is_space (CHR 0x0A)" "is_space (CHR '' '')"
  by (simp_all add: is_space_def)

lemma columns_simps [simp]: "columns sep [] = []" "columns sep (t # ts) = sep # t @ columns sep ts"
  by (simp_all add: columns_def)

lemma columns_break:
  "is_space sep \<Longrightarrow> \<forall>c \<in> set r. is_space c \<Longrightarrow> columns sep ts @ r = [] \<or> is_space (hd (columns sep ts @ r))"
  by (cases ts; cases r) auto

lemma scan_columns:
  assumes "list_all2 (\<lambda>w t. token t \<and> (case w of None \<Rightarrow> True | Some n \<Rightarrow> length t \<le> n)) ws ts"
    and "\<forall>c \<in> set r. is_space c" "is_space sep"
  shows "scan_tokens (ws @ ws') (columns sep ts @ r) = ts"
  using assms
proof (induction rule: list_all2_induct)
  case Nil
  then show ?case by (cases ws') (simp_all add: scan_s_blank)
next
  case (Cons w ws t ts)
  have "scan_s w ([sep] @ t @ (columns sep ts @ r)) = Some (t, columns sep ts @ r)"
    by (rule scan_s_token) (use Cons columns_break[of sep r ts] in \<open>auto simp: token_def\<close>)
  then show ?case using Cons by simp
qed

lemma put_tokens_prefix:
  "put_tokens k ts hexes = Inr h \<Longrightarrow> length hexes = 36 \<Longrightarrow> take (9 * k) h = take (9 * k) hexes \<and> length h = 36"
proof (induction ts arbitrary: k hexes)
  case (Cons t ts)
  let ?h = "take (9 * k) hexes @ t @ [CHR 0x00] @ drop (9 * k + length t + 1) hexes"
  have p: "put_tokens (k + 1) ts ?h = Inr h" "9 * k + length t + 1 \<le> 36"
    using Cons.prems by (simp_all split: if_splits)
  then have "take (9 * (k + 1)) h = take (9 * (k + 1)) ?h \<and> length h = 36"
    by (intro Cons.IH) (use Cons.prems(2) in auto)
  then have "take (9 * k) (take (9 * (k + 1)) h) = take (9 * k) (take (9 * (k + 1)) ?h)" "length h = 36" by simp_all
  then show ?case using p(2) Cons.prems(2) by (simp add: min_def)
qed simp

lemma put_tokens_fits:
  "(\<forall>j < length ts. 9 * (k + j) + length (ts ! j) + 1 \<le> 36) \<Longrightarrow> \<exists>h. put_tokens k ts hexes = Inr h"
proof (induction ts arbitrary: k hexes)
  case (Cons t ts)
  have "\<forall>j < length ts. 9 * (k + 1 + j) + length (ts ! j) + 1 \<le> 36"
    using Cons.prems by (auto dest: spec[of _ "Suc _"])
  then show ?case using Cons.IH Cons.prems[rule_format, of 0] by simp
qed simp

lemma count_hexes_first:
  assumes "0 < n" "\<not> is_hex (h ! 0)" shows "count_hexes h n = 0"
  using assms by (cases n) (simp_all add: count_hexes_def count_hexes_row.simps)

text \<open>A line of an instruction as the formats see it.\<close>

definition insn_body :: "nat \<Rightarrow> u32 \<Rightarrow> u32 \<Rightarrow> string list \<Rightarrow> string" where
  "insn_body indent adr w ts =
     replicate indent (CHR '' '') @ hex_digits (unat adr) @ '':'' @ TAB # hex_word w @ columns TAB ts"

lemma token_hex_word [simp]: "token (hex_word w)"
  using numeral_hex_word[of w] hex_digit_props by (fastforce simp: token_def numeral_string_def)

lemma small_word: "unat (w::u32) < 18446744073709551616"
  using unsigned_less[of w, where 'a = nat] by simp

lemma scan_x_body:
  "scan_x (insn_body indent adr w ts) = Some (adr, '':'' @ columns TAB (hex_word w # ts))"
  using scan_x_numeral[of "hex_digits (unat adr)" "'':'' @ columns TAB (hex_word w # ts)" "replicate indent (CHR '' '')"]
  by (simp add: insn_body_def is_xdigit_def small_word)

lemma tokens_unbounded:
  "\<forall>t \<in> set ts. token t \<Longrightarrow> list_all2 (\<lambda>w t. token t \<and> (case w of None \<Rightarrow> True | Some n \<Rightarrow> length t \<le> n))
     (replicate (length ts) None) ts"
  by (induction ts) auto

lemma scan_data_insn:
  assumes "length ts \<le> 2" "\<forall>t \<in> set ts. token t"
  shows "scan_data (insn_body indent adr w ts) = (3 + length ts, adr, '':'' # hex_word w # ts)"
proof -
  have c: "scan_s None ([] @ '':'' @ columns TAB (hex_word w # ts)) = Some ('':'', columns TAB (hex_word w # ts))"
    by (rule scan_s_token) (auto simp: is_space_def)
  have "scan_tokens (replicate (length (hex_word w # ts)) None @ replicate (2 - length ts) None)
      (columns TAB (hex_word w # ts) @ []) = hex_word w # ts"
    using assms(2) by (intro scan_columns tokens_unbounded) auto
  moreover have "replicate (length (hex_word w # ts)) None @ replicate (2 - length ts) None = [None, None, None :: nat option]"
    using assms(1) by (simp add: replicate_add[symmetric] numeral_eq_Suc)
  ultimately have "scan_tokens [None, None, None] (columns TAB (hex_word w # ts)) = hex_word w # ts"
    by (simp only: append_Nil2)
  with scan_x_body c show ?thesis by (simp add: scan_data_def Let_def)
qed

lemma scan_insn_insn:
  assumes "list_all2 (\<lambda>n t. token t \<and> length t \<le> n) (take (length ts) [7, 15, 23]) ts"
  shows "scan_insn (insn_body indent adr w ts) = (2 + length ts, adr, w, ts)"
proof -
  have y: "scan_x ([TAB] @ hex_word w @ columns TAB ts) = Some (w, columns TAB ts)"
    using scan_x_numeral[of "hex_word w" "columns TAB ts" "[TAB]"] 
    by (cases ts) (simp_all add: small_word is_xdigit_def)
  have "scan_tokens (map Some (take (length ts) [7, 15, 23]) @ map Some (drop (length ts) [7, 15, 23])) (columns TAB ts @ []) = ts"
    by (intro scan_columns) (use assms in \<open>auto simp: list_all2_conv_all_nth min_def split: if_splits\<close>)
  then have "scan_tokens (map Some [7, 15, 23]) (columns TAB ts) = ts"
    unfolding map_append[symmetric] append_take_drop_id by simp
  with scan_x_body y show ?thesis by (simp add: scan_insn_def expect_def Let_def)
qed

lemma insn_line:
  assumes "\<forall>t \<in> set ts. token t"
  shows "c_string (print_insn indent adr w ts) = insn_body indent adr w ts @ [CHR 0x0A]"
    "last (insn_body indent adr w ts @ [CHR 0x0A]) = CHR 0x0A"
proof -
  have d: "CHR 0x00 \<notin> set (hex_digits n)" "CHR 0x00 \<notin> set (hex_word w)" for n
    using numeral_digits[of n] numeral_hex_word[of w] hex_digit_props(9) unfolding numeral_string_def by metis+
  have c: "CHR 0x00 \<notin> set (columns TAB ts)" using assms by (auto simp: columns_def token_def)
  show "c_string (print_insn indent adr w ts) = insn_body indent adr w ts @ [CHR 0x0A]"
    unfolding c_string_def print_insn_def insn_body_def using d c
    by (subst takeWhile_eq_all_conv[THEN iffD2]) auto
qed simp

lemma put_tokens_insn:
  assumes "\<forall>j < length ts. 9 * (j + 2) + length (ts ! j) + 1 \<le> 36" and "length hexes = 36"
  shows "\<exists>h. put_tokens 0 ('':'' # hex_word w # ts) hexes = Inr h \<and> length h = 36 \<and> h ! 0 = CHR '':''"
proof -
  let ?h = "'':'' @ [CHR 0x00] @ drop 2 hexes"
  obtain h where h: "put_tokens 1 (hex_word w # ts) ?h = Inr h"
    using put_tokens_fits[of "hex_word w # ts" 1 ?h] assms(1) by (fastforce simp: less_Suc_eq_0_disj)
  then have p: "take 9 h = take 9 ?h" "length h = 36" using put_tokens_prefix[OF h] assms(2) by simp_all
  have "h ! 0 = take 9 h ! 0" by simp
  also have "\<dots> = CHR '':''" unfolding p(1) by simp
  finally show ?thesis using h p(2) by (simp add: numeral_2_eq_2)
qed

lemma short_list_cases:
  assumes "length ts \<le> 2" obtains "ts = []" | t where "ts = [t]" | t u where "ts = [t, u]"
  using assms by (cases ts; cases "tl ts") (auto simp: Suc_le_eq)

definition new_loader :: "loader" where
  "new_loader = \<lparr>ld_mem = memory_create, ld_asm = assembly_create, ld_hexes = replicate 36 (CHR 0x00),
     ld_start = -1, ld_count = 0, ld_log = []\<rparr>"

text \<open>A line of an instruction is loaded: what is printed for a word and up to two columns
  of text at an address stores the word there, in little-endian order, and the padded text in the
  table, and changes nothing else.\<close>

theorem insn_line_loaded:
  assumes w: "length ts \<le> 2" "list_all2 (\<lambda>n t. token t \<and> length t \<le> n) (take (length ts) [7, 8]) ts"
    and a: "adr AND 3 = 0" "addr_ok adr"
    and inv: "length (ld_hexes ld) = 36" "roomy (2 ^ 29) (ld_asm ld)"
  shows "\<exists>ld'. load_line (print_insn indent adr w ts) ld = Inr ld' \<and>
    byte_at (ld_mem ld') = upd_word (byte_at (ld_mem ld)) adr w \<and>
    asm_map (ld_asm ld') = (if ts = [] then asm_map (ld_asm ld) else (asm_map (ld_asm ld))(adr := Some (insn_text ts))) \<and>
    roomy (2 ^ 29) (ld_asm ld') \<and> length (ld_hexes ld') = 36 \<and>
    ld_start ld' = ld_start ld \<and> ld_count ld' = ld_count ld + 1"
proof -
  have tok: "\<forall>t \<in> set ts. token t" using w(2) by (auto simp: list_all2_conv_all_nth in_set_conv_nth)
  have fits: "\<forall>j < length ts. 9 * (j + 2) + length (ts ! j) + 1 \<le> 36"
    by (rule short_list_cases[OF w(1)]) (use w(2) in \<open>auto simp: less_Suc_eq\<close>)
  have w3: "list_all2 (\<lambda>n t. token t \<and> length t \<le> n) (take (length ts) [7, 15, 23]) ts"
    by (rule short_list_cases[OF w(1)]) (use w(2) in auto)
  obtain h where h: "put_tokens 0 ('':'' # hex_word w # ts) (ld_hexes ld) = Inr h" "length h = 36" "h ! 0 = CHR '':''"
    using put_tokens_insn[OF fits inv(1)] by blast
  have nh: "count_hexes h (3 + length ts - 1) = 0"
    using h(3) by (intro count_hexes_first) (auto simp: is_hex_def less_eq_char_def)
  obtain m where m: "memory_wr_w (ld_mem ld) adr w = Inr m" "byte_at m = upd_word (byte_at (ld_mem ld)) adr w"
    using mem.wr_w_law[OF a(1)] by blast
  obtain as where as: "assembly_set (ld_asm ld) adr (insn_text ts) = Inr as" "roomy (2 ^ 29) as"
      "asm_map as = (asm_map (ld_asm ld))(adr := Some (insn_text ts))"
    using asm.set_law[OF inv(2) a(2)] by blast
  show ?thesis
    unfolding load_line_def insn_line(1)[OF tok] insn_line(2)[OF tok] Let_def
    using m as inv h nh by (simp add: scan_data_insn[OF w(1) tok] scan_insn_insn[OF w3] load_insn_def)
qed

lemma mv_text: "insn_text [''mv'', ''a0,a0''] = ''mv       a0,a0           ''"
  by (simp add: insn_text_def pad_right_def numeral_eq_Suc)

theorem insn_line_loaded_witness:
  "\<exists>ld'. load_line (print_insn 3 0x10074 0x00050513 [''mv'', ''a0,a0'']) new_loader = Inr ld' \<and>
     byte_at (ld_mem ld') 0x10075 = 0x05 \<and> asm_map (ld_asm ld') 0x10074 = Some ''mv       a0,a0           ''"
proof -
  have a: "addr_ok 0x10074" "(0x10074 :: u32) AND 3 = 0" by (simp_all add: addr_ok_def)
  have t: "list_all2 (\<lambda>n t. token t \<and> length t \<le> n) (take (length [''mv'', ''a0,a0'']) [7, 8]) [''mv'', ''a0,a0'']"
    by (simp add: token_def is_space_def)
  have l: "length (ld_hexes new_loader) = 36" "roomy (2 ^ 29) (ld_asm new_loader)"
    by (simp_all add: new_loader_def create_roomy[of "2 ^ 29", simplified])
  obtain ld' where ld': "load_line (print_insn 3 0x10074 0x00050513 [''mv'', ''a0,a0'']) new_loader = Inr ld'"
      "byte_at (ld_mem ld') = upd_word (byte_at (ld_mem new_loader)) 0x10074 0x00050513"
      "asm_map (ld_asm ld') = (asm_map (ld_asm new_loader))(0x10074 := Some (insn_text [''mv'', ''a0,a0'']))"
    using insn_line_loaded[OF _ t a(2,1) l, of 3 "0x00050513"] by auto
  have "byte_at (ld_mem ld') 0x10075 = 0x05"
    unfolding ld'(2) by (simp add: upd_word_def byte_of_def)
  then show ?thesis using ld'(1,3) mv_text by auto
qed

subsection \<open>Lines of data\<close>

definition hex_byte :: "byte \<Rightarrow> string" where
  "hex_byte b = [hex_digit (unat b div 16), hex_digit (unat b mod 16)]"

definition data_token :: "byte list \<Rightarrow> string" where
  "data_token g = concat (map hex_byte g)"

definition data_body :: "nat \<Rightarrow> u32 \<Rightarrow> byte list list \<Rightarrow> string" where
  "data_body indent adr gs =
     replicate indent (CHR '' '') @ hex_digits (unat adr) @ columns (CHR '' '') (map data_token gs)"

definition print_data :: "nat \<Rightarrow> u32 \<Rightarrow> byte list list \<Rightarrow> string" where
  "print_data indent adr gs = data_body indent adr gs @ [CHR 0x0A]"

lemma byte_digits: "unat (b::byte) div 16 < 16" "unat (b::byte) mod 16 < 16"
  using unsigned_less[of b, where 'a = nat] by auto

lemma to_hex2_byte: "to_hex2 (hex_digit (unat b div 16)) (hex_digit (unat (b::byte) mod 16)) = unat b"
  using byte_digits[of b] by (simp add: to_hex2_def hex_digit_props)

lemma data_token_digits: "\<forall>c \<in> set (data_token g). \<exists>d < 16. c = hex_digit d"
proof -
  have "\<forall>c \<in> set (hex_byte b). \<exists>d < 16. c = hex_digit d" for b
    using byte_digits[of b] by (auto simp: hex_byte_def intro: exI[of _ "unat b mod 16"])
  then show ?thesis by (auto simp: data_token_def)
qed

lemma data_token_length [simp]: "length (data_token g) = 2 * length g"
  by (induction g) (simp_all add: data_token_def hex_byte_def)

lemma data_token_nth:
  "i < length g \<Longrightarrow> data_token g ! (2 * i) = hex_digit (unat (g ! i) div 16) \<and>
     data_token g ! (2 * i + 1) = hex_digit (unat (g ! i) mod 16)"
proof (induction g arbitrary: i)
  case (Cons b g)
  then show ?case by (cases i) (auto simp: data_token_def hex_byte_def)
qed simp

lemma data_token_token: "length g = 4 \<Longrightarrow> token (data_token g)"
  using data_token_digits[of g] data_token_length[of g] hex_digit_props
  by (fastforce simp: token_def simp del: data_token_length)

lemma put_tokens_nth:
  assumes "put_tokens k ts hexes = Inr h" "length hexes = 36" "\<forall>t \<in> set ts. length t \<le> 8"
    and "b < length ts" "j < length (ts ! b)"
  shows "h ! (9 * (k + b) + j) = ts ! b ! j"
  using assms
proof (induction ts arbitrary: k hexes b)
  case (Cons t ts)
  let ?h = "take (9 * k) hexes @ t @ [CHR 0x00] @ drop (9 * k + length t + 1) hexes"
  have p: "put_tokens (k + 1) ts ?h = Inr h" "9 * k + length t + 1 \<le> 36"
    using Cons.prems(1) by (simp_all split: if_splits)
  have len: "length ?h = 36" using p(2) Cons.prems(2) by simp
  show ?case
  proof (cases b)
    case 0
    have "h ! (9 * k + j) = take (9 * (k + 1)) h ! (9 * k + j)" using 0 Cons.prems by simp
    also have "\<dots> = t ! j" unfolding conjunct1[OF put_tokens_prefix[OF p(1) len]]
      using 0 Cons.prems p(2) by (simp add: nth_append min_def)
    finally show ?thesis using 0 by simp
  next
    case (Suc b')
    then show ?thesis using Cons.IH[OF p(1) len, of b'] Cons.prems by (simp add: algebra_simps)
  qed
qed simp

lemma count_row_full:
  "i \<le> 8 \<Longrightarrow> \<forall>j \<in> {i..<8}. is_hex (h ! (9 * k + j)) \<Longrightarrow> count_hexes_row h k i num = (num + (8 - i), False)"
proof (induction "8 - i" arbitrary: i num)
  case 0
  then show ?case by (simp add: count_hexes_row.simps)
next
  case (Suc n)
  have "count_hexes_row h k (i + 1) (num + 1) = (num + 1 + (8 - (i + 1)), False)"
    using Suc by (intro Suc.hyps(1)) auto
  moreover have "is_hex (h ! (9 * k + i))" "\<not> 8 \<le> i" using Suc by auto
  ultimately show ?case using Suc.hyps(2) by (subst count_hexes_row.simps) simp
qed

lemma count_full:
  assumes "\<forall>b \<in> {k..<k + n}. \<forall>j < 8. is_hex (h ! (9 * b + j))"
  shows "count_hexes_from h k n num = (num + 8 * n) div 2"
  using assms
proof (induction n arbitrary: k num)
  case (Suc n)
  then have "count_hexes_row h k 0 num = (num + 8, False)" using count_row_full[of 0 h k num] by simp
  then show ?case using Suc by (simp add: algebra_simps)
qed simp

lemma memory_wr_b_cong: "ucast d = (ucast d' :: byte) \<Longrightarrow> memory_wr_b m a d = memory_wr_b m a d'"
proof -
  assume "ucast d = (ucast d' :: byte)"
  then have "d AND 0xff = d' AND 0xff" by (simp add: word8_bits word32_bits bit_simps)
  then have "merge_byte s w d = merge_byte s w d'" for s w by (simp add: merge_byte_def)
  then show ?thesis by (simp add: memory_wr_b_def)
qed

lemma store_data_bytes:
  assumes "\<forall>i < n. to_hex2 (h ! (9 * ((s + i) div 4) + ((s + i) mod 4) * 2)) (h ! (9 * ((s + i) div 4) + ((s + i) mod 4) * 2 + 1))
     = unat (bs ! i)" and "length bs = n"
  shows "store_data m h adr s n = store_bytes memory_wr_b m adr bs"
  using assms
proof (induction n arbitrary: m adr s bs)
  case (Suc n)
  then obtain c cs where bs: "bs = c # cs" "length cs = n" by (cases bs) auto
  have "ucast (of_nat (unat c) :: i32) = (ucast (scast c :: i32) :: byte)"
    by (simp add: word8_bits bit_simps)
  then have w: "memory_wr_b m adr (of_nat (unat c)) = memory_wr_b m adr (scast c)" by (rule memory_wr_b_cong)
  have "store_data m' h (adr + 1) (s + 1) n = store_bytes memory_wr_b m' (adr + 1) cs" for m'
    using Suc.prems bs by (intro Suc.IH) (auto dest: spec[of _ "Suc _"])
  then show ?case using Suc.prems(1)[rule_format, of 0] bs w by (auto simp: Let_def split: sum.splits)
qed simp

lemma scan_data_data:
  assumes "gs \<noteq> []" "length gs \<le> 4" "\<forall>g \<in> set gs. length g = 4"
  shows "scan_data (data_body indent adr gs) = (1 + length gs, adr, map data_token gs)"
proof -
  let ?ts = "map data_token gs"
  have x: "scan_x (data_body indent adr gs) = Some (adr, columns (CHR '' '') ?ts)"
    using scan_x_numeral[of "hex_digits (unat adr)" "columns (CHR '' '') ?ts" "replicate indent (CHR '' '')"] assms(1)
    by (cases gs) (simp_all add: data_body_def is_xdigit_def small_word)
  have "scan_tokens (replicate (length ?ts) None @ replicate (4 - length gs) None) (columns (CHR '' '') ?ts @ []) = ?ts"
    using assms(3) by (intro scan_columns tokens_unbounded) (auto simp: data_token_token)
  moreover have "replicate (length ?ts) None @ replicate (4 - length gs) None = [None, None, None, None :: nat option]"
    using assms(2) by (simp add: replicate_add[symmetric] numeral_eq_Suc)
  ultimately have "scan_tokens [None, None, None, None] (columns (CHR '' '') ?ts) = ?ts"
    by (simp only: append_Nil2)
  with x show ?thesis by (simp add: scan_data_def Let_def)
qed

lemma data_line:
  assumes "gs \<noteq> []" "\<forall>g \<in> set gs. length g = 4"
  shows "c_string (print_data indent adr gs) = data_body indent adr gs @ [CHR 0x0A]"
    "last (data_body indent adr gs @ [CHR 0x0A]) = CHR 0x0A"
proof -
  have "CHR 0x00 \<notin> set (hex_digits n)" for n
    using numeral_digits[of n] hex_digit_props(9) unfolding numeral_string_def by metis
  moreover have "CHR 0x00 \<notin> set (columns (CHR '' '') (map data_token gs))"
  proof -
    have "\<forall>g \<in> set gs. token (data_token g)" using assms(2) data_token_token by blast
    then show ?thesis by (auto simp: columns_def token_def)
  qed
  ultimately show "c_string (print_data indent adr gs) = data_body indent adr gs @ [CHR 0x0A]"
    unfolding c_string_def print_data_def data_body_def
    by (subst takeWhile_eq_all_conv[THEN iffD2]) auto
qed simp

text \<open>Byte \<open>i\<close> of groups of four.\<close>

lemma concat_nth4:
  "\<forall>g \<in> set gs. length g = 4 \<Longrightarrow> i < 4 * length gs \<Longrightarrow> concat gs ! i = gs ! (i div 4) ! (i mod 4)"
proof (induction gs arbitrary: i)
  case (Cons g gs)
  show ?case
  proof (cases "i < 4")
    case False
    then obtain j where j: "i = j + 4" using le_Suc_ex[of 4 i] by auto
    then have "i div 4 = Suc (j div 4)" "i mod 4 = j mod 4" by simp_all
    then show ?thesis using Cons j by (simp add: nth_append)
  qed (use Cons in \<open>simp add: nth_append\<close>)
qed simp

lemma length_concat4: "\<forall>g \<in> set gs. length g = 4 \<Longrightarrow> length (concat gs) = 4 * length gs"
  by (induction gs) auto

text \<open>A line of data is loaded: what is printed for up to four groups of four bytes at an
  address stores these bytes from the address on and changes no other byte, no text and not the
  start address.\<close>

theorem data_line_loaded:
  assumes g: "gs \<noteq> []" "length gs \<le> 4" "\<forall>g \<in> set gs. length g = 4" and l: "length (ld_hexes ld) = 36"
  shows "\<exists>ld'. load_line (print_data indent adr gs) ld = Inr ld' \<and>
    (\<forall>i < 4 * length gs. byte_at (ld_mem ld') (adr + of_nat i) = concat gs ! i) \<and>
    (\<forall>b. (\<forall>i < 4 * length gs. b \<noteq> adr + of_nat i) \<longrightarrow> byte_at (ld_mem ld') b = byte_at (ld_mem ld) b) \<and>
    ld_asm ld' = ld_asm ld \<and> ld_start ld' = ld_start ld \<and> ld_count ld' = ld_count ld + 1"
proof -
  let ?ts = "map data_token gs"
  have pos: "Suc 0 \<le> length gs" using g(1) by (cases gs) auto
  have fits: "\<forall>j < length ?ts. 9 * (0 + j) + length (?ts ! j) + 1 \<le> 36" using g by auto
  obtain h where h: "put_tokens 0 ?ts (ld_hexes ld) = Inr h" using put_tokens_fits[OF fits] by blast
  have at: "h ! (9 * b + j) = data_token (gs ! b) ! j" if "b < length gs" "j < 8" for b j
    using put_tokens_nth[OF h l, of b j] that g by auto
  have dig: "\<exists>d < 16. h ! (9 * b + j) = hex_digit d" if "b < length gs" "j < 8" for b j
    using at[OF that] data_token_digits[of "gs ! b"] that g by (auto intro!: bspec[OF data_token_digits] nth_mem)
  have n: "count_hexes h (length gs) = 4 * length gs"
  proof -
    have "is_hex (h ! (9 * b + j))" if "b < length gs" "j < 8" for b j
      using dig[OF that] hex_digit_props(3) by auto
    then show ?thesis using count_full[of 0 "length gs" h 0] by (simp add: count_hexes_def)
  qed
  have "to_hex2 (h ! (9 * (i div 4) + (i mod 4) * 2)) (h ! (9 * (i div 4) + (i mod 4) * 2 + 1)) = unat (concat gs ! i)"
    if i: "i < 4 * length gs" for i
  proof -
    have b: "i div 4 < length gs" "(i mod 4) * 2 < 8" "(i mod 4) * 2 + 1 < 8" "i mod 4 < length (gs ! (i div 4))"
      using i g(3) by (auto simp: less_mult_imp_div_less mult.commute)
    show ?thesis using at[OF b(1,2)] at[OF b(1,3)] data_token_nth[OF b(4)] concat_nth4[OF g(3) i] to_hex2_byte
      by (simp add: mult.commute add.assoc)
  qed
  then have st: "store_data (ld_mem ld) h adr 0 (4 * length gs) = store_bytes memory_wr_b (ld_mem ld) adr (concat gs)"
    using length_concat4[OF g(3)] by (intro store_data_bytes) auto
  have "length (concat gs) \<le> 2 ^ 32" using length_concat4[OF g(3)] g(2) by simp
  then obtain m where m: "store_bytes memory_wr_b (ld_mem ld) adr (concat gs) = Inr m"
      "\<forall>k < length (concat gs). byte_at m (adr + of_nat k) = concat gs ! k"
      "\<forall>b. (\<forall>k < length (concat gs). b \<noteq> adr + of_nat k) \<longrightarrow> byte_at m b = byte_at (ld_mem ld) b"
    using mem.store_bytes_law by blast
  show ?thesis
    unfolding load_line_def data_line(1)[OF g(1,3)] data_line(2)[OF g(1,3)] Let_def
    using h n st m g pos length_concat4[OF g(3)] by (simp add: scan_data_data[OF g])
qed

text \<open>The line \<open>" 11000 48656c6c 6f210a00"\<close>\<close>

theorem data_line_loaded_witness:
  "print_data 1 0x11000 [[0x48, 0x65, 0x6c, 0x6c], [0x6f, 0x21, 0x0a, 0x00]] = '' 11000 48656c6c 6f210a00'' @ [CHR 0x0A] \<and>
   (\<exists>ld'. load_line (print_data 1 0x11000 [[0x48, 0x65, 0x6c, 0x6c], [0x6f, 0x21, 0x0a, 0x00]]) new_loader = Inr ld' \<and>
     byte_at (ld_mem ld') 0x11005 = 0x21)"
proof
  show "print_data 1 0x11000 [[0x48, 0x65, 0x6c, 0x6c], [0x6f, 0x21, 0x0a, 0x00]] = '' 11000 48656c6c 6f210a00'' @ [CHR 0x0A]"
    by (simp add: print_data_def data_body_def data_token_def hex_byte_def hex_digits.simps hex_digit_def)
  obtain ld' where ld': "load_line (print_data 1 0x11000 [[0x48, 0x65, 0x6c, 0x6c], [0x6f, 0x21, 0x0a, 0x00]]) new_loader = Inr ld'"
      "\<forall>i < 8. byte_at (ld_mem ld') (0x11000 + of_nat i) = [0x48, 0x65, 0x6c, 0x6c, 0x6f, 0x21, 0x0a, 0x00] ! i"
    using data_line_loaded[of "[[0x48, 0x65, 0x6c, 0x6c], [0x6f, 0x21, 0x0a, 0x00]]" new_loader 1 "0x11000"]
    by (auto simp: new_loader_def)
  then show "\<exists>ld'. load_line (print_data 1 0x11000 [[0x48, 0x65, 0x6c, 0x6c], [0x6f, 0x21, 0x0a, 0x00]]) new_loader = Inr ld' \<and>
     byte_at (ld_mem ld') 0x11005 = 0x21"
    using ld'(2)[rule_format, of 5] by auto
qed

text \<open>An instruction whose operands take more than 8 characters, such as
  \<open>addi sp,sp,-16\<close>, makes the first \<open>sscanf\<close>, which reads every line as a line of
  data first, write past the end of \<open>hexes\<close>.\<close>

theorem insn_line_overflow:
  assumes "token op" "length op \<le> 17" "token args" "8 < length args" and "length (ld_hexes ld) = 36"
  shows "load_line (print_insn indent adr w [op, args]) ld = Inl HexesOverflow"
proof -
  have tok: "\<forall>t \<in> set [op, args]. token t" using assms by simp
  have "put_tokens 0 ('':'' # hex_word w # [op, args]) (ld_hexes ld) = Inl HexesOverflow"
    using assms(2,4) by simp
  then show ?thesis
    unfolding load_line_def insn_line(1)[OF tok] insn_line(2)[OF tok] Let_def
    by (simp add: scan_data_insn[of "[op, args]"] assms)
qed

theorem insn_line_overflow_witness:
  "load_line (print_insn 3 0x10074 0xff010113 [''addi'', ''sp,sp,-16'']) new_loader = Inl HexesOverflow"
  by (rule insn_line_overflow) (simp_all add: token_def is_space_def new_loader_def)

end
