(* ===== verification/ProgArgs.thy ===== *)
theory ProgArgs
  imports Memory
begin

text \<open>
  \<open>pass_args_to_program\<close> of \<open>A5/src/main.c\<close>: it looks for the argument \<open>--\<close> on the
  command line and, if there is one, stores the count of the arguments from there on at address
  \<open>0x1000000\<close> of the simulated memory, an array of pointers after it, and the strings
  themselves after the pointers. An argument is the list of its bytes before the terminating zero.
\<close>

type_synonym argument = "byte list"

definition SEPARATOR :: argument where
  "SEPARATOR = [0x2d, 0x2d]"

text \<open>The search loop, from \<open>seperator_position\<close> on: where it stopped and whether it broke
  out of the loop on a separator.\<close>

fun find_seperator :: "nat \<Rightarrow> argument list \<Rightarrow> nat \<times> bool" where
  "find_seperator pos [] = (pos, False)"
| "find_seperator pos (arg # args) =
     (if arg = SEPARATOR then (pos, True) else find_seperator (pos + 1) args)"

text \<open>The body of the loop over the arguments and the loop. \<open>argv_addr\<close> is the address of the
  pointer written next, \<open>str_addr\<close> that of the next byte.\<close>

definition COUNT_ADDR :: u32 where
  "COUNT_ADDR = 0x1000000"

definition ARGV_ADDR :: u32 where
  "ARGV_ADDR = 0x1000004"

fun copy_args :: "memory \<Rightarrow> nat \<Rightarrow> u32 \<Rightarrow> argument list \<Rightarrow> mem_fault + memory" where
  "copy_args mem index str_addr [] = Inr mem"
| "copy_args mem index str_addr (arg # args) =
     (case memory_wr_w mem (ARGV_ADDR + 4 * of_nat index) str_addr of
        Inl f \<Rightarrow> Inl f
      | Inr mem1 \<Rightarrow>
          (case store_bytes memory_wr_b mem1 str_addr (arg @ [0]) of
             Inl f \<Rightarrow> Inl f
           | Inr mem2 \<Rightarrow> copy_args mem2 (index + 1) (str_addr + of_nat (length arg + 1)) args))"

definition pass_args_to_program :: "memory \<Rightarrow> argument list \<Rightarrow> mem_fault + memory \<times> nat" where
  "pass_args_to_program mem argv =
     (let (seperator_position, seperator_found) = find_seperator 1 (drop 1 argv)
      in if seperator_found then
           (let args = drop seperator_position argv; num_args = length args;
                str_addr = ARGV_ADDR + 4 * of_nat num_args
            in case memory_wr_w mem COUNT_ADDR (of_nat num_args) of
                 Inl f \<Rightarrow> Inl f
               | Inr mem1 \<Rightarrow>
                   (case copy_args mem1 0 str_addr args of
                      Inl f \<Rightarrow> Inl f | Inr mem2 \<Rightarrow> Inr (mem2, seperator_position)))
         else Inr (mem, seperator_position))"

subsection \<open>Where the program finds its arguments\<close>

definition word_at :: "memory \<Rightarrow> u32 \<Rightarrow> u32" where
  "word_at m a = le32 (byte_at m a) (byte_at m (a + 1)) (byte_at m (a + 2)) (byte_at m (a + 3))"

definition string_at :: "memory \<Rightarrow> u32 \<Rightarrow> argument \<Rightarrow> bool" where
  "string_at m a s \<longleftrightarrow> (\<forall>k < length s. byte_at m (a + of_nat k) = s ! k) \<and> byte_at m (a + of_nat (length s)) = 0"

text \<open>The length of the string area.\<close>

definition area :: "argument list \<Rightarrow> nat" where
  "area args = sum_list (map (\<lambda>s. length s + 1) args)"

text \<open>The start-up code of \<open>A6/handout/lib.c\<close>, \<open>args_to_main\<close>: what it passes to the \<open>main\<close> of the program.\<close>

definition args_to_main :: "memory \<Rightarrow> u32 \<Rightarrow> u32 \<times> u32" where
  "args_to_main mem args_ptr = (let argc = word_at mem args_ptr; argv = args_ptr + 4 in (argc, argv))"

lemma area_simps [simp]: "area [] = 0" "area (s # args) = length s + 1 + area args"
  by (simp_all add: area_def)

text \<open>The bytes at the addresses of a set agree.\<close>

definition agree_on :: "nat set \<Rightarrow> memory \<Rightarrow> memory \<Rightarrow> bool" where
  "agree_on S m m' \<longleftrightarrow> (\<forall>n \<in> S. n < 2 ^ 32 \<longrightarrow> byte_at m' (of_nat n) = byte_at m (of_nat n))"

lemma agree_trans: "agree_on S m1 m2 \<Longrightarrow> agree_on T m2 m3 \<Longrightarrow> agree_on (S \<inter> T) m1 m3"
  by (auto simp: agree_on_def)

lemma agree_mono: "agree_on S m1 m2 \<Longrightarrow> T \<subseteq> S \<Longrightarrow> agree_on T m1 m2"
  by (auto simp: agree_on_def)

lemma of_nat_eq_32: "m < 2 ^ 32 \<Longrightarrow> n < 2 ^ 32 \<Longrightarrow> of_nat m = (of_nat n :: u32) \<longleftrightarrow> m = n"
  by (simp add: word_unat_eq_iff unsigned_of_nat take_bit_nat_eq_self)

lemma store_word_nat:
  assumes "4 dvd n" "n + 4 \<le> 2 ^ 32"
  shows "\<exists>m'. memory_wr_w m (of_nat n) d = Inr m' \<and> word_at m' (of_nat n) = d \<and> agree_on (- {n..<n + 4}) m m'"
proof -
  have al: "(of_nat n :: u32) AND 3 = 0"
  proof -
    obtain k where "n = 4 * k" using assms(1) by blast
    then have "(of_nat n :: u32) = push_bit 2 (of_nat k)" by (simp add: push_bit_eq_mult)
    then show ?thesis by (simp add: word32_bits bit_simps)
  qed
  obtain m' where m': "memory_wr_w m (of_nat n) d = Inr m'" "byte_at m' = upd_word (byte_at m) (of_nat n) d"
    using mem.wr_w_law[OF al] by blast
  have ne: "of_nat k \<noteq> (of_nat n + of_nat j :: u32)" if "k < 2 ^ 32" "k \<notin> {n..<n + 4}" "j < 4" for k j
    using of_nat_eq_32[of k "n + j"] that assms(2) by auto
  have "agree_on (- {n..<n + 4}) m m'"
    unfolding agree_on_def m'(2) upd_word_def
    using ne[where j = 0] ne[where j = 1] ne[where j = 2] ne[where j = 3] by auto
  moreover have "word_at m' (of_nat n) = d"
    by (simp add: word_at_def m'(2) upd_word_def le32_byte_of)
  ultimately show ?thesis using m'(1) by blast
qed

lemma store_string_nat:
  assumes "n + length s + 1 \<le> 2 ^ 32"
  shows "\<exists>m'. store_bytes memory_wr_b m (of_nat n) (s @ [0]) = Inr m' \<and> string_at m' (of_nat n) s
     \<and> agree_on (- {n..<n + length s + 1}) m m'"
proof -
  obtain m' where m': "store_bytes memory_wr_b m (of_nat n) (s @ [0]) = Inr m'"
     "\<forall>k < length (s @ [0]). byte_at m' (of_nat n + of_nat k) = (s @ [0]) ! k"
     "\<forall>b. (\<forall>k < length (s @ [0]). b \<noteq> of_nat n + of_nat k) \<longrightarrow> byte_at m' b = byte_at m b"
    using mem.store_bytes_law[of "s @ [0]" m "of_nat n"] assms by auto
  have "string_at m' (of_nat n) s"
    using m'(2)[rule_format, of "length s"] m'(2) by (simp add: string_at_def nth_append)
  moreover have "agree_on (- {n..<n + length s + 1}) m m'"
    unfolding agree_on_def
  proof safe
    fix b assume b: "b \<notin> {n..<n + length s + 1}" "b < 2 ^ 32"
    have "of_nat b \<noteq> (of_nat n + of_nat k :: u32)" if "k < length (s @ [0])" for k
      using of_nat_eq_32[of b "n + k"] that assms b by auto
    then show "byte_at m' (of_nat b) = byte_at m (of_nat b)" using m'(3) by blast
  qed
  ultimately show ?thesis using m'(1) by blast
qed

lemma word_at_agree:
  assumes "agree_on S m m'" "{n..<n + 4} \<subseteq> S" "n + 4 \<le> 2 ^ 32"
  shows "word_at m' (of_nat n) = word_at m (of_nat n)"
proof -
  have "byte_at m' (of_nat n + of_nat k) = byte_at m (of_nat n + of_nat k)" if "k < 4" for k
    using assms(1)[unfolded agree_on_def, rule_format, of "n + k"] that assms(3)
      subsetD[OF assms(2), of "n + k"] by auto
  from this[of 0] this[of 1] this[of 2] this[of 3] show ?thesis by (simp add: word_at_def)
qed

lemma string_at_agree:
  assumes "agree_on S m m'" "{n..<n + length s + 1} \<subseteq> S" "n + length s + 1 \<le> 2 ^ 32"
  shows "string_at m' (of_nat n) s = string_at m (of_nat n) s"
proof -
  have "byte_at m' (of_nat n + of_nat k) = byte_at m (of_nat n + of_nat k)" if "k \<le> length s" for k
    using assms(1)[unfolded agree_on_def, rule_format, of "n + k"] that assms(3)
      subsetD[OF assms(2), of "n + k"] by auto
  then show ?thesis by (auto simp: string_at_def)
qed

text \<open>The pointers and strings of a list of arguments: pointer number \<open>i\<close> is at
  \<open>0x1000004 + 4 * (index + i)\<close> and leads to argument \<open>i\<close>.\<close>

definition args_at :: "memory \<Rightarrow> nat \<Rightarrow> nat \<Rightarrow> argument list \<Rightarrow> bool" where
  "args_at m index str args \<longleftrightarrow> (\<forall>i < length args.
     word_at m (of_nat (0x1000004 + 4 * (index + i))) = of_nat (str + area (take i args)) \<and>
     string_at m (of_nat (str + area (take i args))) (args ! i))"

lemma copy_args_correct:
  assumes "0x1000004 + 4 * (index + length args) \<le> str" "str + area args \<le> 2 ^ 32"
  shows "\<exists>m'. copy_args m index (of_nat str) args = Inr m' \<and> args_at m' index str args \<and>
     agree_on (- ({0x1000004 + 4 * index..<0x1000004 + 4 * (index + length args)} \<union> {str..<str + area args})) m m'"
  using assms
proof (induction args arbitrary: m index str)
  case Nil
  then show ?case by (simp add: args_at_def agree_on_def)
next
  case (Cons s args)
  let ?p = "0x1000004 + 4 * index"
  have p: "ARGV_ADDR + 4 * of_nat index = of_nat ?p" by (simp add: ARGV_ADDR_def)
  have "4 dvd ?p" by presburger
  then obtain m1 where m1: "memory_wr_w m (of_nat ?p) (of_nat str) = Inr m1"
      "word_at m1 (of_nat ?p) = of_nat str" "agree_on (- {?p..<?p + 4}) m m1"
    using store_word_nat[of ?p m "of_nat str"] Cons.prems by auto
  obtain m2 where m2: "store_bytes memory_wr_b m1 (of_nat str) (s @ [0]) = Inr m2"
      "string_at m2 (of_nat str) s" "agree_on (- {str..<str + length s + 1}) m1 m2"
    using store_string_nat[of str s m1] Cons.prems by auto
  let ?str = "str + (length s + 1)"
  have "0x1000004 + 4 * (index + 1 + length args) \<le> ?str" "?str + area args \<le> 2 ^ 32"
    using Cons.prems by simp_all
  from Cons.IH[OF this, of m2] obtain m' where m': "copy_args m2 (index + 1) (of_nat ?str) args = Inr m'"
      "args_at m' (index + 1) ?str args"
      "agree_on (- ({?p + 4..<0x1000004 + 4 * (index + 1 + length args)} \<union> {?str..<?str + area args})) m2 m'"
    by (auto simp: algebra_simps)
  have run: "copy_args m index (of_nat str) (s # args) = Inr m'"
    using m1(1) m2(1) m'(1) unfolding copy_args.simps p by (simp add: algebra_simps)
  have w: "word_at m' (of_nat ?p) = of_nat str"
    using word_at_agree[OF m2(3), of ?p] word_at_agree[OF m'(3), of ?p] m1(2) Cons.prems by fastforce
  have st: "string_at m' (of_nat str) s"
    using string_at_agree[OF m'(3), of str s] m2(2) Cons.prems by fastforce
  have "args_at m' index str (s # args)"
    unfolding args_at_def
  proof safe
    fix i assume i: "i < length (s # args)"
    show "word_at m' (of_nat (0x1000004 + 4 * (index + i))) = of_nat (str + area (take i (s # args)))"
      using i w m'(2)[unfolded args_at_def, rule_format, of "i - 1"] by (cases i) (auto simp: algebra_simps)
    show "string_at m' (of_nat (str + area (take i (s # args)))) ((s # args) ! i)"
      using i st m'(2)[unfolded args_at_def, rule_format, of "i - 1"] by (cases i) (auto simp: algebra_simps)
  qed
  moreover have "agree_on (- ({?p..<0x1000004 + 4 * (index + length (s # args))} \<union> {str..<str + area (s # args)})) m m'"
    by (rule agree_mono[OF agree_trans[OF agree_trans[OF m1(3) m2(3)] m'(3)]]) auto
  ultimately show ?case using run by blast
qed

lemma find_seperator_split:
  assumes "SEPARATOR \<notin> set before"
  shows "find_seperator pos (before @ SEPARATOR # after) = (pos + length before, True)"
  using assms by (induction before arbitrary: pos) auto

lemma find_seperator_none:
  "SEPARATOR \<notin> set args \<Longrightarrow> find_seperator pos args = (pos + length args, False)"
  by (induction args arbitrary: pos) auto

text \<open>C19: the arguments after a separator arrive in the simulated memory: \<open>args_to_main\<close> finds their count (the
  separator included) at \<open>0x1000000\<close> and passes the array behind it, whose pointer \<open>i\<close> leads to the zero-terminated
  argument \<open>i\<close>, and every byte outside this area is as before; the position of the separator
  is returned. No access of the loops faults.\<close>

theorem args_arrive:
  assumes "argv = prog # opts @ SEPARATOR # rest" and "SEPARATOR \<notin> set opts"
    and "args = SEPARATOR # rest" and "0x1000004 + 4 * length args + area args \<le> 2 ^ 32"
  shows "\<exists>m'. pass_args_to_program m argv = Inr (m', 1 + length opts) \<and>
    args_to_main m' 0x1000000 = (of_nat (length args), 0x1000004) \<and>
    args_at m' 0 (0x1000004 + 4 * length args) args \<and>
    agree_on (- {0x1000000..<0x1000004 + 4 * length args + area args}) m m'"
proof -
  let ?str = "0x1000004 + 4 * length args"
  obtain m1 where m1: "memory_wr_w m (of_nat 0x1000000) (of_nat (length args)) = Inr m1"
      "word_at m1 (of_nat 0x1000000) = of_nat (length args)" "agree_on (- {0x1000000..<0x1000000 + 4}) m m1"
    using store_word_nat[of "0x1000000" m "of_nat (length args)"] by auto
  obtain m' where m': "copy_args m1 0 (of_nat ?str) args = Inr m'" "args_at m' 0 ?str args"
      "agree_on (- ({0x1000004 + 4 * 0..<0x1000004 + 4 * (0 + length args)} \<union> {?str..<?str + area args})) m1 m'"
    using copy_args_correct[of 0 args ?str m1] assms(4) by auto
  have d: "drop (1 + length opts) argv = args" using assms(1,3) by simp
  have "pass_args_to_program m argv = Inr (m', 1 + length opts)"
    using m1(1) m'(1) d assms(1) find_seperator_split[OF assms(2), of 1 rest]
    by (simp add: pass_args_to_program_def COUNT_ADDR_def ARGV_ADDR_def Let_def)
  moreover have "word_at m' (of_nat 0x1000000) = of_nat (length args)"
    using word_at_agree[OF m'(3), of "0x1000000"] m1(2) by fastforce
  moreover have "agree_on (- {0x1000000..<?str + area args}) m m'"
    by (rule agree_mono[OF agree_trans[OF m1(3) m'(3)]]) auto
  ultimately show ?thesis using m'(2) by (auto simp: args_to_main_def)
qed

text \<open>\<open>sim prog.dis -- a\<close>: \<open>argv[1]\<close> of the program is \<open>a\<close>.\<close>

theorem args_arrive_witness:
  "\<exists>m'. pass_args_to_program memory_create [[0x73], [0x70], SEPARATOR, [0x61]] = Inr (m', 2) \<and>
     args_to_main m' 0x1000000 = (2, 0x1000004) \<and> word_at m' 0x1000008 = 0x100000f \<and> byte_at m' 0x100000f = 0x61"
proof -
  obtain m' where m': "pass_args_to_program memory_create [[0x73], [0x70], SEPARATOR, [0x61]] = Inr (m', 2)"
      "args_to_main m' 0x1000000 = (2, 0x1000004)" "args_at m' 0 0x100000c [SEPARATOR, [0x61]]"
    using args_arrive[where argv = "[[0x73], [0x70], SEPARATOR, [0x61]]" and opts = "[[0x70]]"
      and prog = "[0x73]" and rest = "[[0x61]]" and m = memory_create and args = "[SEPARATOR, [0x61]]"]
    by (auto simp: SEPARATOR_def)
  then have "word_at m' 0x1000008 = 0x100000f" "string_at m' 0x100000f [0x61]"
    using m'(3)[unfolded args_at_def, rule_format, of 1] by (simp_all add: SEPARATOR_def)
  then show ?thesis using m'(1,2) by (auto simp: string_at_def)
qed

end
