(* ===== verification/FileType.thy ===== *)
theory FileType
  imports CPrelude
begin

text \<open>
  The file type classifier \<open>A0/file.c\<close>. A stream is its bytes, the position and the file
  descriptor; \<open>fgetc\<close> returns the next byte, or \<open>EOF\<close>, here \<open>None\<close>. An
  \<open>fseek\<close> to a negative position fails and leaves the position alone. The loop of
  \<open>count_utf_multiByte_characters\<close> seeks backwards and may run for ever, so it has fuel; the
  other loops move forward and are total.
\<close>

record stream =
  content :: "byte list"
  fpos :: nat
  fileno :: int

datatype file_type = EMPTY | ASCII | UTF | ISO | DATA

definition fgetc :: "stream \<Rightarrow> byte option \<times> stream" where
  "fgetc f = (if fpos f < length (content f) then (Some (content f ! fpos f), f\<lparr>fpos := fpos f + 1\<rparr>) else (None, f))"

definition protective_get_c :: "stream \<Rightarrow> byte option \<times> stream" where
  "protective_get_c f = (if fileno f = 2 then (None, f) else fgetc f)"

definition seek_set :: "stream \<Rightarrow> stream" where
  "seek_set f = f\<lparr>fpos := 0\<rparr>"

definition seek_back :: "nat \<Rightarrow> stream \<Rightarrow> stream" where
  "seek_back n f = (if n \<le> fpos f then f\<lparr>fpos := fpos f - n\<rparr> else f)"

definition is_empty :: "stream \<Rightarrow> bool \<times> stream" where
  "is_empty f = (case protective_get_c f of (None, f') \<Rightarrow> (True, f') | (Some c, f') \<Rightarrow> (False, seek_set f'))"

definition ascii_byte :: "byte \<Rightarrow> bool" where
  "ascii_byte c \<longleftrightarrow> (0x07 \<le> c \<and> c \<le> 0x0D) \<or> c = 0x1B \<or> (0x20 \<le> c \<and> c \<le> 0x7E)"

definition iso_byte :: "byte \<Rightarrow> bool" where
  "iso_byte c \<longleftrightarrow> ascii_byte c \<or> (0xA0 \<le> c \<and> c \<le> 0xFF)"

lemma get_c_decreases:
  "protective_get_c f = (Some c, f') \<Longrightarrow>
     length (content f') - fpos f' < length (content f) - fpos f \<and> content f' = content f"
  by (auto simp: protective_get_c_def fgetc_def split: if_splits)

text \<open>The two loops over the bytes up to the end of the file, which leave at the first byte
  outside the set.\<close>

function is_ascii :: "stream \<Rightarrow> bool \<times> stream" where
  "is_ascii f =
     (case protective_get_c f of
        (None, f') \<Rightarrow> (True, f')
      | (Some c, f') \<Rightarrow> if \<not> ascii_byte c then (False, seek_set f') else is_ascii f')"
  by pat_completeness auto
termination
  by (relation "measure (\<lambda>f. length (content f) - fpos f)") (auto dest: get_c_decreases[OF sym])

function iso_loop :: "stream \<Rightarrow> bool \<times> stream" where
  "iso_loop f =
     (case protective_get_c f of
        (None, f') \<Rightarrow> (True, seek_set f')
      | (Some c, f') \<Rightarrow> if \<not> iso_byte c then (False, seek_set f') else iso_loop f')"
  by pat_completeness auto
termination
  by (relation "measure (\<lambda>f. length (content f) - fpos f)") (auto dest: get_c_decreases[OF sym])

declare is_ascii.simps [simp del] iso_loop.simps [simp del]

text \<open>How many continuation bytes a byte announces.\<close>

definition expecting :: "byte \<Rightarrow> nat" where
  "expecting c =
     (if c AND 0x80 = 0x00 then 0
      else if c AND 0xE0 = 0xC0 then 1
      else if c AND 0xF0 = 0xE0 then 2
      else if c AND 0xF8 = 0xF0 then 3
      else 0)"

definition continuation :: "byte \<Rightarrow> bool" where
  "continuation c \<longleftrightarrow> c AND 0xC0 = 0x80"

text \<open>The inner \<open>for\<close> loops, \<open>i\<close> turns to go: the end of the file, a byte that is no
  continuation, or all bytes read.\<close>

datatype next_bytes = AtEOF stream | Disproven stream | AllRead stream

fun read_continuations :: "nat \<Rightarrow> stream \<Rightarrow> next_bytes" where
  "read_continuations 0 f = AllRead f"
| "read_continuations (Suc i) f =
     (case protective_get_c f of
        (None, f') \<Rightarrow> AtEOF f'
      | (Some c, f') \<Rightarrow> if \<not> continuation c then Disproven f' else read_continuations i f')"

fun count_loop :: "nat \<Rightarrow> nat \<Rightarrow> stream \<Rightarrow> (nat \<times> stream) option" where
  "count_loop 0 multiByteCharacters f = None"
| "count_loop (Suc fuel) multiByteCharacters f =
     (case protective_get_c f of
        (None, f') \<Rightarrow> Some (multiByteCharacters, seek_set f')
      | (Some c, f') \<Rightarrow>
          (case read_continuations (expecting c) f' of
             AtEOF f'' \<Rightarrow> Some (multiByteCharacters, f'')
           | Disproven f'' \<Rightarrow> count_loop fuel multiByteCharacters (seek_back (expecting c) f'')
           | AllRead f'' \<Rightarrow>
               count_loop fuel (if 0 < expecting c then multiByteCharacters + 1 else multiByteCharacters) f''))"

definition count_utf_multiByte_characters :: "nat \<Rightarrow> stream \<Rightarrow> (nat \<times> stream) option" where
  "count_utf_multiByte_characters fuel f = count_loop fuel 0 f"

definition is_iso :: "nat \<Rightarrow> stream \<Rightarrow> (bool \<times> stream) option" where
  "is_iso fuel f =
     (case count_utf_multiByte_characters fuel f of
        None \<Rightarrow> None
      | Some (multiByteCharacters, f') \<Rightarrow>
          if multiByteCharacters \<noteq> 0 then Some (False, f') else Some (iso_loop f'))"

lemma read_continuations_pos:
  "read_continuations i f = AllRead f' \<Longrightarrow>
     length (content f') - fpos f' \<le> length (content f) - fpos f \<and> content f' = content f"
  by (induction i f rule: read_continuations.induct)
     (fastforce dest: get_c_decreases split: prod.splits option.splits if_splits)+

function is_utf :: "stream \<Rightarrow> bool \<times> stream" where
  "is_utf f =
     (case protective_get_c f of
        (None, f') \<Rightarrow> (True, seek_set f')
      | (Some c, f') \<Rightarrow>
          (case read_continuations (expecting c) f' of
             AtEOF f'' \<Rightarrow> (False, f'')
           | Disproven f'' \<Rightarrow> (False, seek_set f'')
           | AllRead f'' \<Rightarrow> is_utf f''))"
  by pat_completeness auto
termination
  by (relation "measure (\<lambda>f. length (content f) - fpos f)")
     (auto dest!: get_c_decreases[OF sym] read_continuations_pos)

declare is_utf.simps [simp del]

definition find_format :: "nat \<Rightarrow> stream \<Rightarrow> file_type option" where
  "find_format fuel f =
     (case is_empty f of
        (True, f1) \<Rightarrow> Some EMPTY
      | (False, f1) \<Rightarrow>
          (case is_ascii f1 of
             (True, f2) \<Rightarrow> Some ASCII
           | (False, f2) \<Rightarrow>
               (case is_iso fuel f2 of
                  None \<Rightarrow> None
                | Some (True, f3) \<Rightarrow> Some ISO
                | Some (False, f3) \<Rightarrow>
                    (case is_utf f3 of (True, f4) \<Rightarrow> Some UTF | (False, f4) \<Rightarrow> Some DATA))))"

definition file_type_string :: "file_type \<Rightarrow> string" where
  "file_type_string t =
     (case t of EMPTY \<Rightarrow> ''empty'' | ASCII \<Rightarrow> ''ASCII text''
      | UTF \<Rightarrow> ''Unicode text, UTF-8 text, with no line terminators''
      | ISO \<Rightarrow> ''ISO-8859 text'' | DATA \<Rightarrow> ''data'')"

text \<open>\<open>main\<close>: the line it prints and its exit status; \<open>open\<close> gives the stream for a
  path or the text of the error. \<open>print_error\<close> prints the error line.\<close>

definition print_error :: "string \<Rightarrow> string \<Rightarrow> string" where
  "print_error path err = path @ '': cannot determine ('' @ err @ '')'' @ [CHR 0x0A]"

definition file_main :: "(string \<Rightarrow> string + stream) \<Rightarrow> nat \<Rightarrow> string list \<Rightarrow> (string \<times> int) option" where
  "file_main open fuel argv =
     (if length argv \<noteq> 2 then
        (if length argv = 1 then Some (''Usage: file path'' @ [CHR 0x0A], 1)
         else Some (''Usage: Only one file path'' @ [CHR 0x0A], 1))
      else (case open (argv ! 1) of
              Inl err \<Rightarrow> Some (print_error (argv ! 1) err, 0)
            | Inr fp \<Rightarrow>
                map_option (\<lambda>t. (argv ! 1 @ '': '' @ file_type_string t @ [CHR 0x0A], 0)) (find_format fuel fp)))"

subsection \<open>Runs over well-formed text\<close>

text \<open>A freshly opened file.\<close>

definition opened :: "byte list \<Rightarrow> stream" where
  "opened bs = \<lparr>content = bs, fpos = 0, fileno = 3\<rparr>"

text \<open>A unit of text: a byte that announces no other, or one with as many continuations as it
  announces.\<close>

definition utf_unit :: "byte list \<Rightarrow> bool" where
  "utf_unit u \<longleftrightarrow> u \<noteq> [] \<and> length u = 1 + expecting (hd u) \<and> (\<forall>c \<in> set (tl u). continuation c)"

definition multi :: "byte list list \<Rightarrow> nat" where
  "multi us = length (filter (\<lambda>u. 1 < length u) us)"

definition at :: "byte list \<Rightarrow> nat \<Rightarrow> stream" where
  "at bs p = \<lparr>content = bs, fpos = p, fileno = 3\<rparr>"

lemma get_c_at:
  "protective_get_c (at bs p) = (if p < length bs then (Some (bs ! p), at bs (p + 1)) else (None, at bs p))"
  by (simp add: protective_get_c_def fgetc_def at_def)

lemma seek_set_at [simp]: "seek_set (at bs p) = at bs 0"
  by (simp add: seek_set_def at_def)

lemma seek_back_at [simp]: "seek_back n (at bs p) = (if n \<le> p then at bs (p - n) else at bs p)"
  by (simp add: seek_back_def at_def)

lemma opened_at: "opened bs = at bs 0"
  by (simp add: opened_def at_def)

lemma is_ascii_at: "is_ascii (at bs p) =
   (if list_all ascii_byte (drop p bs) then (True, at bs (max p (length bs))) else (False, at bs 0))"
proof (induction "length bs - p" arbitrary: p)
  case 0
  then show ?case by (subst is_ascii.simps) (simp add: get_c_at max_def)
next
  case (Suc n)
  then have "is_ascii (at bs (p + 1)) =
      (if list_all ascii_byte (drop (p + 1) bs) then (True, at bs (max (p + 1) (length bs))) else (False, at bs 0))"
    by simp
  with Suc show ?case
    by (subst is_ascii.simps) (auto simp: get_c_at Cons_nth_drop_Suc[symmetric, of p bs] max_def)
qed

lemma iso_loop_at: "iso_loop (at bs p) = (list_all iso_byte (drop p bs), at bs 0)"
proof (induction "length bs - p" arbitrary: p)
  case 0
  then show ?case by (subst iso_loop.simps) (simp add: get_c_at)
next
  case (Suc n)
  then have "iso_loop (at bs (p + 1)) = (list_all iso_byte (drop (p + 1) bs), at bs 0)" by simp
  with Suc show ?case
    by (subst iso_loop.simps) (auto simp: get_c_at Cons_nth_drop_Suc[symmetric, of p bs])
qed

lemma read_continuations_all:
  "\<forall>c \<in> set cs. continuation c \<Longrightarrow>
   read_continuations (length cs) (at (pre @ cs @ rest) (length pre)) = AllRead (at (pre @ cs @ rest) (length pre + length cs))"
proof (induction cs arbitrary: pre)
  case (Cons c cs)
  then show ?case using Cons.IH[of "pre @ [c]"] by (simp add: get_c_at)
qed simp

lemma read_continuations_eof:
  "\<forall>c \<in> set cs. continuation c \<Longrightarrow> length cs < n \<Longrightarrow>
   read_continuations n (at (pre @ cs) (length pre)) = AtEOF (at (pre @ cs) (length pre + length cs))"
proof (induction cs arbitrary: pre n)
  case Nil
  then show ?case by (cases n) (simp_all add: get_c_at)
next
  case (Cons c cs)
  then show ?case using Cons.IH[where pre = "pre @ [c]" and n = "n - 1"] by (cases n) (simp_all add: get_c_at)
qed

lemma count_unit:
  assumes "utf_unit u"
  shows "count_loop (Suc fuel) n (at (pre @ u @ rest) (length pre)) =
     count_loop fuel (if 1 < length u then n + 1 else n) (at (pre @ u @ rest) (length pre + length u))"
proof -
  obtain c cs where u: "u = c # cs" "length cs = expecting c" "\<forall>d \<in> set cs. continuation d"
    using assms by (cases u) (auto simp: utf_unit_def)
  have "read_continuations (expecting c) (at (pre @ u @ rest) (length pre + 1)) =
      AllRead (at (pre @ u @ rest) (length pre + length u))"
    using read_continuations_all[OF u(3), of "pre @ [c]" rest] u(1,2) by simp
  then show ?thesis using u by (auto simp: get_c_at nth_append)
qed

lemma count_units:
  assumes "\<forall>u \<in> set us. utf_unit u"
  shows "count_loop (length us + fuel) n (at (pre @ concat us @ rest) (length pre)) =
     count_loop fuel (n + multi us) (at (pre @ concat us @ rest) (length pre + length (concat us)))"
  using assms
proof (induction us arbitrary: n pre)
  case Nil
  then show ?case by (simp add: multi_def)
next
  case (Cons u us)
  then have "utf_unit u" by simp
  from count_unit[OF this, of "length us + fuel" n pre "concat us @ rest"] show ?case
    using Cons.IH[of "if 1 < length u then n + 1 else n" "pre @ u"] Cons.prems
    by (simp add: multi_def add.assoc)
qed

lemma is_utf_unit:
  assumes "utf_unit u"
  shows "is_utf (at (pre @ u @ rest) (length pre)) = is_utf (at (pre @ u @ rest) (length pre + length u))"
proof -
  obtain c cs where u: "u = c # cs" "length cs = expecting c" "\<forall>d \<in> set cs. continuation d"
    using assms by (cases u) (auto simp: utf_unit_def)
  have "read_continuations (expecting c) (at (pre @ u @ rest) (length pre + 1)) =
      AllRead (at (pre @ u @ rest) (length pre + length u))"
    using read_continuations_all[OF u(3), of "pre @ [c]" rest] u(1,2) by simp
  then show ?thesis using u by (subst is_utf.simps) (auto simp: get_c_at nth_append)
qed

lemma is_utf_units:
  assumes "\<forall>u \<in> set us. utf_unit u"
  shows "is_utf (at (pre @ concat us @ rest) (length pre)) = is_utf (at (pre @ concat us @ rest) (length pre + length (concat us)))"
  using assms
proof (induction us arbitrary: pre)
  case (Cons u us)
  then show ?case using is_utf_unit[of u pre "concat us @ rest"] Cons.IH[of "pre @ u"] by (simp add: add.assoc)
qed simp

lemma find_format_at:
  assumes "bs \<noteq> []"
  shows "find_format fuel (opened bs) =
    (if list_all ascii_byte bs then Some ASCII
     else case is_iso fuel (at bs 0) of
            None \<Rightarrow> None
          | Some (True, f3) \<Rightarrow> Some ISO
          | Some (False, f3) \<Rightarrow> Some (if fst (is_utf f3) then UTF else DATA))"
  using assms
  by (simp add: find_format_def is_empty_def opened_at get_c_at is_ascii_at split: prod.split option.split bool.split)


lemma low_byte: "c < 0x80 \<Longrightarrow> (c::byte) AND 0x80 = 0"
proof -
  assume "c < 0x80"
  then have "c AND mask 7 = c" by (intro less_mask_eq) simp
  then have "c = c AND 0x7F" by (simp add: mask_eq_exp_minus_1)
  then have "\<not> bit c 7" by (simp add: word8_bits bit_simps)
  then show ?thesis by (simp add: word8_bits bit_simps)
qed

lemma lead_not_ascii:
  assumes "0 < expecting c" shows "\<not> ascii_byte c"
proof
  assume "ascii_byte c"
  then have "c < 0x80" by (auto simp: ascii_byte_def word_le_nat_alt word_less_nat_alt)
  with assms low_byte show False by (simp add: expecting_def)
qed

lemma count_loop_mono: "count_loop fuel n f = Some r \<Longrightarrow> count_loop (k + fuel) n f = Some r"
proof (induction fuel n f rule: count_loop.induct)
  case (2 fuel n f)
  then show ?case by (auto split: prod.splits option.splits next_bytes.splits)
qed simp

lemma read_continuations_bad:
  "\<forall>c \<in> set cs. continuation c \<Longrightarrow> \<not> continuation d \<Longrightarrow> length cs < n \<Longrightarrow>
   read_continuations n (at (pre @ cs @ d # rest) (length pre)) =
     Disproven (at (pre @ cs @ d # rest) (length pre + length cs + 1))"
proof (induction cs arbitrary: pre n)
  case Nil
  then show ?case by (cases n) (simp_all add: get_c_at)
next
  case (Cons c cs)
  then show ?case using Cons.IH[where pre = "pre @ [c]" and n = "n - 1"] by (cases n) (simp_all add: get_c_at)
qed

subsection \<open>The classifier\<close>

text \<open>A file is reported as empty exactly when it has no byte, and as ASCII text exactly when
  it has one and every byte is an ASCII text byte, whatever the fuel.\<close>

theorem empty_and_ascii:
  "(find_format fuel (opened bs) = Some EMPTY) = (bs = []) \<and>
   (find_format fuel (opened bs) = Some ASCII) = (bs \<noteq> [] \<and> list_all ascii_byte bs)"
proof (cases "bs = []")
  case True
  then show ?thesis by (simp add: find_format_def is_empty_def opened_at get_c_at)
next
  case False
  then show ?thesis by (auto simp: find_format_at split: option.splits bool.splits)
qed

text \<open>A file that is a sequence of complete units, single bytes that announce no other or
  leading bytes followed by the continuations they announce, is classified after as many turns
  as it has units: as UTF-8 when some unit has several bytes, else as ISO when its bytes are ISO
  text bytes, and else as UTF-8, never as data.\<close>

lemma units_classified:
  assumes "\<forall>u \<in> set us. utf_unit u" and "length us < fuel"
  shows "find_format fuel (opened (concat us)) = Some
    (if us = [] then EMPTY
     else if list_all ascii_byte (concat us) then ASCII
     else if multi us = 0 \<and> list_all iso_byte (concat us) then ISO
     else UTF)"
proof (cases "us = []")
  case True
  then show ?thesis by (simp add: find_format_def is_empty_def opened_at get_c_at)
next
  case False
  obtain k where k: "fuel = length us + Suc k" using assms(2) less_imp_Suc_add by fastforce
  have ne: "concat us \<noteq> []" using False assms(1) by (cases us) (auto simp: utf_unit_def)
  have "count_utf_multiByte_characters fuel (at (concat us) 0) = Some (multi us, at (concat us) 0)"
    using count_units[OF assms(1), of "Suc k" 0 "[]" "[]"]
    by (simp add: count_utf_multiByte_characters_def k get_c_at)
  moreover have "is_utf (at (concat us) 0) = (True, at (concat us) 0)"
    using is_utf_units[OF assms(1), of "[]" "[]"] by (simp add: is_utf.simps[of "at _ (length _)"] get_c_at)
  ultimately show ?thesis
    using False ne by (simp add: find_format_at is_iso_def iso_loop_at)
qed

text \<open>The file of \<open>test.sh\<close> with a zero byte between ASCII bytes, which the script expects
  to be data, is such a file: single bytes that are not text are reported as UTF-8.\<close>

lemma zero_byte_is_utf: "find_format 10 (opened [0x48, 0x00, 0x57]) = Some UTF"
  using units_classified[of "[[0x48], [0x00], [0x57]]" 10]
  by (simp add: utf_unit_def expecting_def ascii_byte_def iso_byte_def multi_def)

text \<open>UTF-8 text: ASCII text bytes and complete sequences of several bytes.\<close>

definition text_unit :: "byte list \<Rightarrow> bool" where
  "text_unit u \<longleftrightarrow> utf_unit u \<and> (tl u = [] \<longrightarrow> ascii_byte (hd u))"

lemma text_units_ascii:
  assumes "\<forall>u \<in> set us. text_unit u"
  shows "list_all ascii_byte (concat us) \<longleftrightarrow> multi us = 0"
  using assms
proof (induction us)
  case (Cons u us)
  then obtain c cs where u: "u = c # cs" "length cs = expecting c" "\<forall>d \<in> set cs. continuation d" "cs = [] \<longrightarrow> ascii_byte c"
    by (cases u) (auto simp: text_unit_def utf_unit_def)
  show ?case
  proof (cases "cs = []")
    case False
    then have "\<not> ascii_byte c" using u(2) by (intro lead_not_ascii) (cases cs; simp)
    then show ?thesis using u(1) False by (simp add: multi_def)
  qed (use Cons u in \<open>simp_all add: multi_def\<close>)
qed (simp add: multi_def)

text \<open>C21: a file of UTF-8 text, that is, of ASCII text bytes and of leading bytes followed by the continuations they
  announce, is classified after as many turns of the loop as it has characters: as empty when it has none, as ASCII when
  every character is a single byte, and as UTF-8 when some character has several. Nothing is claimed of files with
  other single bytes; a zero byte, for one, is not reported as data (\<open>zero_byte_is_utf\<close>).\<close>

theorem classify_units:
  assumes "\<forall>u \<in> set us. text_unit u" and "length us < fuel"
  shows "find_format fuel (opened (concat us)) = Some (if us = [] then EMPTY else if multi us = 0 then ASCII else UTF)"
  using units_classified[of us fuel] text_units_ascii[OF assms(1)] assms by (auto simp: text_unit_def)

text \<open>The first character of \<open>utf3.input\<close> in \<open>test.sh\<close> and an ASCII letter, which the script expects to be UTF-8.\<close>

theorem classify_units_witness:
  "find_format 3 (opened [0xE4, 0xBD, 0xA0, 0x61]) = Some UTF"
  using classify_units[of "[[0xE4, 0xBD, 0xA0], [0x61]]" 3]
  by (simp add: text_unit_def utf_unit_def expecting_def continuation_def ascii_byte_def multi_def)

lemma count_iso:
  assumes "\<forall>i < length bs. expecting (bs ! i) \<le> 1 \<and>
      (expecting (bs ! i) = 1 \<and> i + 1 < length bs \<longrightarrow> \<not> continuation (bs ! (i + 1)))"
    and "p \<le> length bs" "length bs - p < fuel"
  shows "\<exists>q. count_loop fuel n (at bs p) = Some (n, at bs q)"
  using assms(2,3)
proof (induction fuel arbitrary: p)
  case (Suc fuel)
  show ?case
  proof (cases "p < length bs")
    case False
    then show ?thesis by (auto simp: get_c_at)
  next
    case True
    have e: "expecting (bs ! p) = 0 \<or> expecting (bs ! p) = Suc 0" using assms(1) True by force
    have IH: "\<exists>q. count_loop fuel n (at bs (p + 1)) = Some (n, at bs q)"
      using Suc.prems True by (intro Suc.IH) auto
    show ?thesis
    proof (cases "expecting (bs ! p) = Suc 0 \<and> p + 1 < length bs")
      case t: True
      then have "\<not> continuation (bs ! (p + 1))" using assms(1) True by auto
      then show ?thesis using t True IH by (simp add: get_c_at)
    next
      case False
      then show ?thesis using e True IH by (auto simp: get_c_at)
    qed
  qed
qed simp

text \<open>ISO text is recognised: a file of ISO text bytes, not all ASCII, without leading bytes
  of three or four byte sequences and without a leading byte followed by a continuation, is
  reported as ISO after at most one turn per byte.\<close>

theorem iso_detected:
  assumes "\<forall>i < length bs. expecting (bs ! i) \<le> 1 \<and>
      (expecting (bs ! i) = 1 \<and> i + 1 < length bs \<longrightarrow> \<not> continuation (bs ! (i + 1)))"
    and "list_all iso_byte bs" and "\<not> list_all ascii_byte bs" and "length bs < fuel"
  shows "find_format fuel (opened bs) = Some ISO"
proof -
  obtain q where q: "count_loop fuel 0 (at bs 0) = Some (0, at bs q)"
    using count_iso[OF assms(1), of 0 fuel 0] assms(4) by auto
  have "list_all iso_byte (drop q bs)" using assms(2) by (auto simp: list_all_iff dest: in_set_dropD)
  moreover have "bs \<noteq> []" using assms(3) by auto
  ultimately show ?thesis using assms(3)
    by (simp add: find_format_at is_iso_def count_utf_multiByte_characters_def q iso_loop_at)
qed

theorem iso_detected_witness:
  "find_format 10 (opened [0x20, 0x7E, 0xA0, 0xFF]) = Some ISO"
  by (rule iso_detected) (simp_all add: All_less_Suc expecting_def iso_byte_def ascii_byte_def continuation_def)

lemma count_stuck:
  assumes "\<forall>d \<in> set cs. continuation d" "length cs + 2 = expecting c" "\<not> continuation d"
  shows "count_loop fuel n (at (pre @ c # cs @ d # rest) (length pre)) = None"
proof (induction fuel)
  case (Suc fuel)
  have "read_continuations (expecting c) (at (pre @ c # cs @ d # rest) (length pre + 1)) =
      Disproven (at (pre @ c # cs @ d # rest) (length pre + 1 + length cs + 1))"
    using read_continuations_bad[OF assms(1,3), of "expecting c" "pre @ [c]" rest] assms(2) by simp
  then show ?case using Suc assms(2)[symmetric] by (simp add: get_c_at nth_append)
qed simp

text \<open>C22: a file in which a leading byte that announces two or three continuations is followed by
  exactly two less than it announces, and then by a byte that is no continuation, makes the classifier
  run for ever: with that byte the code has read one byte less than announced, and the seek by the
  announced number goes back to the leading byte itself. A Latin-1 text with \<open>0xE5\<close> before an
  ASCII letter is such a file. With only one continuation missing the seek ends behind the leading byte,
  and the loop goes on (\<open>one_missing_ends\<close>).\<close>

theorem truncated_sequence_loops:
  assumes "\<forall>u \<in> set us. utf_unit u" and "\<forall>d \<in> set cs. continuation d"
    and "length cs + 2 = expecting c" and "\<not> continuation d"
  shows "find_format fuel (opened (concat us @ c # cs @ d # rest)) = None"
proof -
  let ?bs = "concat us @ c # cs @ d # rest"
  have "count_loop (length us + fuel) 0 (at ?bs 0) = None"
    using count_units[OF assms(1), of fuel 0 "[]" "c # cs @ d # rest"] count_stuck[OF assms(2,3,4)] by simp
  then have "count_loop fuel 0 (at ?bs 0) = None"
    using count_loop_mono[of fuel 0 "at ?bs 0" _ "length us"] by (cases "count_loop fuel 0 (at ?bs 0)") auto
  moreover have "\<not> ascii_byte c" using assms(3) by (intro lead_not_ascii) simp
  ultimately show ?thesis by (simp add: find_format_at is_iso_def count_utf_multiByte_characters_def)
qed

text \<open>\<open>"p\<aring> "\<close> in Latin-1\<close>

theorem truncated_sequence_loops_witness:
  "find_format 1000 (opened [0x70, 0xE5, 0x20]) = None"
  using truncated_sequence_loops[of "[[0x70]]" "[]" "0xE5" "0x20" 1000 "[]"]
  by (simp add: utf_unit_def expecting_def continuation_def)

lemma one_missing_ends: "find_format 10 (opened [0x70, 0xC3, 0x20]) = Some ISO"
  by code_simp

text \<open>A file of complete units that ends in the middle of a sequence is reported as ISO when
  no unit has several bytes and as UTF-8 otherwise, whatever its bytes: the early return leaves
  the stream at its end, where the tests that follow find nothing to object to.\<close>

theorem incomplete_end:
  assumes "\<forall>u \<in> set us. utf_unit u" and "\<forall>d \<in> set cs. continuation d"
    and "length cs < expecting c" and "length us < fuel"
  shows "find_format fuel (opened (concat us @ c # cs)) = Some (if multi us = 0 then ISO else UTF)"
proof -
  let ?bs = "concat us @ c # cs"
  obtain k where k: "fuel = length us + Suc k" using assms(4) less_imp_Suc_add by fastforce
  have "read_continuations (expecting c) (at ?bs (length (concat us) + 1)) = AtEOF (at ?bs (length ?bs))"
    using read_continuations_eof[OF assms(2,3), of "concat us @ [c]"] by simp
  then have "count_loop fuel 0 (at ?bs 0) = Some (multi us, at ?bs (length ?bs))"
    using count_units[OF assms(1), of "Suc k" 0 "[]" "c # cs"] by (simp add: k get_c_at nth_append)
  moreover have "\<not> ascii_byte c" using assms(3) by (intro lead_not_ascii) simp
  ultimately show ?thesis
    by (simp add: find_format_at is_iso_def count_utf_multiByte_characters_def iso_loop_at
        is_utf.simps[of "at _ (Suc _)"] get_c_at)
qed

text \<open>A zero byte before a lone leading byte is neither ISO text nor UTF-8.\<close>

theorem incomplete_end_witness:
  "find_format 10 (opened [0x00, 0xC3]) = Some ISO"
  using incomplete_end[of "[[0x00]]" "[]" "0xC3" 10]
  by (simp add: utf_unit_def expecting_def multi_def)

end
