(* ===== verification/Sha256.thy ===== *)
theory Sha256
  imports CPrelude
begin

text \<open>
  SHA-256, \<open>A3/src/sha256.c\<close> (\<open>A4/src/sha256.c\<close> is the same file), built as the
  makefiles build it: little-endian, four rounds to a turn, without \<open>SHA256_FAST_COPY\<close> and
  \<open>RUNTIME_ENDIAN\<close>. The context keeps its 64-byte buffer as bytes; the words of the union are
  read from them in little-endian order. The offset into the buffer and the lengths are natural
  numbers: the offset stays at most 64. A copy to an offset beyond the buffer is \<open>None\<close>.
\<close>

subsection \<open>The macros\<close>

definition ROTL :: "u32 \<Rightarrow> nat \<Rightarrow> u32" where
  "ROTL x n = push_bit n x OR drop_bit (32 - n) x"

definition ROTR :: "u32 \<Rightarrow> nat \<Rightarrow> u32" where
  "ROTR x n = drop_bit n x OR push_bit (32 - n) x"

definition Ch :: "u32 \<Rightarrow> u32 \<Rightarrow> u32 \<Rightarrow> u32" where
  "Ch x y z = z XOR (x AND (y XOR z))"

definition Maj :: "u32 \<Rightarrow> u32 \<Rightarrow> u32 \<Rightarrow> u32" where
  "Maj x y z = (x AND (y OR z)) OR (y AND z)"

definition SIGMA0 :: "u32 \<Rightarrow> u32" where
  "SIGMA0 x = ROTR x 2 XOR ROTR x 13 XOR ROTR x 22"

definition SIGMA1 :: "u32 \<Rightarrow> u32" where
  "SIGMA1 x = ROTR x 6 XOR ROTR x 11 XOR ROTR x 25"

definition sigma0 :: "u32 \<Rightarrow> u32" where
  "sigma0 x = ROTR x 7 XOR ROTR x 18 XOR drop_bit 3 x"

definition sigma1 :: "u32 \<Rightarrow> u32" where
  "sigma1 x = ROTR x 17 XOR ROTR x 19 XOR drop_bit 10 x"

type_synonym sha_vars = "u32 \<times> u32 \<times> u32 \<times> u32 \<times> u32 \<times> u32 \<times> u32 \<times> u32"

text \<open>\<open>DO_ROUND\<close> with the words the pointers \<open>Kp\<close> and \<open>W\<close> lead to.\<close>

fun DO_ROUND :: "sha_vars \<Rightarrow> u32 \<Rightarrow> u32 \<Rightarrow> sha_vars" where
  "DO_ROUND (a, b, c, d, e, f, g, h) kp w =
     (let t1 = h + SIGMA1 e + Ch e f g + kp + w;
          t2 = SIGMA0 a + Maj a b c
      in (t1 + t2, a, b, c, d + t1, e, f, g))"

definition K :: "u32 list" where
  "K = concat
   [[0x428a2f98, 0x71374491, 0xb5c0fbcf, 0xe9b5dba5],
    [0x3956c25b, 0x59f111f1, 0x923f82a4, 0xab1c5ed5],
    [0xd807aa98, 0x12835b01, 0x243185be, 0x550c7dc3],
    [0x72be5d74, 0x80deb1fe, 0x9bdc06a7, 0xc19bf174],
    [0xe49b69c1, 0xefbe4786, 0x0fc19dc6, 0x240ca1cc],
    [0x2de92c6f, 0x4a7484aa, 0x5cb0a9dc, 0x76f988da],
    [0x983e5152, 0xa831c66d, 0xb00327c8, 0xbf597fc7],
    [0xc6e00bf3, 0xd5a79147, 0x06ca6351, 0x14292967],
    [0x27b70a85, 0x2e1b2138, 0x4d2c6dfc, 0x53380d13],
    [0x650a7354, 0x766a0abb, 0x81c2c92e, 0x92722c85],
    [0xa2bfe8a1, 0xa81a664b, 0xc24b8b70, 0xc76c51a3],
    [0xd192e819, 0xd6990624, 0xf40e3585, 0x106aa070],
    [0x19a4c116, 0x1e376c08, 0x2748774c, 0x34b0bcb5],
    [0x391c0cb3, 0x4ed8aa4a, 0x5b9cca4f, 0x682e6ff3],
    [0x748f82ee, 0x78a5636f, 0x84c87814, 0x8cc70208],
    [0x90befffa, 0xa4506ceb, 0xbef9a3f7, 0xc67178f2]]"

definition BYTESWAP :: "u32 \<Rightarrow> u32" where
  "BYTESWAP x = (ROTR x 8 AND 0xff00ff00) OR (ROTL x 8 AND 0x00ff00ff)"

definition BYTESWAP64 :: "64 word \<Rightarrow> 64 word" where
  "BYTESWAP64 x = (let a = ucast (drop_bit 32 x); b = ucast x
     in push_bit 32 (ucast (BYTESWAP b)) OR ucast (BYTESWAP a))"

definition padding :: "byte list" where
  "padding = 0x80 # replicate 63 0x00"

subsection \<open>The context\<close>

record sha_ctx =
  totalLength :: "64 word"
  hash :: "u32 list"
  bufferLength :: nat
  buffer_bytes :: "byte list"

definition sha256_init :: "sha_ctx \<Rightarrow> sha_ctx" where
  "sha256_init sc = sc\<lparr>totalLength := 0,
     hash := [0x6a09e667, 0xbb67ae85, 0x3c6ef372, 0xa54ff53a, 0x510e527f, 0x9b05688c, 0x1f83d9ab, 0x5be0cd19],
     bufferLength := 0\<rparr>"

definition buffer_words :: "byte list \<Rightarrow> u32 list" where
  "buffer_words bs = map (\<lambda>i. le32 (bs ! (4 * i)) (bs ! (4 * i + 1)) (bs ! (4 * i + 2)) (bs ! (4 * i + 3))) [0..<16]"

text \<open>The second loop of \<open>SHA256Guts\<close>: turn \<open>k\<close> appends word \<open>16 + k\<close>, from the words
  that \<open>W16\<close>, \<open>W15\<close>, \<open>W7\<close> and \<open>W2\<close> point at.\<close>

fun extend_schedule :: "nat \<Rightarrow> nat \<Rightarrow> u32 list \<Rightarrow> u32 list" where
  "extend_schedule 0 k buf = buf"
| "extend_schedule (Suc i) k buf =
     extend_schedule i (k + 1)
       (buf @ [sigma1 (buf ! (14 + k)) + buf ! (9 + k) + sigma0 (buf ! (1 + k)) + buf ! k])"

fun round_loop :: "nat \<Rightarrow> nat \<Rightarrow> u32 list \<Rightarrow> sha_vars \<Rightarrow> sha_vars" where
  "round_loop 0 p buf v = v"
| "round_loop (Suc i) p buf v =
     round_loop i (p + 4) buf
       (DO_ROUND (DO_ROUND (DO_ROUND (DO_ROUND v (K ! p) (buf ! p)) (K ! (p + 1)) (buf ! (p + 1)))
          (K ! (p + 2)) (buf ! (p + 2))) (K ! (p + 3)) (buf ! (p + 3)))"

definition load_hash :: "u32 list \<Rightarrow> sha_vars" where
  "load_hash h = (h ! 0, h ! 1, h ! 2, h ! 3, h ! 4, h ! 5, h ! 6, h ! 7)"

fun add_hash :: "u32 list \<Rightarrow> sha_vars \<Rightarrow> u32 list" where
  "add_hash hs (a, b, c, d, e, f, g, h) =
     [hs ! 0 + a, hs ! 1 + b, hs ! 2 + c, hs ! 3 + d, hs ! 4 + e, hs ! 5 + f, hs ! 6 + g, hs ! 7 + h]"

definition SHA256Guts :: "sha_ctx \<Rightarrow> u32 list \<Rightarrow> sha_ctx" where
  "SHA256Guts sc cbuf =
     (let buf = extend_schedule 48 0 (map BYTESWAP cbuf)
      in sc\<lparr>hash := add_hash (hash sc) (round_loop 16 0 buf (load_hash (hash sc)))\<rparr>)"

text \<open>One turn of the loop of \<open>sha256_update\<close>, on at least one byte of data: the context and
  the data left.\<close>

definition update_turn :: "sha_ctx \<Rightarrow> byte list \<Rightarrow> sha_ctx \<times> byte list" where
  "update_turn sc data =
     (let bufferBytesLeft = 64 - bufferLength sc;
          bytesToCopy = (if length data < bufferBytesLeft then length data else bufferBytesLeft);
          sc = sc\<lparr>buffer_bytes := take (bufferLength sc) (buffer_bytes sc) @ take bytesToCopy data
                    @ drop (bufferLength sc + bytesToCopy) (buffer_bytes sc),
                  totalLength := totalLength sc + of_nat bytesToCopy * 8,
                  bufferLength := bufferLength sc + bytesToCopy\<rparr>;
          data = drop bytesToCopy data
      in if bufferLength sc = 64
         then ((SHA256Guts sc (buffer_words (buffer_bytes sc)))\<lparr>bufferLength := 0\<rparr>, data)
         else (sc, data))"

function sha256_update :: "sha_ctx \<Rightarrow> byte list \<Rightarrow> sha_ctx option" where
  "sha256_update sc data =
     (if data = [] then Some sc
      else if 64 < bufferLength sc then None
      else (case update_turn sc data of (sc', data') \<Rightarrow> sha256_update sc' data'))"
  by pat_completeness auto
termination
  by (relation "measures [\<lambda>(sc, data). length data, \<lambda>(sc, data). bufferLength sc]")
     (auto simp: update_turn_def Let_def SHA256Guts_def split: if_splits)

declare sha256_update.simps [simp del]

text \<open>The bytes of a 64-bit word in memory.\<close>

definition bytes64 :: "64 word \<Rightarrow> byte list" where
  "bytes64 x = map (\<lambda>i. ucast (drop_bit (8 * i) x)) [0..<8]"

definition hash_bytes :: "u32 \<Rightarrow> byte list" where
  "hash_bytes w = [ucast (drop_bit 24 w), ucast (drop_bit 16 w), ucast (drop_bit 8 w), ucast w]"

definition sha256_final :: "sha_ctx \<Rightarrow> (byte list \<times> sha_ctx) option" where
  "sha256_final sc =
     (let bytesToPad = 120 - bufferLength sc;
          bytesToPad = (if 64 < bytesToPad then bytesToPad - 64 else bytesToPad);
          lengthPad = BYTESWAP64 (totalLength sc)
      in Option.bind (sha256_update sc (take bytesToPad padding)) (\<lambda>sc.
         Option.bind (sha256_update sc (bytes64 lengthPad)) (\<lambda>sc.
         Some (concat (map hash_bytes (hash sc)), sc))))"

text \<open>\<open>get_data_sha\<close> of \<open>networking.c\<close> and \<open>peer.c\<close>, on a context that is not
  initialised. The result goes through a buffer of \<open>hash_size\<close> bytes, which
  \<open>sha256_final\<close> fills with 32: any other size is a write outside the buffer or a read of
  bytes never written, \<open>None\<close>.\<close>

definition get_data_sha :: "sha_ctx \<Rightarrow> byte list \<Rightarrow> nat \<Rightarrow> byte list option" where
  "get_data_sha shactx sourcedata hash_size =
     Option.bind (sha256_update (sha256_init shactx) sourcedata) (\<lambda>sc.
     Option.bind (sha256_final sc) (\<lambda>(shabuffer, sc). if hash_size = length shabuffer then Some shabuffer else None))"

subsection \<open>The standard\<close>

text \<open>FIPS 180-4: the functions are stated with rotations and exclusive or, the schedule as the
  recurrence over \<open>t\<close>, and the message is padded as a whole.\<close>

definition bsig0 :: "u32 \<Rightarrow> u32" where
  "bsig0 x = word_rotr 2 x XOR word_rotr 13 x XOR word_rotr 22 x"

definition bsig1 :: "u32 \<Rightarrow> u32" where
  "bsig1 x = word_rotr 6 x XOR word_rotr 11 x XOR word_rotr 25 x"

definition ssig0 :: "u32 \<Rightarrow> u32" where
  "ssig0 x = word_rotr 7 x XOR word_rotr 18 x XOR drop_bit 3 x"

definition ssig1 :: "u32 \<Rightarrow> u32" where
  "ssig1 x = word_rotr 17 x XOR word_rotr 19 x XOR drop_bit 10 x"

definition fips_ch :: "u32 \<Rightarrow> u32 \<Rightarrow> u32 \<Rightarrow> u32" where
  "fips_ch x y z = (x AND y) XOR (NOT x AND z)"

definition fips_maj :: "u32 \<Rightarrow> u32 \<Rightarrow> u32 \<Rightarrow> u32" where
  "fips_maj x y z = (x AND y) XOR (x AND z) XOR (y AND z)"

definition be_word :: "byte list \<Rightarrow> nat \<Rightarrow> u32" where
  "be_word m t = push_bit 24 (ucast (m ! (4 * t))) OR push_bit 16 (ucast (m ! (4 * t + 1)))
     OR push_bit 8 (ucast (m ! (4 * t + 2))) OR ucast (m ! (4 * t + 3))"

fun sched :: "byte list \<Rightarrow> nat \<Rightarrow> u32" where
  "sched m t = (if t < 16 then be_word m t
     else ssig1 (sched m (t - 2)) + sched m (t - 7) + ssig0 (sched m (t - 15)) + sched m (t - 16))"

declare sched.simps [simp del]

fun fips_round :: "sha_vars \<Rightarrow> u32 \<Rightarrow> u32 \<Rightarrow> sha_vars" where
  "fips_round (a, b, c, d, e, f, g, h) k w =
     (let t1 = h + bsig1 e + fips_ch e f g + k + w; t2 = bsig0 a + fips_maj a b c
      in (t1 + t2, a, b, c, d + t1, e, f, g))"

fun list_of_vars :: "sha_vars \<Rightarrow> u32 list" where
  "list_of_vars (a, b, c, d, e, f, g, h) = [a, b, c, d, e, f, g, h]"

definition fips_compress :: "u32 list \<Rightarrow> byte list \<Rightarrow> u32 list" where
  "fips_compress hs m =
     map2 (+) hs (list_of_vars (foldl (\<lambda>v t. fips_round v (K ! t) (sched m t)) (load_hash hs) [0..<64]))"

definition hash0 :: "u32 list" where
  "hash0 = [0x6a09e667, 0xbb67ae85, 0x3c6ef372, 0xa54ff53a, 0x510e527f, 0x9b05688c, 0x1f83d9ab, 0x5be0cd19]"

definition block :: "byte list \<Rightarrow> nat \<Rightarrow> byte list" where
  "block m i = take 64 (drop (64 * i) m)"

definition digest_blocks :: "byte list \<Rightarrow> u32 list" where
  "digest_blocks m = foldl fips_compress hash0 (map (block m) [0..<length m div 64])"

definition be_bytes64 :: "64 word \<Rightarrow> byte list" where
  "be_bytes64 x = map (\<lambda>i. ucast (drop_bit (56 - 8 * i) x)) [0..<8]"

definition fips_pad :: "byte list \<Rightarrow> byte list" where
  "fips_pad m = m @ 0x80 # replicate ((119 - length m mod 64) mod 64) 0 @ be_bytes64 (of_nat (8 * length m))"

definition sha256_spec :: "byte list \<Rightarrow> byte list" where
  "sha256_spec m = concat (map hash_bytes (digest_blocks (fips_pad m)))"

subsection \<open>The compression function\<close>

lemma ROTR_rotr:
  assumes "0 < n" "n < 32"
  shows "ROTR x n = word_rotr n x"
proof (rule bit_word_eqI)
  fix m assume m: "m < LENGTH(32)"
  show "bit (ROTR x n) m = bit (word_rotr n x) m"
  proof (cases "m + n < 32")
    case True
    then show ?thesis using m assms by (auto simp: ROTR_def bit_simps bit_word_rotr_iff add.commute)
  next
    case False
    then have "(m + n) mod 32 = m - (32 - n)" "32 - n \<le> m" using m assms by (simp_all add: mod_if)
    then show ?thesis using m False assms by (simp add: ROTR_def bit_simps bit_word_rotr_iff)
  qed
qed

lemma macros_fips:
  "SIGMA0 x = bsig0 x" "SIGMA1 x = bsig1 x" "sigma0 x = ssig0 x" "sigma1 x = ssig1 x"
  "Ch x y z = fips_ch x y z" "Maj x y z = fips_maj x y z"
proof -
  show "Ch x y z = fips_ch x y z" "Maj x y z = fips_maj x y z"
    by (rule bit_word_eqI, auto simp: Ch_def fips_ch_def Maj_def fips_maj_def bit_simps)+
qed (simp_all only: SIGMA0_def bsig0_def SIGMA1_def bsig1_def sigma0_def ssig0_def sigma1_def ssig1_def, simp_all add: ROTR_rotr)

lemma DO_ROUND_fips: "DO_ROUND v k w = fips_round v k w"
  by (cases "(v, k, w)" rule: DO_ROUND.cases) (simp add: macros_fips)

lemma swap_le32: "BYTESWAP (le32 b0 b1 b2 b3) = le32 b3 b2 b1 b0"
  unfolding BYTESWAP_def ROTR_def ROTL_def le32_def word32_bits bit_simps by simp

lemma swapped_words: "map BYTESWAP (buffer_words m) = map (sched m) [0..<16]"
proof -
  have "BYTESWAP (le32 (m ! (4 * i)) (m ! (4 * i + 1)) (m ! (4 * i + 2)) (m ! (4 * i + 3))) = sched m i" if "i < 16" for i
    unfolding swap_le32 using that
    by (simp add: sched.simps[of m i] be_word_def le32_def or.commute or.left_commute or.assoc)
  then show ?thesis by (simp add: buffer_words_def)
qed

lemma extend_schedule_sched:
  "extend_schedule n k (map (sched m) [0..<16 + k]) = map (sched m) [0..<16 + k + n]"
proof (induction n arbitrary: k)
  case (Suc n)
  let ?w = "map (sched m) [0..<16 + k]"
  have nth: "i < 16 + k \<Longrightarrow> ?w ! i = sched m i" for i by simp
  have s: "sched m (16 + k) = sigma1 (?w ! (14 + k)) + ?w ! (9 + k) + sigma0 (?w ! (1 + k)) + ?w ! k"
    by (subst sched.simps) (simp add: nth macros_fips)
  have "16 + (k + 1) = Suc (16 + k)" by simp
  then have "map (sched m) [0..<16 + (k + 1)] = ?w @ [sched m (16 + k)]"
    by (simp only: upt_Suc_append[OF le0] map_append list.map)
  then show ?case using Suc[of "k + 1"] unfolding extend_schedule.simps s[symmetric] by (simp add: add.assoc)
qed simp

lemma round_loop_foldl:
  "p + 4 * n \<le> 64 \<Longrightarrow> round_loop n p (map (sched m) [0..<64]) v =
     foldl (\<lambda>v t. fips_round v (K ! t) (sched m t)) v [p..<p + 4 * n]"
proof (induction n arbitrary: p v)
  case (Suc n)
  have u: "[p..<p + 4 * Suc n] = [p, p + 1, p + 2, p + 3] @ [p + 4..<p + 4 + 4 * n]"
    using upt_add_eq_append[of p "p + 4" "4 * n"] by (simp add: upt_rec numeral_eq_Suc)
  show ?case using Suc.IH[of "p + 4"] Suc.prems by (simp only: u foldl_append) (simp add: DO_ROUND_fips)
qed simp

lemma length8:
  assumes "length (xs :: 'a list) = 8" obtains a b c d e f g h where "xs = [a, b, c, d, e, f, g, h]"
  using assms by (auto simp: length_Suc_conv numeral_eq_Suc)

lemma add_hash_map2: "length hs = 8 \<Longrightarrow> add_hash hs v = map2 (+) hs (list_of_vars v)"
  by (erule length8; cases v rule: list_of_vars.cases) simp

lemma Guts_compress:
  assumes "length (hash sc) = 8"
  shows "SHA256Guts sc (buffer_words m) = sc\<lparr>hash := fips_compress (hash sc) m\<rparr>"
proof -
  have "extend_schedule 48 0 (map BYTESWAP (buffer_words m)) = map (sched m) [0..<64]"
    unfolding swapped_words using extend_schedule_sched[of 48 0 m] by simp
  then show ?thesis
    using round_loop_foldl[of 0 16 m] assms
    by (simp add: SHA256Guts_def Let_def fips_compress_def add_hash_map2)
qed

lemma length_compress: "length hs = 8 \<Longrightarrow> length (fips_compress hs m) = 8"
proof -
  have "length (list_of_vars v) = 8" for v by (cases v rule: list_of_vars.cases) simp
  then show "length hs = 8 \<Longrightarrow> length (fips_compress hs m) = 8" by (simp add: fips_compress_def)
qed


subsection \<open>Absorbing data\<close>

text \<open>What the context holds after the bytes \<open>m\<close>: the hash of the full blocks, the rest in
  the buffer and the length in bits.\<close>

definition absorbed :: "sha_ctx \<Rightarrow> byte list \<Rightarrow> bool" where
  "absorbed sc m \<longleftrightarrow> length (buffer_bytes sc) = 64 \<and> bufferLength sc = length m mod 64 \<and>
     hash sc = digest_blocks m \<and> take (length m mod 64) (buffer_bytes sc) = drop (64 * (length m div 64)) m \<and>
     totalLength sc = of_nat (8 * length m)"

lemma digest_length: "length (foldl fips_compress hash0 ms) = 8"
  by (induction ms rule: rev_induct) (simp_all add: hash0_def length_compress)

lemma block_append: "64 * (i + 1) \<le> length m \<Longrightarrow> block (m @ d) i = block m i"
  by (simp add: block_def)

lemma digest_append:
  assumes "length m div 64 = q" "length (m @ d) div 64 = q"
  shows "digest_blocks (m @ d) = digest_blocks m"
proof -
  have "map (block (m @ d)) [0..<q] = map (block m) [0..<q]"
    using assms(1) by (auto intro!: block_append)
  then show ?thesis unfolding digest_blocks_def assms by (rule arg_cong)
qed

lemma digest_step:
  assumes "length m + length d = 64 * (length m div 64) + 64"
  shows "digest_blocks (m @ d) = fips_compress (digest_blocks m) (drop (64 * (length m div 64)) m @ d)"
proof -
  let ?q = "length m div 64"
  have l: "length (m @ d) div 64 = Suc ?q" using assms by simp
  have p: "map (block (m @ d)) [0..<?q] = map (block m) [0..<?q]" by (auto intro!: block_append)
  have "block (m @ d) ?q = drop (64 * ?q) m @ d"
    using assms by (simp add: block_def)
  then show ?thesis unfolding digest_blocks_def l upt_Suc_append[OF le0] map_append p by simp
qed

text \<open>The turn with its number of bytes and its context before the block is hashed.\<close>

definition filled :: "sha_ctx \<Rightarrow> byte list \<Rightarrow> sha_ctx" where
  "filled sc cs = sc\<lparr>buffer_bytes := take (bufferLength sc) (buffer_bytes sc) @ cs
       @ drop (bufferLength sc + length cs) (buffer_bytes sc),
     totalLength := totalLength sc + of_nat (length cs) * 8,
     bufferLength := bufferLength sc + length cs\<rparr>"

lemma update_turn_eq:
  assumes "n = min (64 - bufferLength sc) (length data)" "sc' = filled sc (take n data)"
  shows "update_turn sc data = (if bufferLength sc + n = 64
     then ((SHA256Guts sc' (buffer_words (buffer_bytes sc')))\<lparr>bufferLength := 0\<rparr>, drop n data)
     else (sc', drop n data))"
proof -
  have "(if length data < 64 - bufferLength sc then length data else 64 - bufferLength sc) = n"
    using assms(1) by simp
  moreover have "length (take n data) = n" using assms(1) by simp
  ultimately show ?thesis unfolding update_turn_def filled_def assms(2) Let_def by (simp only:) simp
qed

lemma filled_parts:
  assumes a: "absorbed sc m" and b: "b = length m mod 64" "b + length cs \<le> 64"
  shows "hash (filled sc cs) = digest_blocks m" "length (buffer_bytes (filled sc cs)) = 64"
    "take (b + length cs) (buffer_bytes (filled sc cs)) = drop (64 * (length m div 64)) m @ cs"
    "totalLength (filled sc cs) = of_nat (8 * length (m @ cs))" "bufferLength (filled sc cs) = b + length cs"
proof -
  have "take b (buffer_bytes sc) = drop (64 * (length m div 64)) m" "length (buffer_bytes sc) = 64" "bufferLength sc = b"
    using a b(1) by (simp_all add: absorbed_def)
  moreover have "length (take b (buffer_bytes sc)) = b" using b calculation(2) by simp
  ultimately show "take (b + length cs) (buffer_bytes (filled sc cs)) = drop (64 * (length m div 64)) m @ cs"
      "length (buffer_bytes (filled sc cs)) = 64" "bufferLength (filled sc cs) = b + length cs"
    using b by (simp_all add: filled_def)
  show "hash (filled sc cs) = digest_blocks m" "totalLength (filled sc cs) = of_nat (8 * length (m @ cs))"
    using a by (simp_all add: filled_def absorbed_def algebra_simps)
qed

lemma filled_block:
  assumes a: "absorbed sc m" and b: "b = length m mod 64" "b + length cs = 64"
  shows "absorbed ((SHA256Guts (filled sc cs) (buffer_words (buffer_bytes (filled sc cs))))\<lparr>bufferLength := 0\<rparr>) (m @ cs)"
proof -
  note p = filled_parts[OF a b(1) eq_imp_le[OF b(2)]]
  have len: "length m + length cs = 64 * (length m div 64) + 64"
    using b div_mult_mod_eq[of "length m" 64] by linarith
  have buf: "buffer_bytes (filled sc cs) = drop (64 * (length m div 64)) m @ cs"
    using p(2,3) b(2) by simp
  have h: "length (hash (filled sc cs)) = 8" unfolding p(1) by (simp add: digest_blocks_def digest_length)
  have "length (m @ cs) mod 64 = 0" "length (m @ cs) = 64 * (length (m @ cs) div 64)" using len by simp_all
  moreover have "digest_blocks (m @ cs) = fips_compress (digest_blocks m) (drop (64 * (length m div 64)) m @ cs)"
    using len by (rule digest_step)
  ultimately show ?thesis unfolding absorbed_def Guts_compress[OF h] using p(1,2,4) buf by simp
qed

lemma filled_rest:
  assumes a: "absorbed sc m" and b: "b = length m mod 64" "b + length cs < 64"
  shows "absorbed (filled sc cs) (m @ cs)"
proof -
  note p = filled_parts[OF a b(1) less_imp_le[OF b(2)]]
  have len: "length (m @ cs) = 64 * (length m div 64) + (b + length cs)"
    using b(1) by simp
  have q: "length (m @ cs) div 64 = length m div 64" "length (m @ cs) mod 64 = b + length cs"
    unfolding len using b(2) by simp_all
  have "digest_blocks (m @ cs) = digest_blocks m" using q by (intro digest_append) simp_all
  then show ?thesis unfolding absorbed_def q using p by simp
qed

lemma update_turn_absorbs:
  assumes a: "absorbed sc m" and d: "data \<noteq> []"
  shows "\<exists>n sc'. 0 < n \<and> n \<le> length data \<and> update_turn sc data = (sc', drop n data) \<and> absorbed sc' (m @ take n data)"
proof -
  define b n where "b = length m mod 64" and "n = min (64 - b) (length data)"
  have b: "bufferLength sc = b" "b < 64" using a by (simp_all add: absorbed_def b_def)
  have n: "0 < n" "n \<le> length data" "length (take n data) = n" "b + n \<le> 64"
    using d b(2) by (auto simp: n_def)
  note ut = update_turn_eq[OF n_def[folded b(1)] refl]
  show ?thesis
  proof (cases "b + n = 64")
    case True
    then show ?thesis using ut b(1) n filled_block[OF a b_def, of "take n data"] by auto
  next
    case False
    then have "b + length (take n data) < 64" using n by linarith
    then show ?thesis using ut b(1) n False filled_rest[OF a b_def, of "take n data"] by auto
  qed
qed

lemma update_absorbs:
  "absorbed sc m \<Longrightarrow> \<exists>sc'. sha256_update sc data = Some sc' \<and> absorbed sc' (m @ data)"
proof (induction "length data" arbitrary: sc m data rule: less_induct)
  case less
  show ?case
  proof (cases "data = []")
    case True
    then show ?thesis using less.prems by (simp add: sha256_update.simps)
  next
    case False
    obtain n sc' where n: "0 < n" "n \<le> length data" "update_turn sc data = (sc', drop n data)"
        "absorbed sc' (m @ take n data)"
      using update_turn_absorbs[OF less.prems False] by blast
    have "\<exists>sc''. sha256_update sc' (drop n data) = Some sc'' \<and> absorbed sc'' ((m @ take n data) @ drop n data)"
      using n False by (intro less.hyps) auto
    moreover have "\<not> 64 < bufferLength sc"
      using less.prems mod_less_divisor[of 64 "length m"] by (simp add: absorbed_def)
    ultimately show ?thesis using n False by (subst sha256_update.simps) simp
  qed
qed

lemma init_absorbs: "length (buffer_bytes sc) = 64 \<Longrightarrow> absorbed (sha256_init sc) []"
  by (simp add: absorbed_def sha256_init_def digest_blocks_def hash0_def)

lemma bytes64_swap: "bytes64 (BYTESWAP64 x) = be_bytes64 x"
proof -
  have u: "[0..<8::nat] = [0, 1, 2, 3, 4, 5, 6, 7]" by (rule upt_8)
  show ?thesis unfolding bytes64_def be_bytes64_def u list.map list.inject BYTESWAP64_def BYTESWAP_def ROTR_def ROTL_def
    word8_bits Let_def by (simp add: bit_simps)
qed

lemma pad_bytes:
  assumes "b = length m mod 64" "p = (if 64 < 120 - b then 120 - b - 64 else 120 - b)"
  shows "fips_pad m = m @ take p padding @ be_bytes64 (of_nat (8 * length m))" "length (fips_pad m) mod 64 = 0"
proof -
  have b: "b < 64" using assms(1) by simp
  have z: "(119 - b) mod 64 = p - 1" "0 < p" "p \<le> 64"
    using b assms(2) by (auto simp: mod_if)
  then have "take p padding = 0x80 # replicate (p - 1) 0"
    by (cases p) (simp_all add: padding_def)
  then show e: "fips_pad m = m @ take p padding @ be_bytes64 (of_nat (8 * length m))"
    using z(1) by (simp add: fips_pad_def assms(1))
  have "(b + p + 8) mod 64 = 0" using b assms(2) by (auto simp: mod_if)
  then have "(length m + (p + 8)) mod 64 = 0" unfolding assms(1) by (simp add: add.assoc mod_add_left_eq)
  moreover have "length (fips_pad m) = length m + (p + 8)"
    unfolding e using z(3) by (simp add: padding_def be_bytes64_def)
  ultimately show "length (fips_pad m) mod 64 = 0" by simp
qed

lemma final_absorbs:
  assumes "absorbed sc m"
  shows "\<exists>sc'. sha256_final sc = Some (sha256_spec m, sc')"
proof -
  define p where "p = (if 64 < 120 - bufferLength sc then 120 - bufferLength sc - 64 else 120 - bufferLength sc)"
  have b: "bufferLength sc = length m mod 64" "totalLength sc = of_nat (8 * length m)"
    using assms by (simp_all add: absorbed_def)
  obtain sc1 where sc1: "sha256_update sc (take p padding) = Some sc1" "absorbed sc1 (m @ take p padding)"
    using update_absorbs[OF assms] by blast
  obtain sc2 where sc2: "sha256_update sc1 (be_bytes64 (totalLength sc)) = Some sc2"
      "absorbed sc2 ((m @ take p padding) @ be_bytes64 (totalLength sc))"
    using update_absorbs[OF sc1(2)] by blast
  have "fips_pad m = (m @ take p padding) @ be_bytes64 (totalLength sc)"
    using pad_bytes(1)[OF b(1) p_def] b(2) by simp
  then have "hash sc2 = digest_blocks (fips_pad m)" using sc2(2) by (simp add: absorbed_def)
  then show ?thesis using sc1(1) sc2(1)
    by (simp add: sha256_final_def Let_def p_def bytes64_swap sha256_spec_def)
qed

subsection \<open>The interface\<close>

text \<open>What the clients of the hash rely on: a context started on any memory, fed in pieces of any
  size and finished gives the digest of the bytes in order.\<close>

locale stream_hash =
  fixes start :: "'c \<Rightarrow> 'c"
    and update :: "'c \<Rightarrow> byte list \<Rightarrow> 'c option"
    and finish :: "'c \<Rightarrow> (byte list \<times> 'c) option"
    and fits :: "'c \<Rightarrow> bool"
    and holds :: "'c \<Rightarrow> byte list \<Rightarrow> bool"
    and digest :: "byte list \<Rightarrow> byte list"
  assumes start_law: "fits c \<Longrightarrow> holds (start c) []"
    and update_law: "holds c m \<Longrightarrow> \<exists>c'. update c d = Some c' \<and> holds c' (m @ d)"
    and finish_law: "holds c m \<Longrightarrow> \<exists>c'. finish c = Some (digest m, c')"
begin

definition feed :: "'c \<Rightarrow> byte list list \<Rightarrow> 'c option" where
  "feed c ds = foldl (\<lambda>r d. Option.bind r (\<lambda>c. update c d)) (Some c) ds"

lemma feed_law: "holds c m \<Longrightarrow> \<exists>c'. feed c ds = Some c' \<and> holds c' (m @ concat ds)"
proof (induction ds rule: rev_induct)
  case (snoc d ds)
  then show ?case using update_law by (force simp: feed_def)
qed (simp add: feed_def)

lemma digest_of_pieces:
  assumes "fits c" shows "\<exists>c'. Option.bind (feed (start c) ds) finish = Some (digest (concat ds), c')"
  using feed_law[OF start_law[OF assms], of ds] finish_law by force

end

definition feed_all :: "sha_ctx \<Rightarrow> byte list list \<Rightarrow> sha_ctx option" where
  "feed_all c ds = foldl (\<lambda>r d. Option.bind r (\<lambda>c. sha256_update c d)) (Some c) ds"

interpretation sha: stream_hash sha256_init sha256_update sha256_final
    "\<lambda>sc. length (buffer_bytes sc) = 64" absorbed sha256_spec
  rewrites "stream_hash.feed sha256_update = feed_all"
proof -
  show s: "stream_hash sha256_init sha256_update sha256_final (\<lambda>sc. length (buffer_bytes sc) = 64) absorbed sha256_spec"
    by unfold_locales (use init_absorbs update_absorbs final_absorbs in auto)
  show "stream_hash.feed sha256_update = feed_all"
    by (intro ext) (simp add: stream_hash.feed_def[OF s] feed_all_def)
qed

lemma length_spec: "length (sha256_spec m) = 32"
proof -
  have "length (concat (map hash_bytes ws)) = 4 * length ws" for ws
    by (induction ws) (simp_all add: hash_bytes_def)
  then show ?thesis by (simp add: sha256_spec_def digest_blocks_def digest_length)
qed

subsection \<open>Properties\<close>

definition any_ctx :: sha_ctx where
  "any_ctx = \<lparr>totalLength = 5, hash = [], bufferLength = 7, buffer_bytes = replicate 64 0\<rparr>"

text \<open>C4: the implementation is SHA-256: \<open>sha256_init\<close>, any sequence of
  \<open>sha256_update\<close> calls and \<open>sha256_final\<close>, on a context of any contents, never write
  outside the 64-byte buffer and give the digest that FIPS 180-4 defines for the concatenation of
  the pieces.\<close>

theorem sha256_is_fips:
  assumes "length (buffer_bytes sc) = 64"
  shows "\<exists>sc'. Option.bind (feed_all (sha256_init sc) ds) sha256_final = Some (sha256_spec (concat ds), sc')"
  using assms by (rule sha.digest_of_pieces)

theorem sha256_is_fips_witness:
  "\<exists>sc'. Option.bind (feed_all (sha256_init any_ctx) [[0x61], [0x62, 0x63]]) sha256_final
     = Some (sha256_spec [0x61, 0x62, 0x63], sc')"
  using sha256_is_fips[of any_ctx "[[0x61], [0x62, 0x63]]"] by (simp add: any_ctx_def)

lemma get_data_sha_spec:
  assumes "length (buffer_bytes shactx) = 64"
  shows "get_data_sha shactx sourcedata hash_size = (if hash_size = 32 then Some (sha256_spec sourcedata) else None)"
proof -
  obtain sc1 sc2 where "sha256_update (sha256_init shactx) sourcedata = Some sc1"
      "sha256_final sc1 = Some (sha256_spec sourcedata, sc2)"
    using sha.digest_of_pieces[OF assms, of "[sourcedata]"] by (auto simp: feed_all_def bind_eq_Some_conv)
  then show ?thesis by (simp add: get_data_sha_def length_spec)
qed

text \<open>\<open>get_data_sha\<close> gives the digest of its data when the size it is told is that of a
  digest, and any other size leaves the buffer.\<close>

theorem get_data_sha_digest:
  assumes "length (buffer_bytes shactx) = 64"
  shows "get_data_sha shactx sourcedata hash_size = (if hash_size = 32 then Some (sha256_spec sourcedata) else None)"
  using assms by (rule get_data_sha_spec)

theorem get_data_sha_digest_witness:
  "get_data_sha any_ctx [0x61] 32 = Some (sha256_spec [0x61])"
  using get_data_sha_digest[of any_ctx "[0x61]" 32] by (simp add: any_ctx_def)

definition primes64 :: "nat list" where
  "primes64 = [2, 3, 5, 7, 11, 13, 17, 19, 23, 29, 31, 37, 41, 43, 47, 53, 59, 61, 67, 71, 73, 79, 83, 89, 97,
     101, 103, 107, 109, 113, 127, 131, 137, 139, 149, 151, 157, 163, 167, 173, 179, 181, 191, 193, 197, 199,
     211, 223, 227, 229, 233, 239, 241, 251, 257, 263, 269, 271, 277, 281, 283, 293, 307, 311]"

text \<open>\<open>c\<close> is the fraction of the \<open>r\<close>-th root of \<open>p\<close>, cut to 32 bits.\<close>

definition root_fraction :: "nat \<Rightarrow> nat \<Rightarrow> u32 \<Rightarrow> bool" where
  "root_fraction r p c \<longleftrightarrow>
     (let i = length (filter (\<lambda>i. i ^ r \<le> p) [1, 2, 3, 4, 5, 6, 7]); x = i * 2 ^ 32 + unat c
      in x ^ r \<le> p * 2 ^ (32 * r) \<and> p * 2 ^ (32 * r) < (x + 1) ^ r)"

text \<open>The constants are those of the standard: \<open>K\<close> holds the first 32 bits of the
  fractions of the cube roots of the first 64 primes, and \<open>sha256_init\<close> sets those of the
  square roots of the first eight.\<close>

theorem round_constants:
  "list_all2 (root_fraction 3) primes64 K \<and>
   list_all2 (root_fraction 2) (take 8 primes64) (hash (sha256_init any_ctx))"
  by (simp add: primes64_def K_def root_fraction_def sha256_init_def)

end
