(* ===== verification/Sha256Builds.thy ===== *)
theory Sha256Builds
  imports Sha256
begin

text \<open>
  The other ways to build \<open>A3/src/sha256.c\<close>: the seven values of \<open>SHA256_UNROLL\<close>, \<open>SHA256_FAST_COPY\<close>, which hashes full
  blocks where they are, and the two ways to learn the byte order, on hosts of either order. All of them compute the
  same digests. With \<open>SHA256_FAST_COPY\<close> the data is read as words, which the model takes to be aligned. Then the test program and
  \<open>burnStack\<close>, and the first of the test vectors in the comment of the file. The definitions are those of the copy in A4.
\<close>

subsection \<open>Byte orders\<close>

text \<open>\<open>little\<close> is the order of the host.\<close>

definition mem_bytes :: "bool \<Rightarrow> u32 \<Rightarrow> byte list" where
  "mem_bytes little w = (if little then rev (hash_bytes w) else hash_bytes w)"

definition mem_words :: "bool \<Rightarrow> byte list \<Rightarrow> u32 list" where
  "mem_words little bs =
     (if little then buffer_words bs
      else map (\<lambda>i. le32 (bs ! (4 * i + 3)) (bs ! (4 * i + 2)) (bs ! (4 * i + 1)) (bs ! (4 * i))) [0..<16])"

definition mem_bytes64 :: "bool \<Rightarrow> 64 word \<Rightarrow> byte list" where
  "mem_bytes64 little x = (if little then bytes64 x else rev (bytes64 x))"

record build =
  unroll :: nat
  fast_copy :: bool
  runtime_endian :: bool
  words_bigendian :: bool

record build_ctx =
  ctx :: sha_ctx
  littleEndian :: int

definition setEndian :: "bool \<Rightarrow> int" where
  "setEndian little = (if mem_bytes little 1 ! 0 \<noteq> 0 then 1 else 0)"

definition swaps :: "build \<Rightarrow> int \<Rightarrow> bool" where
  "swaps b flag = (if runtime_endian b then flag \<noteq> 0 else \<not> words_bigendian b)"

definition byteswap :: "build \<Rightarrow> int \<Rightarrow> u32 \<Rightarrow> u32" where
  "byteswap b flag x = (if swaps b flag then BYTESWAP x else x)"

definition byteswap64 :: "build \<Rightarrow> int \<Rightarrow> 64 word \<Rightarrow> 64 word" where
  "byteswap64 b flag x = (if swaps b flag then BYTESWAP64 x else x)"

subsection \<open>Rounds\<close>

text \<open>A turn of the loop does \<open>u\<close> rounds from round \<open>p\<close> on.\<close>

fun do_rounds :: "nat \<Rightarrow> nat \<Rightarrow> u32 list \<Rightarrow> sha_vars \<Rightarrow> sha_vars" where
  "do_rounds 0 p buf v = v"
| "do_rounds (Suc u) p buf v = do_rounds u (p + 1) buf (DO_ROUND v (K ! p) (buf ! p))"

fun round_turns :: "nat \<Rightarrow> nat \<Rightarrow> nat \<Rightarrow> u32 list \<Rightarrow> sha_vars \<Rightarrow> sha_vars" where
  "round_turns u 0 p buf v = v"
| "round_turns u (Suc i) p buf v = round_turns u i (p + u) buf (do_rounds u p buf v)"

text \<open>The number of turns; \<open>None\<close> is the \<open>#error\<close>.\<close>

definition turns :: "nat \<Rightarrow> nat option" where
  "turns u = (if u = 1 then Some 64 else if u = 2 then Some 32 else if u = 4 then Some 16 else if u = 8 then Some 8
     else if u = 16 then Some 4 else if u = 32 then Some 2 else if u = 64 then Some 1 else None)"

definition guts :: "build \<Rightarrow> bool \<Rightarrow> int \<Rightarrow> sha_ctx \<Rightarrow> byte list \<Rightarrow> sha_ctx" where
  "guts b little flag sc bytes =
     (let buf = extend_schedule 48 0 (map (byteswap b flag) (mem_words little bytes))
      in sc\<lparr>hash := add_hash (hash sc) (round_turns (unroll b) (the (turns (unroll b))) 0 buf (load_hash (hash sc)))\<rparr>)"

subsection \<open>Updates\<close>

text \<open>Filling the buffer and hashing it when it is full: the body of the loop without \<open>SHA256_FAST_COPY\<close>, and the first statement
  with it.\<close>

definition fill :: "(sha_ctx \<Rightarrow> byte list \<Rightarrow> sha_ctx) \<Rightarrow> sha_ctx \<Rightarrow> byte list \<Rightarrow> sha_ctx \<times> byte list" where
  "fill G sc data =
     (let bufferBytesLeft = 64 - bufferLength sc;
          bytesToCopy = (if length data < bufferBytesLeft then length data else bufferBytesLeft);
          sc = sc\<lparr>buffer_bytes := take (bufferLength sc) (buffer_bytes sc) @ take bytesToCopy data
                    @ drop (bufferLength sc + bytesToCopy) (buffer_bytes sc),
                  totalLength := totalLength sc + of_nat bytesToCopy * 8,
                  bufferLength := bufferLength sc + bytesToCopy\<rparr>;
          data = drop bytesToCopy data
      in if bufferLength sc = 64 then ((G sc (buffer_bytes sc))\<lparr>bufferLength := 0\<rparr>, data) else (sc, data))"

function slow_update :: "(sha_ctx \<Rightarrow> byte list \<Rightarrow> sha_ctx) \<Rightarrow> sha_ctx \<Rightarrow> byte list \<Rightarrow> sha_ctx option" where
  "slow_update G sc data =
     (if data = [] then Some sc
      else if 64 < bufferLength sc then None
      else (case fill G sc data of (sc', data') \<Rightarrow> slow_update G sc' data'))"
  by pat_completeness auto
termination
  by (relation "measures [\<lambda>(G, sc, data). length data, \<lambda>(G, sc, data). bufferLength sc]")
     (auto simp: fill_def Let_def split: if_splits)

declare slow_update.simps [simp del]

function fast_blocks :: "(sha_ctx \<Rightarrow> byte list \<Rightarrow> sha_ctx) \<Rightarrow> sha_ctx \<Rightarrow> byte list \<Rightarrow> sha_ctx \<times> byte list" where
  "fast_blocks G sc data =
     (if 63 < length data then fast_blocks G (G (sc\<lparr>totalLength := totalLength sc + 512\<rparr>) (take 64 data)) (drop 64 data)
      else (sc, data))"
  by pat_completeness auto
termination
  by (relation "measure (\<lambda>(G, sc, data). length data)") auto

declare fast_blocks.simps [simp del]

definition fast_update :: "(sha_ctx \<Rightarrow> byte list \<Rightarrow> sha_ctx) \<Rightarrow> sha_ctx \<Rightarrow> byte list \<Rightarrow> sha_ctx option" where
  "fast_update G sc data =
     (if 64 < bufferLength sc then None
      else let (sc, data) = (if bufferLength sc \<noteq> 0 then fill G sc data else (sc, data));
               (sc, data) = fast_blocks G sc data
           in if data = [] then Some sc
              else if 64 < bufferLength sc + length data then None
              else Some (sc\<lparr>buffer_bytes := take (bufferLength sc) (buffer_bytes sc) @ data @ drop (bufferLength sc + length data) (buffer_bytes sc),
                    totalLength := totalLength sc + of_nat (length data) * 8, bufferLength := bufferLength sc + length data\<rparr>))"

definition build_init :: "bool \<Rightarrow> build \<Rightarrow> build_ctx \<Rightarrow> build_ctx" where
  "build_init little b c = c\<lparr>littleEndian := (if runtime_endian b then setEndian little else littleEndian c), ctx := sha256_init (ctx c)\<rparr>"

definition build_update :: "bool \<Rightarrow> build \<Rightarrow> build_ctx \<Rightarrow> byte list \<Rightarrow> build_ctx option" where
  "build_update little b c data =
     map_option (\<lambda>sc. c\<lparr>ctx := sc\<rparr>)
       ((if fast_copy b then fast_update else slow_update) (guts b little (littleEndian c)) (ctx c) data)"

definition build_final :: "bool \<Rightarrow> build \<Rightarrow> build_ctx \<Rightarrow> (byte list \<times> build_ctx) option" where
  "build_final little b c =
     (let bytesToPad = 120 - bufferLength (ctx c);
          bytesToPad = (if 64 < bytesToPad then bytesToPad - 64 else bytesToPad);
          lengthPad = byteswap64 b (littleEndian c) (totalLength (ctx c))
      in Option.bind (build_update little b c (take bytesToPad padding)) (\<lambda>c.
         Option.bind (build_update little b c (mem_bytes64 little lengthPad)) (\<lambda>c.
         Some (concat (map (\<lambda>w. if fast_copy b then mem_bytes little (byteswap b (littleEndian c) w) else hash_bytes w) (hash (ctx c))), c))))"

text \<open>The bytes of the stack that \<open>burnStack\<close> clears: a buffer in each of its frames.\<close>

function burnStack :: "int \<Rightarrow> nat" where
  "burnStack n = 128 + (let n = n - 128 in if 0 < n then burnStack n else 0)"
  by pat_completeness auto
termination
  by (relation "measure nat") auto

declare burnStack.simps [simp del]

subsection \<open>The test program\<close>

definition hex_digit :: "nat \<Rightarrow> char" where
  "hex_digit d = ''0123456789abcdef'' ! d"

text \<open>\<open>printf ("%02x", b)\<close>\<close>

definition hex2 :: "byte \<Rightarrow> string" where
  "hex2 b = [hex_digit (unat b div 16), hex_digit (unat b mod 16)]"

text \<open>The loop over the digest, with the bytes still to print.\<close>

fun print_hash :: "nat \<Rightarrow> byte list \<Rightarrow> string" where
  "print_hash i [] = [CHR 0x0A]"
| "print_hash i (b # bs) = hex2 b @ (let i = i + 1 in (if i mod 4 = 0 then '' '' else []) @ print_hash i bs)"

fun update_times :: "nat \<Rightarrow> bool \<Rightarrow> build \<Rightarrow> build_ctx \<Rightarrow> byte list \<Rightarrow> build_ctx option" where
  "update_times 0 little b c buf = Some c"
| "update_times (Suc i) little b c buf = Option.bind (build_update little b c buf) (\<lambda>c. update_times i little b c buf)"

definition test_abc :: "byte list" where
  "test_abc = [0x61, 0x62, 0x63]"

definition test_nopq :: "byte list" where
  "test_nopq = map of_char ''abcdbcdecdefdefgefghfghighijhijkijkljklmklmnlmnomnopnopq''"

text \<open>The three parts of \<open>main\<close> go on with the same context.\<close>

definition sha256_test :: "bool \<Rightarrow> build \<Rightarrow> build_ctx \<Rightarrow> string option" where
  "sha256_test little b foo =
     Option.bind (build_update little b (build_init little b foo) test_abc) (\<lambda>foo.
     Option.bind (build_final little b foo) (\<lambda>(hash1, foo).
     Option.bind (build_update little b (build_init little b foo) test_nopq) (\<lambda>foo.
     Option.bind (build_final little b foo) (\<lambda>(hash2, foo).
     Option.bind (update_times 1000 little b (build_init little b foo) (replicate 1000 0x61)) (\<lambda>foo.
     Option.bind (build_final little b foo) (\<lambda>(hash3, foo).
     Some (print_hash 0 hash1 @ print_hash 0 hash2 @ print_hash 0 hash3)))))))"

subsection \<open>The builds agree\<close>

text \<open>The makefile names a supported number of rounds, and where the byte order is not found out at run time it
  is that of the host.\<close>

definition build_ok :: "bool \<Rightarrow> build \<Rightarrow> bool" where
  "build_ok little b \<longleftrightarrow> turns (unroll b) \<noteq> None \<and> (runtime_endian b \<or> words_bigendian b = (\<not> little))"

definition flag_ok :: "bool \<Rightarrow> build \<Rightarrow> int \<Rightarrow> bool" where
  "flag_ok little b flag \<longleftrightarrow> (runtime_endian b \<longrightarrow> flag = setEndian little)"

lemma setEndian_little: "setEndian little \<noteq> 0 \<longleftrightarrow> little"
proof -
  have "setEndian True = 1" "setEndian False = 0" by code_simp+
  then show ?thesis by (cases little) simp_all
qed

lemma swaps_little: "build_ok little b \<Longrightarrow> flag_ok little b flag \<Longrightarrow> swaps b flag \<longleftrightarrow> little"
  using setEndian_little by (auto simp: build_ok_def flag_ok_def swaps_def)

lemma do_rounds_foldl: "do_rounds u p buf v = foldl (\<lambda>v t. DO_ROUND v (K ! t) (buf ! t)) v [p..<p + u]"
proof (induction u arbitrary: p v)
  case (Suc u)
  have "[p..<p + Suc u] = p # [p + 1..<p + 1 + u]" by (simp add: upt_conv_Cons)
  then show ?case using Suc.IH by (simp del: upt_Suc)
qed simp

lemma round_turns_foldl: "round_turns u n p buf v = foldl (\<lambda>v t. DO_ROUND v (K ! t) (buf ! t)) v [p..<p + u * n]"
proof (induction n arbitrary: p v)
  case (Suc n)
  have "[p..<p + u * Suc n] = [p..<p + u] @ [p + u..<p + u + u * n]"
    using upt_add_eq_append[of p "p + u" "u * n"] by (simp add: add.assoc)
  then show ?case using Suc.IH by (simp add: do_rounds_foldl)
qed simp

lemma round_loop_turns: "round_loop n p buf v = round_turns 4 n p buf v"
  by (induction n arbitrary: p v) (simp_all add: numeral_eq_Suc)

lemma turns_64: "turns u = Some n \<Longrightarrow> u * n = 64"
  by (auto simp: turns_def split: if_splits)

lemma round_turns_loop:
  assumes "turns u = Some n" shows "round_turns u n 0 buf v = round_loop 16 0 buf v"
  using turns_64[OF assms] unfolding round_loop_turns round_turns_foldl by simp

definition hash_block :: "sha_ctx \<Rightarrow> byte list \<Rightarrow> sha_ctx" where
  "hash_block sc bytes = SHA256Guts sc (buffer_words bytes)"

lemma guts_Guts:
  assumes "build_ok little b" "flag_ok little b flag"
  shows "guts b little flag = hash_block"
proof (intro ext)
  fix sc bytes
  obtain n where n: "turns (unroll b) = Some n" using assms(1) by (auto simp: build_ok_def)
  have "map (byteswap b flag) (mem_words little bytes) = map BYTESWAP (buffer_words bytes)"
    using swaps_little[OF assms] by (cases little) (simp_all add: byteswap_def mem_words_def buffer_words_def swap_le32)
  then show "guts b little flag sc bytes = hash_block sc bytes"
    using round_turns_loop[OF n] n by (simp add: guts_def SHA256Guts_def hash_block_def)
qed

lemma fill_turn: "fill hash_block sc data = update_turn sc data"
  unfolding fill_def update_turn_def hash_block_def ..

lemma slow_is_update: "slow_update hash_block sc data = sha256_update sc data"
proof (induction sc data rule: sha256_update.induct)
  case (1 sc data)
  show ?case
    unfolding slow_update.simps[of _ sc data] sha256_update.simps[of sc data] fill_turn
    using 1 by (auto split: prod.split)
qed

lemma block_absorbed:
  assumes a: "absorbed sc m" and b: "length m mod 64 = 0" "length d = 64"
  shows "absorbed (hash_block (sc\<lparr>totalLength := totalLength sc + 512\<rparr>) d) (m @ d)"
proof -
  let ?sc = "sc\<lparr>totalLength := totalLength sc + 512\<rparr>"
  have h: "length (hash ?sc) = 8" using a by (simp add: absorbed_def digest_blocks_def digest_length)
  have q: "64 * (length m div 64) = length m" using b(1) by auto
  have "digest_blocks (m @ d) = fips_compress (digest_blocks m) d"
    using digest_step[of m d] b(2) q by simp
  moreover have "drop (64 * (length (m @ d) div 64)) (m @ d) = []" "length (m @ d) mod 64 = 0"
    using b q by auto
  moreover have "totalLength sc + 512 = of_nat (8 * length (m @ d))" using a b(2) by (simp add: absorbed_def algebra_simps)
  ultimately show ?thesis unfolding absorbed_def hash_block_def Guts_compress[OF h] using a b
    by (simp add: absorbed_def del: length_append drop_append)
qed

lemma fast_blocks_absorbs:
  "absorbed sc m \<Longrightarrow> length m mod 64 = 0 \<Longrightarrow> fast_blocks hash_block sc data = (sc', rest) \<Longrightarrow>
     \<exists>p. data = p @ rest \<and> length rest < 64 \<and> absorbed sc' (m @ p) \<and> length (m @ p) mod 64 = 0"
proof (induction "length data" arbitrary: sc m data rule: less_induct)
  case less
  show ?case
  proof (cases "63 < length data")
    case True
    let ?sc = "hash_block (sc\<lparr>totalLength := totalLength sc + 512\<rparr>) (take 64 data)"
    have l: "length (take 64 data) = 64" "length (drop 64 data) < length data" using True by simp_all
    have m: "length (m @ take 64 data) mod 64 = 0" using less.prems(2) l(1) by simp
    have r: "fast_blocks hash_block ?sc (drop 64 data) = (sc', rest)"
      using less.prems(3) True by (subst (asm) fast_blocks.simps) simp
    from less.hyps[OF l(2) block_absorbed[OF less.prems(1,2) l(1)] m r] obtain p where
      p: "drop 64 data = p @ rest" "length rest < 64" "absorbed sc' ((m @ take 64 data) @ p)"
        "length ((m @ take 64 data) @ p) mod 64 = 0" by (elim exE conjE)
    have "take 64 data @ drop 64 data = data" by (rule append_take_drop_id)
    then have "data = (take 64 data @ p) @ rest" unfolding p(1) append_assoc by (rule sym)
    moreover have "absorbed sc' (m @ (take 64 data @ p))" "length (m @ (take 64 data @ p)) mod 64 = 0" using p(3,4) by simp_all
    ultimately show ?thesis using p(2) by (intro exI[of _ "take 64 data @ p"] conjI)
  next
    case False
    then have "sc' = sc" "rest = data" using less.prems(3) by (simp_all add: fast_blocks.simps)
    then show ?thesis using less.prems(1,2) False by (intro exI[of _ "[]"]) simp
  qed
qed

lemma fill_absorbs:
  assumes a: "absorbed sc m" and f: "fill hash_block sc data = (sc', rest)"
  shows "\<exists>p. data = p @ rest \<and> absorbed sc' (m @ p) \<and> (rest = [] \<or> length (m @ p) mod 64 = 0)"
proof -
  define b n where "b = length m mod 64" and "n = min (64 - b) (length data)"
  have b: "bufferLength sc = b" "b < 64" using a by (simp_all add: absorbed_def b_def)
  have n: "n \<le> length data" "length (take n data) = n" "b + n \<le> 64" using b(2) by (auto simp: n_def)
  note ut = update_turn_eq[OF n_def[folded b(1)] refl]
  show ?thesis
  proof (cases "b + n = 64")
    case True
    then have t: "absorbed sc' (m @ take n data)" "rest = drop n data"
      using ut b(1) n f filled_block[OF a b_def, of "take n data"] by (auto simp: fill_turn)
    have "(length m + n) mod 64 = (b + n) mod 64" unfolding b_def by (simp add: mod_add_left_eq)
    then show ?thesis using t True n(2) by (intro exI[of _ "take n data"]) simp
  next
    case False
    then have "b + length (take n data) < 64" using n by linarith
    moreover have "drop n data = []" using False n b(2) by (auto simp: n_def)
    ultimately show ?thesis using ut b(1) n False f filled_rest[OF a b_def, of "take n data"]
      by (intro exI[of _ "take n data"]) (auto simp: fill_turn)
  qed
qed

lemma fast_update_absorbs:
  assumes a: "absorbed sc m" shows "\<exists>sc'. fast_update hash_block sc data = Some sc' \<and> absorbed sc' (m @ data)"
proof -
  have bl: "bufferLength sc = length m mod 64" "\<not> 64 < bufferLength sc"
    using a mod_less_divisor[of 64 "length m"] by (simp_all add: absorbed_def)
  obtain sc1 d1 where e1: "(if bufferLength sc \<noteq> 0 then fill hash_block sc data else (sc, data)) = (sc1, d1)" by (rule prod.exhaust)
  obtain sc2 d2 where e2: "fast_blocks hash_block sc1 d1 = (sc2, d2)" by (rule prod.exhaust)
  obtain p1 where p1: "data = p1 @ d1" "absorbed sc1 (m @ p1)" "d1 = [] \<or> length (m @ p1) mod 64 = 0"
  proof (cases "bufferLength sc = 0")
    case True
    then show ?thesis using that[of "[]"] e1 a bl(1) by simp
  next
    case False
    then have "fill hash_block sc data = (sc1, d1)" using e1 by simp
    from fill_absorbs[OF a this] show ?thesis using that by (elim exE conjE)
  qed
  obtain p where p: "data = p @ d2" "absorbed sc2 (m @ p)" "d2 = [] \<or> length (m @ p) mod 64 = 0" "length d2 < 64"
  proof (cases "d1 = []")
    case True
    then have "fast_blocks hash_block sc1 d1 = (sc1, [])" by (simp add: fast_blocks.simps[of _ _ "[]"])
    then show ?thesis using that[of p1] p1 True e2 by simp
  next
    case False
    then have "length (m @ p1) mod 64 = 0" using p1(3) by simp
    from fast_blocks_absorbs[OF p1(2) this e2] obtain q where
      "d1 = q @ d2" "length d2 < 64" "absorbed sc2 ((m @ p1) @ q)" "length ((m @ p1) @ q) mod 64 = 0" by (elim exE conjE)
    then show ?thesis using that[of "p1 @ q"] p1(1) by simp
  qed
  have u: "fast_update hash_block sc data = (if d2 = [] then Some sc2 else if 64 < bufferLength sc2 + length d2 then None else Some (filled sc2 d2))"
    using bl(2) unfolding fast_update_def Let_def e1 prod.case e2 filled_def by simp
  show ?thesis
  proof (cases "d2 = []")
    case True
    then show ?thesis using p(1,2) u by simp
  next
    case False
    then have z: "bufferLength sc2 = 0" "0 = length (m @ p) mod 64" using p(2,3) by (simp_all add: absorbed_def)
    have "absorbed (filled sc2 d2) (m @ data)" unfolding p(1) using filled_rest[OF p(2) z(2), of d2] p(4) by simp
    then show ?thesis using False p(4) z(1) u by simp
  qed
qed

definition build_absorbed :: "bool \<Rightarrow> build \<Rightarrow> build_ctx \<Rightarrow> byte list \<Rightarrow> bool" where
  "build_absorbed little b c m \<longleftrightarrow> flag_ok little b (littleEndian c) \<and> absorbed (ctx c) m"

lemma build_init_absorbs:
  "length (buffer_bytes (ctx c)) = 64 \<Longrightarrow> build_absorbed little b (build_init little b c) []"
  by (simp add: build_absorbed_def build_init_def flag_ok_def init_absorbs)

lemma build_update_absorbs:
  assumes "build_ok little b" "build_absorbed little b c m"
  shows "\<exists>c'. build_update little b c data = Some c' \<and> build_absorbed little b c' (m @ data)"
proof -
  have f: "flag_ok little b (littleEndian c)" "absorbed (ctx c) m" using assms(2) by (simp_all add: build_absorbed_def)
  obtain sc where "(if fast_copy b then fast_update else slow_update) hash_block (ctx c) data = Some sc" "absorbed sc (m @ data)"
    using fast_update_absorbs[OF f(2), of data] update_absorbs[OF f(2), of data] by (cases "fast_copy b") (auto simp: slow_is_update)
  then show ?thesis using f(1) by (auto simp: build_update_def guts_Guts[OF assms(1) f(1)] build_absorbed_def)
qed

lemma swapped_bytes: "rev (hash_bytes (BYTESWAP w)) = hash_bytes w"
  unfolding hash_bytes_def BYTESWAP_def ROTR_def ROTL_def rev.simps append.simps list.inject word8_bits
  by (simp add: bit_simps)

lemma bytes_of_64: "rev (bytes64 x) = be_bytes64 x"
  by (simp add: bytes64_def be_bytes64_def upt_8)

lemma build_final_absorbs:
  assumes ok: "build_ok little b" and a: "build_absorbed little b c m"
  shows "\<exists>c'. build_final little b c = Some (sha256_spec m, c') \<and> length (buffer_bytes (ctx c')) = 64"
proof -
  let ?sc = "ctx c"
  define p where "p = (if 64 < 120 - bufferLength ?sc then 120 - bufferLength ?sc - 64 else 120 - bufferLength ?sc)"
  have f: "flag_ok little b (littleEndian c)" and b: "bufferLength ?sc = length m mod 64" "totalLength ?sc = of_nat (8 * length m)"
    using a by (simp_all add: build_absorbed_def absorbed_def)
  have l: "mem_bytes64 little (byteswap64 b (littleEndian c) (totalLength ?sc)) = be_bytes64 (totalLength ?sc)"
    using swaps_little[OF ok f] by (simp add: mem_bytes64_def byteswap64_def bytes64_swap bytes_of_64)
  obtain c1 where c1: "build_update little b c (take p padding) = Some c1" "build_absorbed little b c1 (m @ take p padding)"
    using build_update_absorbs[OF ok a] by blast
  obtain c2 where c2: "build_update little b c1 (be_bytes64 (totalLength ?sc)) = Some c2"
      "build_absorbed little b c2 ((m @ take p padding) @ be_bytes64 (totalLength ?sc))"
    using build_update_absorbs[OF ok c1(2)] by blast
  have "fips_pad m = (m @ take p padding) @ be_bytes64 (totalLength ?sc)"
    using pad_bytes(1)[OF b(1) p_def] b(2) by simp
  then have h: "hash (ctx c2) = digest_blocks (fips_pad m)" "flag_ok little b (littleEndian c2)" "length (buffer_bytes (ctx c2)) = 64"
    using c2(2) by (simp_all add: build_absorbed_def absorbed_def)
  have "mem_bytes little (byteswap b (littleEndian c2) w) = hash_bytes w" for w
    using swaps_little[OF ok h(2)] by (simp add: mem_bytes_def byteswap_def swapped_bytes)
  then have w: "(if fast_copy b then mem_bytes little (byteswap b (littleEndian c2) w) else hash_bytes w) = hash_bytes w" for w by simp
  have "build_final little b c = Some (sha256_spec m, c2)"
    unfolding build_final_def Let_def p_def[symmetric] l c1(1) bind.simps c2(1) w h(1) sha256_spec_def ..
  then show ?thesis using h(3) by blast
qed

text \<open>Each build is a stream hash.\<close>

definition feed_build :: "bool \<Rightarrow> build \<Rightarrow> build_ctx \<Rightarrow> byte list list \<Rightarrow> build_ctx option" where
  "feed_build little b c ds = foldl (\<lambda>r d. Option.bind r (\<lambda>c. build_update little b c d)) (Some c) ds"

lemma build_stream_hash:
  "build_ok little b \<Longrightarrow> stream_hash (build_init little b) (build_update little b) (build_final little b)
     (\<lambda>c. length (buffer_bytes (ctx c)) = 64) (build_absorbed little b) sha256_spec"
  by unfold_locales (use build_init_absorbs build_update_absorbs build_final_absorbs in blast)+

text \<open>The build of the model of the makefiles is one of them.\<close>

definition make_build :: build where
  "make_build = \<lparr>unroll = 4, fast_copy = False, runtime_endian = False, words_bigendian = False\<rparr>"

lemma make_build_update: "map_option ctx (build_update True make_build c data) = sha256_update (ctx c) data"
proof -
  have g: "guts make_build True (littleEndian c) = hash_block"
    by (rule guts_Guts) (simp_all add: make_build_def build_ok_def turns_def flag_ok_def)
  show ?thesis by (simp add: build_update_def g slow_is_update[symmetric] option.map_comp comp_def)
    (simp add: make_build_def option.map_ident)
qed

lemma update_times_absorbs:
  "build_ok little b \<Longrightarrow> build_absorbed little b c m \<Longrightarrow>
     \<exists>c'. update_times n little b c buf = Some c' \<and> build_absorbed little b c' (m @ concat (replicate n buf))"
proof (induction n arbitrary: c m)
  case (Suc n)
  obtain c1 where "build_update little b c buf = Some c1" "build_absorbed little b c1 (m @ buf)"
    using build_update_absorbs[OF Suc.prems] by blast
  with Suc.IH[OF Suc.prems(1), of c1 "m @ buf"] show ?case by auto
qed simp

lemma concat_replicates: "concat (replicate n (replicate k x)) = replicate (n * k) x"
  by (induction n) (simp_all add: replicate_add)

text \<open>The clearing covers the variables of \<open>SHA256Guts\<close>, 74 words, six pointers and an \<open>int\<close>, and less than a frame more.\<close>

lemma burnStack_clears: "n \<le> int (burnStack n) \<and> (0 < n \<longrightarrow> int (burnStack n) < n + 128)"
proof (induction n rule: burnStack.induct)
  case (1 n)
  then show ?case by (subst (1 2) burnStack.simps) (auto simp: Let_def)
qed

definition any_build_ctx :: build_ctx where
  "any_build_ctx = \<lparr>ctx = any_ctx, littleEndian = 7\<rparr>"

subsection \<open>A test vector\<close>

lemma extend_schedule_add: "extend_schedule (m + n) k buf = extend_schedule n (k + m) (extend_schedule m k buf)"
  by (induction m arbitrary: k buf) simp_all

lemma round_loop_add: "round_loop (m + n) p buf v = round_loop n (p + 4 * m) buf (round_loop m p buf v)"
  by (induction m arbitrary: p v) (simp_all add: add.assoc)

text \<open>The padded message, its schedule and the state after every 16 rounds.\<close>

definition abc_block :: "byte list" where
  "abc_block = test_abc @ 0x80 # replicate 59 0 @ [0x18]"

definition abc_schedule :: "u32 list" where
  "abc_schedule = [0x61626380, 0x0, 0x0, 0x0, 0x0, 0x0, 0x0, 0x0, 0x0, 0x0, 0x0, 0x0,
    0x0, 0x0, 0x0, 0x18, 0x61626380, 0xf0000, 0x7da86405, 0x600003c6, 0x3e9d7b78, 0x183fc00, 0x12dcbfdb, 0xe2e2c38e,
    0xc8215c1a, 0xb73679a2, 0xe5bc3909, 0x32663c5b, 0x9d209d67, 0xec8726cb, 0x702138a4, 0xd3b7973b, 0x93f5997f, 0x3b68ba73, 0xaff4ffc1, 0xf10a5c62,
    0xa8b3996, 0x72af830a, 0x9409e33e, 0x24641522, 0x9f47bf94, 0xf0a64f5a, 0x3e246a79, 0x27333ba3, 0xc4763f2, 0x840abf27, 0x7a290d5d, 0x65c43da,
    0xfb3e89cb, 0xcc7617db, 0xb9e66c34, 0xa9993667, 0x84badedd, 0xc21462bc, 0x1487472c, 0xb20f7a99, 0xef57b9cd, 0xebe6b238, 0x9fe3095e, 0x78bc8d4b,
    0xa43fcf15, 0x668b2ff8, 0xeeaba2cc, 0x12b1edeb]"

lemma abc_words: "map BYTESWAP (buffer_words abc_block) = take 16 abc_schedule"
  by code_simp

lemma abc_extend:
  "extend_schedule 12 0 (take 16 abc_schedule) = take 28 abc_schedule"
  "extend_schedule 12 12 (take 28 abc_schedule) = take 40 abc_schedule"
  "extend_schedule 12 24 (take 40 abc_schedule) = take 52 abc_schedule"
  "extend_schedule 12 36 (take 52 abc_schedule) = take 64 abc_schedule"
  by code_simp+

lemma abc_rounds_0: "round_loop 4 0 abc_schedule
    (0x6a09e667, 0xbb67ae85, 0x3c6ef372, 0xa54ff53a, 0x510e527f, 0x9b05688c, 0x1f83d9ab, 0x5be0cd19) =
    (0xb0fa238e, 0xc0645fde, 0xd932eb16, 0x87912990, 0x7590dcd, 0xb92f20c, 0x745a48de, 0x1e578218)"
  by code_simp

lemma abc_rounds_1: "round_loop 4 16 abc_schedule
    (0xb0fa238e, 0xc0645fde, 0xd932eb16, 0x87912990, 0x7590dcd, 0xb92f20c, 0x745a48de, 0x1e578218) =
    (0x73b33bf5, 0xea992a22, 0xa0060b30, 0x363482c9, 0xba591112, 0x109ab3a, 0xade79437, 0x6112a3b7)"
  by code_simp

lemma abc_rounds_2: "round_loop 4 32 abc_schedule
    (0x73b33bf5, 0xea992a22, 0xa0060b30, 0x363482c9, 0xba591112, 0x109ab3a, 0xade79437, 0x6112a3b7) =
    (0x4172328d, 0xa14c14b0, 0x72ab4b91, 0x26628815, 0xfecf0bc6, 0xd57b94a9, 0xb7755da1, 0xa80f11f0)"
  by code_simp

lemma abc_rounds_3: "round_loop 4 48 abc_schedule
    (0x4172328d, 0xa14c14b0, 0x72ab4b91, 0x26628815, 0xfecf0bc6, 0xd57b94a9, 0xb7755da1, 0xa80f11f0) =
    (0x506e3058, 0xd39a2165, 0x4d24d6c, 0xb85e2ce9, 0x5ef50f24, 0xfb121210, 0x948d25b6, 0x961f4894)"
  by code_simp

definition abc_digest :: "byte list" where
  "abc_digest = [0xba, 0x78, 0x16, 0xbf, 0x8f, 0x1, 0xcf, 0xea, 0x41, 0x41, 0x40, 0xde, 0x5d, 0xae, 0x22, 0x23,
    0xb0, 0x3, 0x61, 0xa3, 0x96, 0x17, 0x7a, 0x9c, 0xb4, 0x10, 0xff, 0x61, 0xf2, 0x0, 0x15, 0xad]"

lemma abc_vector: "sha256_spec test_abc = abc_digest"
proof -
  let ?sc = "\<lparr>totalLength = 0, hash = hash0, bufferLength = 0, buffer_bytes = []\<rparr> :: sha_ctx"
  have "extend_schedule 48 0 (take 16 abc_schedule) = abc_schedule"
    using extend_schedule_add[of 12 36 0] extend_schedule_add[of 12 24 12] extend_schedule_add[of 12 12 24] abc_extend
    by (simp add: abc_schedule_def)
  moreover have "round_loop 16 0 abc_schedule (load_hash hash0) = (0x506e3058, 0xd39a2165, 0x4d24d6c, 0xb85e2ce9, 0x5ef50f24, 0xfb121210, 0x948d25b6, 0x961f4894)"
    using round_loop_add[of 4 12 0] round_loop_add[of 4 8 16] round_loop_add[of 4 4 32] abc_rounds_0 abc_rounds_1 abc_rounds_2 abc_rounds_3
    by (simp add: hash0_def load_hash_def)
  ultimately have "hash (SHA256Guts ?sc (buffer_words abc_block)) = add_hash hash0 (0x506e3058, 0xd39a2165, 0x4d24d6c, 0xb85e2ce9, 0x5ef50f24, 0xfb121210, 0x948d25b6, 0x961f4894)"
    unfolding SHA256Guts_def Let_def abc_words by simp
  then have c: "fips_compress hash0 abc_block = add_hash hash0 (0x506e3058, 0xd39a2165, 0x4d24d6c, 0xb85e2ce9, 0x5ef50f24, 0xfb121210, 0x948d25b6, 0x961f4894)"
    using Guts_compress[of ?sc abc_block] by (simp add: hash0_def)
  have p: "fips_pad test_abc = abc_block" "length abc_block div 64 = 1" "block abc_block 0 = abc_block" by code_simp+
  have "sha256_spec test_abc = concat (map hash_bytes (add_hash hash0 (0x506e3058, 0xd39a2165, 0x4d24d6c, 0xb85e2ce9, 0x5ef50f24, 0xfb121210, 0x948d25b6, 0x961f4894)))"
    by (simp add: sha256_spec_def digest_blocks_def p c)
  also have "\<dots> = abc_digest" by code_simp
  finally show ?thesis .
qed

text \<open>C5: every build of \<open>sha256.c\<close> (any supported \<open>SHA256_UNROLL\<close>, with or without \<open>SHA256_FAST_COPY\<close>, the byte
  order of the host given or found out at run time, on hosts of either order) computes the SHA-256 digest of the
  concatenation of the pieces it is fed.\<close>

theorem builds_agree:
  assumes "build_ok little b" "length (buffer_bytes (ctx c)) = 64"
  shows "\<exists>c'. Option.bind (feed_build little b (build_init little b c) ds) (build_final little b) = Some (sha256_spec (concat ds), c')"
  using stream_hash.digest_of_pieces[OF build_stream_hash[OF assms(1)] assms(2), of ds]
  by (simp add: stream_hash.feed_def[OF build_stream_hash[OF assms(1)]] feed_build_def)

text \<open>The digest of \<open>abc\<close>, on a big-endian host, is the one in the comment of the file.\<close>

theorem builds_agree_witness:
  "\<exists>c'. Option.bind (feed_build False \<lparr>unroll = 16, fast_copy = True, runtime_endian = True, words_bigendian = False\<rparr>
       (build_init False \<lparr>unroll = 16, fast_copy = True, runtime_endian = True, words_bigendian = False\<rparr> any_build_ctx) [[0x61], [0x62, 0x63]])
     (build_final False \<lparr>unroll = 16, fast_copy = True, runtime_endian = True, words_bigendian = False\<rparr>) = Some (abc_digest, c')"
  using builds_agree[of False "\<lparr>unroll = 16, fast_copy = True, runtime_endian = True, words_bigendian = False\<rparr>" any_build_ctx "[[0x61], [0x62, 0x63]]"] abc_vector
  by (simp add: test_abc_def build_ok_def turns_def any_build_ctx_def any_ctx_def)

text \<open>The first line of the output, as the comment has it but for the space at its end.\<close>

lemma abc_printed:
  "print_hash 0 (sha256_spec test_abc) = ''ba7816bf 8f01cfea 414140de 5dae2223 b00361a3 96177a9c b410ff61 f20015ad '' @ [CHR 0x0A]"
  unfolding abc_vector by code_simp

text \<open>The test program prints the digests of its three messages, whatever the build.\<close>

theorem test_program_prints:
  assumes ok: "build_ok little b" and l: "length (buffer_bytes (ctx foo)) = 64"
  shows "sha256_test little b foo =
    Some (concat (map (\<lambda>m. print_hash 0 (sha256_spec m)) [test_abc, test_nopq, replicate 1000000 0x61]))"
proof -
  note up = build_update_absorbs[OF ok build_init_absorbs, simplified]
  obtain f1 g1 where 1: "build_update little b (build_init little b foo) test_abc = Some f1"
      "build_final little b f1 = Some (sha256_spec test_abc, g1)" "length (buffer_bytes (ctx g1)) = 64"
    using up[OF l, of test_abc] build_final_absorbs[OF ok] by blast
  obtain f2 g2 where 2: "build_update little b (build_init little b g1) test_nopq = Some f2"
      "build_final little b f2 = Some (sha256_spec test_nopq, g2)" "length (buffer_bytes (ctx g2)) = 64"
    using up[OF 1(3), of test_nopq] build_final_absorbs[OF ok] by blast
  have "concat (replicate 1000 (replicate 1000 (0x61 :: byte))) = replicate 1000000 0x61"
    unfolding concat_replicates by (rule arg_cong[of _ _ "\<lambda>n. replicate n 0x61"]) simp
  then obtain f3 g3 where 3: "update_times 1000 little b (build_init little b g2) (replicate 1000 0x61) = Some f3"
      "build_final little b f3 = Some (sha256_spec (replicate 1000000 0x61), g3)"
    using update_times_absorbs[OF ok build_init_absorbs[OF 2(3)], of 1000 "replicate 1000 0x61"] build_final_absorbs[OF ok]
    unfolding append_Nil by metis
  show ?thesis unfolding sha256_test_def 1(1,2) 2(1,2) 3 bind.simps prod.case by simp
qed

end
