(* ===== verification/Radix.thy ===== *)
theory Radix
  imports CPrelude "HOL-Library.Multiset"
begin

text \<open>
  The radix tree of \<open>A6/handout/radix.c\<close>, a sorted bag of non-negative numbers, and the
  program around it. A node is a leaf when its \<open>bit_pos\<close> is 1 and an interior node otherwise;
  the union of the two is a datatype, and code that would use the wrong member is \<open>None\<close>. Bit
  positions are one-hot words. The counts of a leaf are natural numbers. What is allocated and
  released is counted, the allocator itself is modelled in its own theory.
\<close>

datatype rtree =
    Null
  | Leaf i32 nat nat
  | Interior i32 i32 rtree rtree

definition MAX_BITS :: i32 where
  "MAX_BITS = push_bit 30 1"

definition lower_bits :: "i32 \<Rightarrow> i32" where
  "lower_bits bit_pos = bit_pos - 1"

definition higher_bits :: "i32 \<Rightarrow> i32" where
  "higher_bits bit_pos = 0 - bit_pos - bit_pos"

definition not_lower_bits :: "i32 \<Rightarrow> i32" where
  "not_lower_bits bit_pos = NOT (lower_bits bit_pos)"

definition not_higher_bits :: "i32 \<Rightarrow> i32" where
  "not_higher_bits bit_pos = NOT (higher_bits bit_pos)"

definition bit_range :: "i32 \<Rightarrow> i32 \<Rightarrow> i32" where
  "bit_range bit_pos_high bit_pos_low = higher_bits bit_pos_low AND not_higher_bits bit_pos_high"

text \<open>The inner \<open>while\<close> loop of \<open>add_number\<close>; with no bit left it would not end.\<close>

function find_bit :: "i32 \<Rightarrow> i32 \<Rightarrow> i32 option" where
  "find_bit bit_pos diff =
     (if bit_pos = 0 then None
      else if bit_pos AND diff = 0 then find_bit (drop_bit 1 bit_pos) diff
      else Some bit_pos)"
  by pat_completeness auto

lemma unat_half: "unat (drop_bit 1 bp) = unat (bp :: i32) div 2"
  unfolding unat_drop_bit_eq by (simp add: drop_bit_eq_div)

lemma halved_less: "bp \<noteq> 0 \<Longrightarrow> unat (drop_bit 1 bp) < unat (bp :: i32)"
  unfolding unat_half by (rule div_less_dividend) (simp_all add: unat_gt_0)

termination find_bit
  by (relation "measure (\<lambda>(bp, diff). unat bp)") (use halved_less in \<open>auto simp del: One_nat_def\<close>)

declare find_bit.simps [simp del]

definition new_leaf :: "i32 \<Rightarrow> rtree" where
  "new_leaf number = Leaf number (if number AND 1 = 0 then 1 else 0) (if number AND 1 = 1 then 1 else 0)"

fun node_bit_pos :: "rtree \<Rightarrow> i32" where
  "node_bit_pos (Leaf number c0 c1) = 1"
| "node_bit_pos (Interior bit_pos number zero one) = bit_pos"
| "node_bit_pos Null = 0"

fun node_number :: "rtree \<Rightarrow> i32" where
  "node_number (Leaf number c0 c1) = number"
| "node_number (Interior bit_pos number zero one) = number"
| "node_number Null = 0"

text \<open>The loop of \<open>add_number\<close> from the pointer \<open>parent\<close> on, which leads to the tree
  \<open>t\<close>; the result is the tree it leads to afterwards. The recursion on a child stands for
  moving \<open>parent\<close> and going round the loop with half the bit position; after an interior node
  was put in, the next turn, if there is one, finds \<open>NULL\<close> and puts the leaf there.\<close>

function add_at :: "i32 \<Rightarrow> i32 \<Rightarrow> rtree \<Rightarrow> rtree option" where
  "add_at bit_pos number t =
     (if sint bit_pos < 1 then Some t
      else if t = Null then Some (new_leaf number)
      else
        let diff = (if sint (node_bit_pos t) < sint bit_pos
                    then bit_range bit_pos (node_bit_pos t) AND (number XOR node_number t) else 0)
        in if diff \<noteq> 0 then
             (case find_bit bit_pos diff of
                None \<Rightarrow> None
              | Some bit_pos' \<Rightarrow>
                  let child = (if sint (drop_bit 1 bit_pos') < 1 then Null else new_leaf number)
                  in if number AND bit_pos' = 0 then Some (Interior bit_pos' number child t)
                     else Some (Interior bit_pos' number t child))
           else
             let bit_pos = (if sint (node_bit_pos t) < sint bit_pos then node_bit_pos t else bit_pos)
             in case t of
                  Leaf n c0 c1 \<Rightarrow>
                    if 1 < sint bit_pos then None
                    else if number AND 1 \<noteq> 0 then Some (Leaf n c0 (c1 + 1))
                    else Some (Leaf n (c0 + 1) c1)
                | Interior b n zero one \<Rightarrow>
                    if \<not> 1 < sint bit_pos then None
                    else if bit_pos AND number \<noteq> 0
                    then map_option (Interior b n zero) (add_at (drop_bit 1 bit_pos) number one)
                    else map_option (\<lambda>zero'. Interior b n zero' one) (add_at (drop_bit 1 bit_pos) number zero)
                | Null \<Rightarrow> None)"
  by pat_completeness auto
termination
  by (relation "measure (\<lambda>(bp, n, t). size t)") auto

declare add_at.simps [simp del]

definition add_number :: "i32 \<Rightarrow> rtree \<Rightarrow> rtree option" where
  "add_number number tree = add_at MAX_BITS number tree"

text \<open>The two \<open>while\<close> loops of a leaf: up to \<open>room\<close> copies of \<open>v\<close>, \<open>count\<close> of them
  there. The result is what was put into the buffer, the room and the count left.\<close>

fun drain :: "i32 \<Rightarrow> nat \<Rightarrow> nat \<Rightarrow> i32 list \<times> nat \<times> nat" where
  "drain v (Suc room) (Suc cnt) = (let (vs, r, c) = drain v room cnt in (v # vs, r, c))"
| "drain v room cnt = ([], room, cnt)"

text \<open>\<open>take_numbers_2\<close>: the numbers put into the buffer, the room left, the number of nodes
  released and the tree the pointer leads to afterwards.\<close>

fun take_numbers_2 :: "rtree \<Rightarrow> nat \<Rightarrow> i32 list \<times> nat \<times> nat \<times> rtree" where
  "take_numbers_2 Null room = ([], room, 0, Null)"
| "take_numbers_2 (Leaf n c0 c1) room =
     (let (zs, room, c0) = drain (n AND NOT 1) room c0;
          (os, room, c1) = drain (n OR 1) room c1
      in if c0 = 0 \<and> c1 = 0 then (zs @ os, room, 1, Null) else (zs @ os, room, 0, Leaf n c0 c1))"
| "take_numbers_2 (Interior b n zero one) room =
     (let (zs, room, r0, zero) = take_numbers_2 zero room;
          (os, room, r1, one) = take_numbers_2 one room
      in if zero = Null \<and> one = Null then (zs @ os, room, r0 + r1 + 1, Null)
         else (zs @ os, room, r0 + r1, Interior b n zero one))"

definition take_numbers :: "nat \<Rightarrow> rtree \<Rightarrow> i32 list \<times> nat \<times> rtree" where
  "take_numbers max_nums tree = (let (taken, room, released, tree') = take_numbers_2 tree max_nums in (taken, released, tree'))"

text \<open>The number of nodes \<open>release_tree\<close> releases.\<close>

fun release_tree :: "rtree \<Rightarrow> nat" where
  "release_tree Null = 0"
| "release_tree (Leaf n c0 c1) = 1"
| "release_tree (Interior b n zero one) = release_tree zero + release_tree one + 1"

subsection \<open>The program\<close>

text \<open>The output loop: \<open>write_int_buffer\<close> is a system call that writes the first \<open>written n\<close>
  of the \<open>n\<close> numbers it is given; when it writes none the loop does not end. It is called with the
  same buffer every time.\<close>

function output_loop :: "(nat \<Rightarrow> nat) \<Rightarrow> i32 list \<Rightarrow> nat \<Rightarrow> i32 list option" where
  "output_loop written out_numbers to_write =
     (if to_write = 0 then Some []
      else if written to_write = 0 then None
      else map_option ((@) (take (min (written to_write) to_write) out_numbers))
             (output_loop written out_numbers (to_write - written to_write)))"
  by pat_completeness auto
termination
  by (relation "measure (\<lambda>(w, b, n). n)") auto

text \<open>The \<open>while (limit > 0)\<close> loop: the tree, the output and the nodes released.\<close>

function take_loop :: "(nat \<Rightarrow> nat) \<Rightarrow> int \<Rightarrow> rtree \<Rightarrow> (rtree \<times> i32 list \<times> nat) option" where
  "take_loop written limit tree =
     (if limit \<le> 0 then Some (tree, [], 0)
      else
        let take_max = (if limit < 2800 then limit else 2800);
            (out_numbers, released, tree') = take_numbers (nat take_max) tree;
            taken = length out_numbers
        in case output_loop written out_numbers taken of
             None \<Rightarrow> None
           | Some out \<Rightarrow>
               if taken = 0 then Some (tree', out, released)
               else map_option (\<lambda>(t, outs, r). (t, out @ outs, released + r))
                      (take_loop written (limit - int taken) tree'))"
  by pat_completeness auto
termination
  by (relation "measure (\<lambda>(w, limit, t). nat limit)") auto

declare output_loop.simps [simp del] take_loop.simps [simp del]

text \<open>The loop over the numbers read, and the program after the files are open: \<open>reads\<close> are the
  results of \<open>read_int_buffer\<close>, up to the first that is empty. At the end the tree is released.\<close>

fun process :: "(nat \<Rightarrow> nat) \<Rightarrow> i32 list \<Rightarrow> rtree \<Rightarrow> (rtree \<times> i32 list) option" where
  "process written [] tree = Some (tree, [])"
| "process written (x # xs) tree =
     (if sint x < 0 then
        (case take_loop written (sint (- x)) tree of
           None \<Rightarrow> None
         | Some (tree', out, released) \<Rightarrow> map_option (\<lambda>(t, outs). (t, out @ outs)) (process written xs tree'))
      else
        (case add_number x tree of
           None \<Rightarrow> None
         | Some tree' \<Rightarrow> process written xs tree'))"

fun radix_main :: "(nat \<Rightarrow> nat) \<Rightarrow> i32 list list \<Rightarrow> rtree \<Rightarrow> (rtree \<times> i32 list) option" where
  "radix_main written [] tree = Some (tree, [])"
| "radix_main written (numbers # reads) tree =
     (if numbers = [] then Some (tree, [])
      else (case process written numbers tree of
              None \<Rightarrow> None
            | Some (tree', out) \<Rightarrow> map_option (\<lambda>(t, outs). (t, out @ outs)) (radix_main written reads tree')))"

subsection \<open>Bit positions\<close>

definition agree :: "nat \<Rightarrow> i32 \<Rightarrow> i32 \<Rightarrow> bool" where
  "agree i x y \<longleftrightarrow> (\<forall>j \<ge> i. bit x j = bit y j)"

lemma bits_agree_trans: "agree i x y \<Longrightarrow> agree i y z \<Longrightarrow> agree i x z"
  by (simp add: agree_def)

lemma agree_sym: "agree i x y \<Longrightarrow> agree i y x"
  by (simp add: agree_def)

lemma bits_agree_mono: "agree i x y \<Longrightarrow> i \<le> j \<Longrightarrow> agree j x y"
  by (simp add: agree_def)

text \<open>The bit position number \<open>k\<close> is the word \<open>2 ^ k\<close>.\<close>

lemma sint_pos: "k < 31 \<Longrightarrow> sint ((2::i32) ^ k) = 2 ^ k"
proof -
  assume k: "k < 31"
  have lt: "(2::int) ^ k < 2 ^ 31" using k by (intro power_strict_increasing) auto
  have "bit ((2::i32) ^ k) k" using k by (simp add: bit_exp_iff)
  then have "(2::i32) ^ k \<noteq> 0" by auto
  then have "uint ((2::i32) ^ k) = 2 ^ k" by (intro uint_2p) (simp add: word_gt_0)
  then show ?thesis using lt by (simp add: sint_uint signed_take_bit_int_eq_self_iff order_trans[of _ 0])
qed

lemma pos_AND: "(2 ^ k AND x = 0) = (\<not> bit (x :: i32) k)" "(x AND 2 ^ k = 0) = (\<not> bit (x :: i32) k)"
  by (simp_all add: and.commute[of "2 ^ k"] and_exp_eq_0_iff_not_bit)

lemma pos_half: "drop_bit 1 ((2::i32) ^ k) = (if k = 0 then 0 else if k < 32 then 2 ^ (k - 1) else 0)"
  by (rule bit_word_eqI) (auto simp: bit_simps bit_exp_iff)

lemma higher_bits_pos: "higher_bits (2 ^ k) = NOT (mask (Suc k))"
proof -
  have "higher_bits (2 ^ k) = - (2 ^ Suc k)" by (simp add: higher_bits_def)
  then show ?thesis by (simp only: minus_exp_eq_not_mask)
qed

lemma bit_range_pos: "bit (bit_range (2 ^ h) (2 ^ k)) j = (j < 32 \<and> k < j \<and> j \<le> h)"
  by (auto simp: bit_range_def not_higher_bits_def higher_bits_pos bit_simps)

text \<open>The difference of two numbers between two positions.\<close>

lemma diff_zero:
  "(bit_range (2 ^ h) (2 ^ k) AND (x XOR y) = 0) = (\<forall>j. k < j \<and> j \<le> h \<longrightarrow> bit x j = bit y j)"
proof -
  have "(bit_range (2 ^ h) (2 ^ k) AND (x XOR y) = 0) = (\<forall>j. \<not> (j < 32 \<and> k < j \<and> j \<le> h \<and> bit x j \<noteq> bit y j))"
    by (auto simp: bit_eq_iff bit_range_pos bit_and_iff bit_xor_iff)
  then show ?thesis using bit_word32_beyond by (metis linorder_not_le)
qed

lemma find_bit_pos:
  "h < 31 \<Longrightarrow> bit d j \<Longrightarrow> j \<le> h \<Longrightarrow>
     \<exists>m \<le> h. find_bit (2 ^ h) d = Some (2 ^ m) \<and> bit d m \<and> (\<forall>i. m < i \<and> i \<le> h \<longrightarrow> \<not> bit d i)"
proof (induction h)
  case 0
  then show ?case using pos_AND(1)[of 0 d] by (subst find_bit.simps) simp
next
  case (Suc h)
  have nz: "(2::i32) ^ Suc h \<noteq> 0" using sint_pos[of "Suc h"] Suc.prems(1) by force
  show ?case
  proof (cases "bit d (Suc h)")
    case True
    then have "find_bit (2 ^ Suc h) d = Some (2 ^ Suc h)" using nz by (subst find_bit.simps) (simp add: pos_AND del: power_Suc)
    then show ?thesis using True by auto
  next
    case False
    then have j: "j \<le> h" using Suc.prems by (metis le_Suc_eq)
    have "find_bit (2 ^ Suc h) d = find_bit (2 ^ h) d"
      using False nz Suc.prems(1) pos_half[of "Suc h"] by (subst find_bit.simps) (simp add: pos_AND del: power_Suc)
    moreover obtain m where "m \<le> h" "find_bit (2 ^ h) d = Some (2 ^ m)" "bit d m" "\<forall>i. m < i \<and> i \<le> h \<longrightarrow> \<not> bit d i"
      using Suc.IH[OF _ Suc.prems(2) j] Suc.prems(1) by auto
    ultimately show ?thesis using False by (intro exI[of _ m]) (auto simp: le_Suc_eq)
  qed
qed


subsection \<open>The tree as a sorted bag\<close>

text \<open>A tree whose nodes branch below position \<open>i\<close> and whose numbers agree with \<open>r\<close> from
  there on.\<close>

fun wf_tree :: "nat \<Rightarrow> i32 \<Rightarrow> rtree \<Rightarrow> bool" where
  "wf_tree i r Null = True"
| "wf_tree i r (Leaf n c0 c1) = (1 \<le> i \<and> agree i n r)"
| "wf_tree i r (Interior b n zero one) =
     (\<exists>k. 0 < k \<and> k < i \<and> b = 2 ^ k \<and> agree i n r \<and>
        wf_tree k (n AND NOT (2 ^ k)) zero \<and> wf_tree k (n OR 2 ^ k) one)"

fun elems :: "rtree \<Rightarrow> i32 list" where
  "elems Null = []"
| "elems (Leaf n c0 c1) = replicate c0 (n AND NOT 1) @ replicate c1 (n OR 1)"
| "elems (Interior b n zero one) = elems zero @ elems one"

lemma bit_pos_iff: "bit ((2::i32) ^ k) j = (j = k \<and> k < 32)"
  by (auto simp: bit_exp_iff)

lemma bit_less_32: "bit (w :: i32) j \<Longrightarrow> j < 32"
  using bit_word32_beyond[of j w] by (meson not_less)

lemma bit_one: "bit (1::i32) j = (j = 0)"
  by (simp add: bit_1_iff)

lemma less_by_bit:
  assumes "\<forall>j > k. bit x j = bit y j" "\<not> bit x k" "bit (y :: i32) k"
  shows "x < y"
proof -
  have bits: "bit (unat w) j = bit w j" for w :: i32 and j
    using bit_word32_beyond[of j w] by (auto simp: bit_unsigned_iff)
  have "drop_bit (Suc k) (unat x) = drop_bit (Suc k) (unat y)"
    using assms(1) by (intro bit_eqI) (simp add: bit_drop_bit_eq bits)
  moreover have "take_bit (Suc k) (unat x) < 2 ^ k" "2 ^ k \<le> take_bit (Suc k) (unat y)"
    using assms(2,3) take_bit_nat_less_exp[of k "unat x"] by (simp_all add: take_bit_Suc_from_most bits)
  moreover define P where "P = push_bit (Suc k) (drop_bit (Suc k) (unat y))"
  moreover have "unat x = push_bit (Suc k) (drop_bit (Suc k) (unat x)) + take_bit (Suc k) (unat x)"
      "unat y = P + take_bit (Suc k) (unat y)" unfolding P_def by (rule bits_ident[symmetric])+
  ultimately have "unat x < unat y" by (simp only: P_def[symmetric])
  then show ?thesis by (simp add: word_less_nat_alt)
qed

lemma elems_agree: "wf_tree i r t \<Longrightarrow> x \<in> set (elems t) \<Longrightarrow> agree i x r"
proof (induction t arbitrary: i r)
  case (Leaf n c0 c1)
  then show ?case by (auto simp: agree_def bit_and_iff bit_or_iff bit_not_iff bit_one dest: bit_less_32)
next
  case (Interior b n zero one)
  then obtain k where k: "k < i" "agree i n r" "wf_tree k (n AND NOT (2 ^ k)) zero" "wf_tree k (n OR 2 ^ k) one" by auto
  have "agree k x (n AND NOT (2 ^ k)) \<or> agree k x (n OR 2 ^ k)"
    using Interior.IH(1)[OF k(3)] Interior.IH(2)[OF k(4)] Interior.prems(2) by auto
  then show ?case using k(1,2) by (auto simp: agree_def bit_and_iff bit_or_iff bit_not_iff bit_pos_iff dest: bit_less_32)
qed simp

lemma elems_sorted: "wf_tree i r t \<Longrightarrow> i \<le> 31 \<Longrightarrow> sorted (elems t)"
proof (induction t arbitrary: i r)
  case (Leaf n c0 c1)
  have "n AND NOT 1 < n OR 1" by (rule less_by_bit[of 0]) (auto simp: bit_and_iff bit_or_iff bit_not_iff bit_one dest: bit_less_32)
  then show ?case by (auto simp: sorted_append)
next
  case (Interior b n zero one)
  then obtain k where k: "k < i" "agree i n r" "wf_tree k (n AND NOT (2 ^ k)) zero" "wf_tree k (n OR 2 ^ k) one" by auto
  have "x \<le> y" if "x \<in> set (elems zero)" "y \<in> set (elems one)" for x y
    using elems_agree[OF k(3) that(1)] elems_agree[OF k(4) that(2)] k(1) Interior.prems(2)
    by (intro less_imp_le less_by_bit[of k]) (auto simp: agree_def bit_simps bit_pos_iff)
  then show ?case using Interior.IH(1)[OF k(3)] Interior.IH(2)[OF k(4)] k(1) Interior.prems(2)
    by (auto simp: sorted_append)
qed simp

lemma elems_new_leaf: "elems (new_leaf x) = [x]"
proof -
  have "x AND 1 = (if bit x 0 then 1 else 0)" by (rule bit_word_eqI) (auto simp: bit_and_iff bit_one intro!: gr0I)
  moreover have "bit x 0 \<Longrightarrow> x OR 1 = x" "\<not> bit x 0 \<Longrightarrow> x AND NOT 1 = x"
    by (rule bit_word_eqI, auto simp: bit_and_iff bit_or_iff bit_not_iff bit_one intro!: gr0I)+
  ultimately show ?thesis by (simp add: new_leaf_def)
qed

fun node_index :: "rtree \<Rightarrow> nat \<Rightarrow> bool" where
  "node_index Null k = False"
| "node_index (Leaf n c0 c1) k = (k = 0)"
| "node_index (Interior b n zero one) k = (b = 2 ^ k)"

lemma wf_index: "wf_tree i r t \<Longrightarrow> t \<noteq> Null \<Longrightarrow>
   \<exists>k < i. node_bit_pos t = 2 ^ k \<and> agree i (node_number t) r \<and> (\<forall>m r'. k < m \<longrightarrow> agree m (node_number t) r' \<longrightarrow> wf_tree m r' t)"
  by (cases t) (auto intro: exI[of _ 0])

text \<open>One turn at a node of position \<open>k\<close>: when the number differs from those of the node above
  \<open>k\<close>, a node for the highest difference is put in.\<close>

lemma turn_diff:
  assumes "t \<noteq> Null" "node_bit_pos t = 2 ^ k" "k < i" "i \<le> 31" "agree i x (node_number t)"
  shows "((if sint (node_bit_pos t) < sint ((2::i32) ^ (i - 1))
          then bit_range (2 ^ (i - 1)) (node_bit_pos t) AND (x XOR node_number t) else 0) = 0) = agree (Suc k) x (node_number t)"
proof -
  have s: "sint ((2::i32) ^ k) < sint ((2::i32) ^ (i - 1)) \<longleftrightarrow> k < i - 1"
    using assms(3,4) by (simp add: sint_pos)
  have "(\<forall>j. k < j \<and> j \<le> i - 1 \<longrightarrow> bit x j = bit (node_number t) j) = agree (Suc k) x (node_number t)"
  proof (rule iffI)
    assume a: "\<forall>j. k < j \<and> j \<le> i - 1 \<longrightarrow> bit x j = bit (node_number t) j"
    show "agree (Suc k) x (node_number t)"
      unfolding agree_def
    proof (intro allI impI)
      fix j assume "Suc k \<le> j"
      then show "bit x j = bit (node_number t) j"
        using a assms(5) by (cases "i \<le> j") (auto simp: agree_def)
    qed
  qed (auto simp: agree_def)
  then show ?thesis unfolding assms(2) s using assms(3)
    by (auto simp: diff_zero)
qed

lemma turn_inject:
  assumes t: "t \<noteq> Null" "node_bit_pos t = 2 ^ k" "k < i" "i \<le> 31" "agree i x (node_number t)"
    and d: "\<not> agree (Suc k) x (node_number t)"
  shows "\<exists>m. k < m \<and> m < i \<and> agree (Suc m) x (node_number t) \<and> bit x m \<noteq> bit (node_number t) m \<and>
     add_at (2 ^ (i - 1)) x t =
       Some (if bit x m then Interior (2 ^ m) x t (new_leaf x) else Interior (2 ^ m) x (new_leaf x) t)"
proof -
  let ?d = "bit_range (2 ^ (i - 1)) (node_bit_pos t) AND (x XOR node_number t)"
  have nz: "?d \<noteq> 0" "sint (node_bit_pos t) < sint ((2::i32) ^ (i - 1))"
    using turn_diff[OF t] d by (auto split: if_splits)
  then obtain j where j: "bit ?d j" by (auto simp: bit_eq_iff)
  then have "j \<le> i - 1" unfolding t(2) by (simp add: bit_and_iff bit_range_pos)
  moreover have "i - 1 < 31" using t(3,4) by simp
  ultimately obtain m where m: "m \<le> i - 1" "find_bit (2 ^ (i - 1)) ?d = Some (2 ^ m)" "bit ?d m"
      "\<forall>l. m < l \<and> l \<le> i - 1 \<longrightarrow> \<not> bit ?d l"
    using find_bit_pos[of "i - 1" ?d j] j by blast
  have bd: "bit ?d l = (l < 32 \<and> k < l \<and> l \<le> i - 1 \<and> bit x l \<noteq> bit (node_number t) l)" for l
    unfolding t(2) by (auto simp: bit_and_iff bit_xor_iff bit_range_pos)
  have km: "k < m" "m < i" "bit x m \<noteq> bit (node_number t) m" using m(1) m(3)[unfolded bd] t(3) by auto
  have "agree (Suc m) x (node_number t)"
    unfolding agree_def
  proof (intro allI impI)
    fix l assume "Suc m \<le> l"
    show "bit x l = bit (node_number t) l"
    proof (cases "i \<le> l")
      case True
      then show ?thesis using t(5) by (simp add: agree_def)
    next
      case False
      then show ?thesis using m(4)[unfolded bd, rule_format, of l] \<open>Suc m \<le> l\<close> km t(4) by auto
    qed
  qed
  moreover have "1 \<le> sint (drop_bit 1 ((2::i32) ^ m))" "1 \<le> sint ((2::i32) ^ (i - 1))"
    using km t(4) one_le_power[of "2::int" "m - 1"] one_le_power[of "2::int" "i - 1"]
    unfolding pos_half by (simp_all add: sint_pos)
  then have "(if sint (drop_bit 1 ((2::i32) ^ m)) < 1 then Null else new_leaf x) = new_leaf x"
      "(sint ((2::i32) ^ (i - 1)) < 1) = False" by (simp_all add: not_less)
  ultimately show ?thesis using km t(1) nz m(2)
    by (intro exI[of _ m]) (subst add_at.simps, simp only: Let_def if_False if_True option.case pos_AND simp_thms, simp)
qed


lemma turn_descend:
  assumes t: "t \<noteq> Null" "node_bit_pos t = 2 ^ k" "k < i" "i \<le> 31" "agree i x (node_number t)"
    and d: "agree (Suc k) x (node_number t)"
  shows "add_at (2 ^ (i - 1)) x t =
     (case t of
        Leaf n c0 c1 \<Rightarrow> if 0 < k then None else Some (if bit x 0 then Leaf n c0 (c1 + 1) else Leaf n (c0 + 1) c1)
      | Interior b n zero one \<Rightarrow>
          if k = 0 then None
          else if bit x k then map_option (Interior b n zero) (add_at (2 ^ (k - 1)) x one)
          else map_option (\<lambda>zero'. Interior b n zero' one) (add_at (2 ^ (k - 1)) x zero)
      | Null \<Rightarrow> None)"
proof -
  have s: "sint ((2::i32) ^ k) < sint ((2::i32) ^ (i - 1)) \<longleftrightarrow> k < i - 1"
    using t(3,4) by (simp add: sint_pos)
  have b: "(if sint (node_bit_pos t) < sint ((2::i32) ^ (i - 1)) then node_bit_pos t else 2 ^ (i - 1)) = 2 ^ k"
  proof (cases "k < i - 1")
    case False
    then have "i - 1 = k" using t(3) by simp
    then show ?thesis unfolding t(2) by simp
  next
    case True
    then show ?thesis unfolding t(2) s by simp
  qed
  have p1: "\<not> sint ((2::i32) ^ (i - 1)) < 1" using t(3,4) one_le_power[of "2::int" "i - 1"] by (simp add: sint_pos not_less)
  have p2: "1 < sint ((2::i32) ^ k) \<longleftrightarrow> 0 < k"
    using t(3,4) power_strict_increasing_iff[of "2::int" 0 k] by (simp add: sint_pos)
  have p3: "0 < k \<Longrightarrow> drop_bit 1 ((2::i32) ^ k) = 2 ^ (k - 1)" using t(3,4) unfolding pos_half by simp
  have p4: "x AND 1 \<noteq> 0 \<longleftrightarrow> bit x 0" using pos_AND(2)[of x 0] by simp
  note p = p1 p2 p3 p4
  show ?thesis
    using t(1) turn_diff[OF t] d b p by (subst add_at.simps) (simp add: pos_AND Let_def del: One_nat_def split: rtree.split)
qed

lemma add_at_diff:
  assumes w: "wf_tree i r t" "t \<noteq> Null" "i \<le> 31" "agree i x r"
    and k: "k < i" "node_bit_pos t = 2 ^ k" "agree i (node_number t) r"
      "\<forall>m r'. k < m \<longrightarrow> agree m (node_number t) r' \<longrightarrow> wf_tree m r' t"
    and d: "\<not> agree (Suc k) x (node_number t)"
  shows "\<exists>t'. add_at (2 ^ (i - 1)) x t = Some t' \<and> wf_tree i r t' \<and> mset (elems t') = add_mset x (mset (elems t))"
proof -
  have "agree i x (node_number t)" using w(4) k(3) by (simp add: agree_def)
  from turn_inject[OF w(2) k(2,1) w(3) this d] obtain m where m: "k < m" "m < i" "agree (Suc m) x (node_number t)"
      "bit x m \<noteq> bit (node_number t) m"
      "add_at (2 ^ (i - 1)) x t = Some (if bit x m then Interior (2 ^ m) x t (new_leaf x) else Interior (2 ^ m) x (new_leaf x) t)"
    by blast
  have ag: "agree m (node_number t) (if bit x m then x AND NOT (2 ^ m) else x OR 2 ^ m)"
    unfolding agree_def
  proof (intro allI impI)
    fix j assume j: "m \<le> j"
    show "bit (node_number t) j = bit (if bit x m then x AND NOT (2 ^ m) else x OR 2 ^ m) j"
    proof (cases "j = m")
      case True
      then show ?thesis using m(2,4) w(3) by (auto simp: bit_and_iff bit_or_iff bit_not_iff bit_pos_iff)
    next
      case False
      then have "bit x j = bit (node_number t) j" using j m(3) by (simp add: agree_def)
      then show ?thesis using False by (auto simp: bit_and_iff bit_or_iff bit_not_iff bit_pos_iff dest: bit_less_32)
    qed
  qed
  have al: "agree m x (if bit x m then x OR 2 ^ m else x AND NOT (2 ^ m))"
    unfolding agree_def
    by (auto simp: bit_and_iff bit_or_iff bit_not_iff bit_pos_iff dest: bit_less_32)
  have wt: "wf_tree m (if bit x m then x AND NOT (2 ^ m) else x OR 2 ^ m) t" using k(4) m(1) ag by blast
  have wl: "wf_tree m (if bit x m then x OR 2 ^ m else x AND NOT (2 ^ m)) (new_leaf x)"
    using al m(1) by (simp add: new_leaf_def del: if_split)
  show ?thesis
  proof (cases "bit x m")
    case True
    then have "wf_tree i r (Interior (2 ^ m) x t (new_leaf x))" using wt wl m w(4) by (auto simp del: elems.simps intro!: exI[of _ m])
    then show ?thesis using m(5) True by (simp add: elems_new_leaf)
  next
    case False
    then have "wf_tree i r (Interior (2 ^ m) x (new_leaf x) t)" using wt wl m w(4) by (auto intro!: exI[of _ m])
    then show ?thesis using m(5) False by (simp add: elems_new_leaf)
  qed
qed

lemma leaf_bits:
  assumes "agree (Suc 0) x n"
  shows "bit x 0 \<Longrightarrow> n OR 1 = x" "\<not> bit x 0 \<Longrightarrow> n AND NOT 1 = x"
proof -
  have a: "j \<noteq> 0 \<Longrightarrow> bit x j = bit n j" for j using assms by (simp add: agree_def)
  show "bit x 0 \<Longrightarrow> n OR 1 = x" "\<not> bit x 0 \<Longrightarrow> n AND NOT 1 = x"
    by (rule bit_word_eqI; case_tac "na = 0"; simp add: a bit_and_iff bit_or_iff bit_not_iff bit_one; fail)+
qed

lemma child_agree:
  assumes "agree (Suc k) x n" "k < 32"
  shows "bit x k \<Longrightarrow> agree k x (n OR 2 ^ k)" "\<not> bit x k \<Longrightarrow> agree k x (n AND NOT (2 ^ k))"
proof -
  have a: "k \<le> j \<Longrightarrow> j \<noteq> k \<Longrightarrow> bit x j = bit n j" for j using assms(1) by (simp add: agree_def)
  show "bit x k \<Longrightarrow> agree k x (n OR 2 ^ k)" "\<not> bit x k \<Longrightarrow> agree k x (n AND NOT (2 ^ k))"
    unfolding agree_def using a assms(2)
    by (auto simp: bit_and_iff bit_or_iff bit_not_iff bit_pos_iff dest: bit_less_32)
qed

lemma add_at_bag:
  "wf_tree i r t \<Longrightarrow> 1 \<le> i \<Longrightarrow> i \<le> 31 \<Longrightarrow> agree i x r \<Longrightarrow>
     \<exists>t'. add_at (2 ^ (i - 1)) x t = Some t' \<and> wf_tree i r t' \<and> mset (elems t') = add_mset x (mset (elems t))"
proof (induction t arbitrary: i r)
  case Null
  then have "\<not> sint ((2::i32) ^ (i - 1)) < 1" by (simp add: sint_pos not_less)
  then have "add_at (2 ^ (i - 1)) x Null = Some (new_leaf x)" by (subst add_at.simps) simp
  moreover have "wf_tree i r (new_leaf x)" using Null by (simp add: new_leaf_def)
  ultimately show ?case using elems_new_leaf[of x] by auto
next
  case (Leaf n c0 c1)
  let ?t = "Leaf n c0 c1"
  have a: "agree i x n" using Leaf.prems by (simp add: agree_def)
  show ?case
  proof (cases "agree (Suc 0) x n")
    case True
    have "add_at (2 ^ (i - 1)) x ?t = Some (if bit x 0 then Leaf n c0 (c1 + 1) else Leaf n (c0 + 1) c1)"
      using turn_descend[of ?t 0 i x] True Leaf.prems a by simp
    then show ?thesis using leaf_bits[OF True] Leaf.prems by simp
  next
    case False
    have "0 < i" "node_bit_pos ?t = 2 ^ 0" "agree i (node_number ?t) r"
        "\<forall>m r'. 0 < m \<longrightarrow> agree m (node_number ?t) r' \<longrightarrow> wf_tree m r' ?t" "\<not> agree (Suc 0) x (node_number ?t)"
      using Leaf.prems False by simp_all
    then show ?thesis using Leaf.prems by (intro add_at_diff[where k = 0]) simp_all
  qed
next
  case (Interior b n zero one)
  let ?t = "Interior b n zero one"
  obtain k where k: "0 < k" "k < i" "b = 2 ^ k" "agree i n r" "wf_tree k (n AND NOT (2 ^ k)) zero" "wf_tree k (n OR 2 ^ k) one"
    using Interior.prems(1) by auto
  have a: "agree i x n" using Interior.prems(4) k(4) by (simp add: agree_def)
  show ?case
  proof (cases "agree (Suc k) x n")
    case True
    have d: "add_at (2 ^ (i - 1)) x ?t = (if bit x k then map_option (Interior b n zero) (add_at (2 ^ (k - 1)) x one)
          else map_option (\<lambda>zero'. Interior b n zero' one) (add_at (2 ^ (k - 1)) x zero))"
      using turn_descend[of ?t k i x] True Interior.prems a k(1,2,3) by simp
    have k': "1 \<le> k" "k \<le> 31" "k < 32" using k(1,2) Interior.prems(3) by auto
    show ?thesis
    proof (cases "bit x k")
      case b: True
      obtain t' where t': "add_at (2 ^ (k - 1)) x one = Some t'" "wf_tree k (n OR 2 ^ k) t'" "mset (elems t') = add_mset x (mset (elems one))"
        using Interior.IH(2)[OF k(6) k'(1,2) child_agree(1)[OF True k'(3) b]] by blast
      then have "wf_tree i r (Interior b n zero t')" using k by auto
      then show ?thesis using d b t' by simp
    next
      case b: False
      obtain t' where t': "add_at (2 ^ (k - 1)) x zero = Some t'" "wf_tree k (n AND NOT (2 ^ k)) t'" "mset (elems t') = add_mset x (mset (elems zero))"
        using Interior.IH(1)[OF k(5) k'(1,2) child_agree(2)[OF True k'(3) b]] by blast
      then have "wf_tree i r (Interior b n t' one)" using k by auto
      then show ?thesis using d b t' by simp
    qed
  next
    case False
    have "wf_tree m r' ?t" if "k < m" "agree m n r'" for m r'
      using that k by auto
    then have "node_bit_pos ?t = 2 ^ k" "agree i (node_number ?t) r"
        "\<forall>m r'. k < m \<longrightarrow> agree m (node_number ?t) r' \<longrightarrow> wf_tree m r' ?t" "\<not> agree (Suc k) x (node_number ?t)"
      using k False by simp_all
    then show ?thesis using Interior.prems k(2) by (intro add_at_diff[where k = k]) simp_all
  qed
qed

text \<open>No node is left without numbers.\<close>

fun compact :: "rtree \<Rightarrow> bool" where
  "compact Null = True"
| "compact (Leaf n c0 c1) = (0 < c0 + c1)"
| "compact (Interior b n zero one) = (compact zero \<and> compact one \<and> \<not> (zero = Null \<and> one = Null))"

lemma compact_empty: "compact t \<Longrightarrow> elems t = [] \<Longrightarrow> t = Null"
  by (induction t) auto

lemma compact_leaf: "compact (new_leaf x)" "new_leaf x \<noteq> Null"
proof -
  have "x AND 1 = (if bit x 0 then 1 else 0)"
    by (rule bit_word_eqI) (auto simp: bit_and_iff bit_one intro!: gr0I)
  then show "compact (new_leaf x)" by (simp add: new_leaf_def)
qed (simp add: new_leaf_def)

text \<open>The shapes of the result of a turn.\<close>

definition turn_result :: "i32 \<Rightarrow> rtree \<Rightarrow> rtree \<Rightarrow> bool" where
  "turn_result x t t' \<longleftrightarrow>
     (\<exists>m. t' = Interior m x Null t \<or> t' = Interior m x t Null \<or>
        t' = Interior m x (new_leaf x) t \<or> t' = Interior m x t (new_leaf x)) \<or>
     (case t of
        Null \<Rightarrow> False
      | Leaf n c0 c1 \<Rightarrow> t' = Leaf n c0 (c1 + 1) \<or> t' = Leaf n (c0 + 1) c1
      | Interior b n zero one \<Rightarrow>
          (\<exists>bp u. add_at bp x one = Some u \<and> t' = Interior b n zero u) \<or>
          (\<exists>bp u. add_at bp x zero = Some u \<and> t' = Interior b n u one))"

lemma turn_result_inject [simp]:
  "turn_result x t (Interior m x Null t)" "turn_result x t (Interior m x (new_leaf x) t)"
  "turn_result x t (Interior m x t Null)" "turn_result x t (Interior m x t (new_leaf x))"
  by (auto simp: turn_result_def)

lemma add_at_turn:
  assumes "add_at bp x t = Some t'" "t \<noteq> Null" "\<not> sint bp < 1"
  shows "turn_result x t t'"
proof -
  define diff where "diff = (if sint (node_bit_pos t) < sint bp
      then bit_range bp (node_bit_pos t) AND (x XOR node_number t) else 0)"
  define bp' where "bp' = (if sint (node_bit_pos t) < sint bp then node_bit_pos t else bp)"
  note eq = assms(1)[unfolded add_at.simps[of bp x t] if_not_P[OF assms(3)] if_not_P[OF assms(2)] diff_def[symmetric] bp'_def[symmetric] Let_def]
  show ?thesis
  proof (cases "diff = 0")
    case False
    then show ?thesis using eq
      by (cases "find_bit bp diff")
         (simp_all only: if_P not_False_eq_True simp_thms option.case option.inject option.distinct split: if_split_asm, auto)
  next
    case True
    then show ?thesis using eq assms(2)
      by (cases t) (auto simp: turn_result_def split: if_split_asm)
  qed
qed

lemma add_at_compact: "add_at bp x t = Some t' \<Longrightarrow> compact t \<Longrightarrow> compact t' \<and> (t' = Null \<longrightarrow> t = Null)"
proof (induction t arbitrary: bp t')
  case Null
  then show ?case by (subst (asm) add_at.simps) (auto simp: compact_leaf split: if_splits)
next
  case (Leaf n c0 c1)
  show ?case
  proof (cases "sint bp < 1")
    case True
    then show ?thesis using Leaf by (simp add: add_at.simps)
  next
    case False
    then show ?thesis using add_at_turn[OF Leaf.prems(1)] Leaf.prems(2) by (auto simp: turn_result_def compact_leaf)
  qed
next
  case (Interior b n zero one)
  show ?case
  proof (cases "sint bp < 1")
    case True
    then show ?thesis using Interior.prems by (simp add: add_at.simps)
  next
    case False
    then show ?thesis using add_at_turn[OF Interior.prems(1)] Interior.prems(2)
      by (auto simp: turn_result_def compact_leaf dest!: Interior.IH)
  qed
qed

lemma drain_eq: "drain v room cnt = (replicate (min room cnt) v, room - cnt, cnt - room)"
  by (induction v room cnt rule: drain.induct) auto

lemma take_numbers_2_elems:
  "take_numbers_2 t room = (taken, room', released, t') \<Longrightarrow>
     taken = take room (elems t) \<and> elems t' = drop room (elems t) \<and> room' = room - length (elems t) \<and>
     (compact t \<longrightarrow> compact t') \<and> release_tree t = released + release_tree t' \<and> (wf_tree i r t \<longrightarrow> wf_tree i r t')"
proof (induction t arbitrary: room taken room' released t' i r)
  case (Leaf n c0 c1)
  then show ?case by (auto simp: drain_eq Let_def min_def take_append split: if_splits)
next
  case (Interior b n zero one)
  obtain zs room1 r0 z' where z: "take_numbers_2 zero room = (zs, room1, r0, z')"
    by (cases "take_numbers_2 zero room") auto
  obtain os room2 r1 o' where o: "take_numbers_2 one room1 = (os, room2, r1, o')"
    by (cases "take_numbers_2 one room1") auto
  have eq: "(taken, room', released, t') = (if z' = Null \<and> o' = Null then (zs @ os, room2, r0 + r1 + 1, Null)
      else (zs @ os, room2, r0 + r1, Interior b n z' o'))"
    using Interior.prems by (simp add: z o)
  show ?case using eq Interior.IH(1)[OF z] Interior.IH(2)[OF o]
    by (auto split: if_splits)
qed simp

definition bag_inv :: "rtree \<Rightarrow> bool" where
  "bag_inv t \<longleftrightarrow> wf_tree 31 0 t \<and> compact t"

lemma nonneg_agree: "0 \<le> sint x \<Longrightarrow> agree 31 x 0"
proof -
  assume "0 \<le> sint x"
  then have n: "\<not> bit x 31" using bit_last_iff[of x] by simp
  have "\<not> bit x j" if "31 \<le> j" for j
    using n that bit_less_32[of x j] by (cases "j = 31") auto
  then show ?thesis by (simp add: agree_def)
qed

lemma add_number_bag:
  assumes "bag_inv t" "0 \<le> sint x"
  shows "\<exists>t'. add_number x t = Some t' \<and> bag_inv t' \<and> mset (elems t') = add_mset x (mset (elems t))"
proof -
  obtain t' where "add_at (2 ^ (31 - 1)) x t = Some t'" "wf_tree 31 0 t'" "mset (elems t') = add_mset x (mset (elems t))"
    using add_at_bag[of 31 0 t x] assms(1) nonneg_agree[OF assms(2)] unfolding bag_inv_def by auto
  then show ?thesis using add_at_compact[of "2 ^ (31 - 1)" x t t'] assms(1)
    by (simp add: add_number_def MAX_BITS_def bag_inv_def push_bit_eq_mult)
qed

lemma take_numbers_bag:
  assumes "bag_inv t" "take_numbers k t = (taken, released, t')"
  shows "taken = take k (elems t) \<and> elems t' = drop k (elems t) \<and> bag_inv t' \<and> release_tree t = released + release_tree t'"
  using assms take_numbers_2_elems[of t k taken _ released t' 31 0]
  by (auto simp: take_numbers_def bag_inv_def split: prod.splits)

subsection \<open>The interface\<close>

text \<open>A sorted bag, as the program uses it: putting an element in keeps the sorted content in
  order, taking gives the smallest elements.\<close>

locale sorted_bag =
  fixes put :: "'a::linorder \<Rightarrow> 't \<Rightarrow> 't option"
    and get :: "nat \<Rightarrow> 't \<Rightarrow> 'a list \<times> 't"
    and inv :: "'t \<Rightarrow> bool"
    and bag :: "'t \<Rightarrow> 'a list"
    and ok :: "'a \<Rightarrow> bool"
  assumes sorted_law: "inv t \<Longrightarrow> sorted (bag t)"
    and put_law: "inv t \<Longrightarrow> ok x \<Longrightarrow> \<exists>t'. put x t = Some t' \<and> inv t' \<and> mset (bag t') = add_mset x (mset (bag t))"
    and get_law: "inv t \<Longrightarrow> fst (get k t) = take k (bag t) \<and> bag (snd (get k t)) = drop k (bag t) \<and> inv (snd (get k t))"
begin

lemma put_insort:
  assumes "inv t" "ok x" shows "\<exists>t'. put x t = Some t' \<and> inv t' \<and> bag t' = insort x (bag t)"
proof -
  obtain t' where t': "put x t = Some t'" "inv t'" "mset (bag t') = add_mset x (mset (bag t))"
    using put_law[OF assms] by blast
  have "sort (bag t') = insort x (bag t)"
    by (rule properties_for_sort) (use t'(3) sorted_law[OF assms(1)] in \<open>simp_all add: sorted_insort\<close>)
  then show ?thesis using t' sorted_law[OF t'(2)] by (simp add: sorted_sort_id)
qed

fun put_all :: "'a list \<Rightarrow> 't \<Rightarrow> 't option" where
  "put_all [] t = Some t"
| "put_all (x # xs) t = Option.bind (put x t) (put_all xs)"

lemma put_all_sort:
  "inv t \<Longrightarrow> \<forall>x \<in> set xs. ok x \<Longrightarrow>
     \<exists>t'. put_all xs t = Some t' \<and> inv t' \<and> bag t' = sort (bag t @ xs)"
proof (induction xs arbitrary: t)
  case Nil
  then show ?case using sorted_law by (simp add: sorted_sort_id)
next
  case (Cons x xs)
  obtain t1 where t1: "put x t = Some t1" "inv t1" "bag t1 = insort x (bag t)"
    using put_insort[OF Cons.prems(1), of x] Cons.prems(2) by auto
  obtain t' where t': "put_all xs t1 = Some t'" "inv t'" "bag t' = sort (bag t1 @ xs)"
    using Cons.IH[OF t1(2)] Cons.prems(2) by auto
  have "sort (bag t1 @ xs) = sort (bag t @ x # xs)"
    by (rule properties_for_sort) (simp_all add: t1(3))
  then show ?case using t1 t' by auto
qed

end

fun add_numbers :: "i32 list \<Rightarrow> rtree \<Rightarrow> rtree option" where
  "add_numbers [] t = Some t"
| "add_numbers (x # xs) t = Option.bind (add_number x t) (add_numbers xs)"

interpretation radix: sorted_bag add_number "\<lambda>k t. (fst (take_numbers k t), snd (snd (take_numbers k t)))"
    bag_inv elems "\<lambda>x. 0 \<le> sint x"
  rewrites "sorted_bag.put_all add_number = add_numbers"
proof -
  let ?take = "\<lambda>k t. (fst (take_numbers k t), snd (snd (take_numbers k t)))"
  have sorted: "bag_inv t \<Longrightarrow> sorted (elems t)" for t
    using elems_sorted[of 31 0 t] by (simp add: bag_inv_def)
  have take: "bag_inv t \<Longrightarrow> fst (?take k t) = take k (elems t) \<and> elems (snd (?take k t)) = drop k (elems t)
      \<and> bag_inv (snd (?take k t))" for k t
    using take_numbers_bag[of t k] by (cases "take_numbers k t") auto
  show s: "sorted_bag add_number ?take bag_inv elems (\<lambda>x. 0 \<le> sint x)"
    by (rule sorted_bag.intro) (use sorted add_number_bag take in blast)+
  show "sorted_bag.put_all add_number = add_numbers"
  proof (intro ext)
    fix xs t show "sorted_bag.put_all add_number xs t = add_numbers xs t"
      by (induction xs arbitrary: t) (auto simp: sorted_bag.put_all.simps[OF s] split: bind_splits)
  qed
qed

subsection \<open>The program against a sorted list\<close>

text \<open>What the program is for: a non-negative number is put into a sorted list, a negative number
  \<open>-N\<close> takes the first \<open>N\<close> of it to the output.\<close>

fun list_process :: "i32 list \<Rightarrow> i32 list \<Rightarrow> i32 list \<times> i32 list" where
  "list_process [] s = (s, [])"
| "list_process (x # xs) s =
     (if sint x < 0
      then (let k = nat (sint (- x)); (s', out) = list_process xs (drop k s) in (s', take k s @ out))
      else list_process xs (insort x s))"

lemma output_all: "n = length xs \<Longrightarrow> output_loop (\<lambda>n. n) xs n = Some xs"
  by (cases xs) (simp_all add: output_loop.simps)

lemma take_loop_all:
  "bag_inv t \<Longrightarrow> \<exists>t' r. take_loop (\<lambda>n. n) limit t = Some (t', take (nat limit) (elems t), r) \<and>
     elems t' = drop (nat limit) (elems t) \<and> bag_inv t'"
proof (induction "nat limit" arbitrary: limit t rule: less_induct)
  case less
  show ?case
  proof (cases "limit \<le> 0")
    case True
    then show ?thesis using less.prems by (subst take_loop.simps) simp
  next
    case False
    define m where "m = nat (if limit < 2800 then limit else 2800)"
    obtain xs r t1 where t1: "take_numbers m t = (xs, r, t1)" by (cases "take_numbers m t") auto
    have b: "xs = take m (elems t)" "elems t1 = drop m (elems t)" "bag_inv t1"
      using take_numbers_bag[OF less.prems t1] by auto
    have m: "m \<le> nat limit" "0 < m" using False by (auto simp: m_def)
    have eq: "take_loop (\<lambda>n. n) limit t = (if length xs = 0 then Some (t1, xs, r)
        else map_option (\<lambda>(t, outs, r'). (t, xs @ outs, r + r')) (take_loop (\<lambda>n. n) (limit - int (length xs)) t1))"
      using False t1 by (subst take_loop.simps) (simp add: output_all m_def[symmetric])
    show ?thesis
    proof (cases "length xs = 0")
      case True
      then have "elems t = []" using b(1) m(2) by (auto simp: min_def split: if_splits)
      then show ?thesis using eq True b by simp
    next
      case False
      then have "nat (limit - int (length xs)) < nat limit" using \<open>\<not> limit \<le> 0\<close> by simp
      from less.hyps[OF this b(3)] obtain t' r' where t': "take_loop (\<lambda>n. n) (limit - int (length xs)) t1
          = Some (t', take (nat (limit - int (length xs))) (elems t1), r')"
          "elems t' = drop (nat (limit - int (length xs))) (elems t1)" "bag_inv t'" by blast
      have n: "nat (limit - int (length xs)) = nat limit - length xs" by simp
      have "xs @ take (nat limit - length xs) (elems t1) = take (nat limit) (elems t)"
          "drop (nat limit - length xs) (elems t1) = drop (nat limit) (elems t)"
        using b(1,2) m(1) by (cases "length (elems t) \<le> m"; simp add: take_add[symmetric, of m])+
      then show ?thesis using eq False t' unfolding n by auto
    qed
  qed
qed

lemma process_all:
  "bag_inv t \<Longrightarrow> \<exists>t'. process (\<lambda>n. n) xs t = Some (t', snd (list_process xs (elems t))) \<and>
     elems t' = fst (list_process xs (elems t)) \<and> bag_inv t'"
proof (induction xs arbitrary: t)
  case (Cons x xs)
  show ?case
  proof (cases "sint x < 0")
    case True
    obtain t1 r where t1: "take_loop (\<lambda>n. n) (sint (- x)) t = Some (t1, take (nat (sint (- x))) (elems t), r)"
        "elems t1 = drop (nat (sint (- x))) (elems t)" "bag_inv t1"
      using take_loop_all[OF Cons.prems, of "sint (- x)"] by blast
    then show ?thesis using Cons.IH[OF t1(3)] True by (auto simp: split_beta Let_def)
  next
    case False
    obtain t1 where "add_number x t = Some t1" "bag_inv t1" "elems t1 = insort x (elems t)"
      using radix.put_insort[OF Cons.prems, of x] False by auto
    then show ?thesis using Cons.IH[of t1] False by auto
  qed
qed simp

lemma list_process_append:
  "list_process (xs @ ys) s = (let (s1, o1) = list_process xs s; (s2, o2) = list_process ys s1 in (s2, o1 @ o2))"
  by (induction xs arbitrary: s) (auto simp: Let_def split: prod.splits)

lemma empty_bag: "bag_inv Null" "elems Null = []"
  by (simp_all add: bag_inv_def)

subsection \<open>Properties\<close>

text \<open>C12: \<open>add_number\<close> inserts: on a well-formed tree and a non-negative number it follows
  only pointers to nodes of the right kind, the inner loop finds a bit, and the tree is well
  formed again and holds the number at its place in the order.\<close>

theorem add_number_inserts:
  assumes "bag_inv t" and "0 \<le> sint x"
  shows "\<exists>t'. add_number x t = Some t' \<and> bag_inv t' \<and> elems t' = insort x (elems t)"
  using assms by (rule radix.put_insort)

theorem add_number_inserts_witness:
  "\<exists>t'. add_number 5 (new_leaf 7) = Some t' \<and> elems t' = [5, 7]"
proof -
  have "bag_inv (new_leaf 7)" by (simp add: bag_inv_def new_leaf_def nonneg_agree)
  then show ?thesis using add_number_inserts[of "new_leaf 7" 5] by (auto simp: elems_new_leaf)
qed

text \<open>C23: \<open>take_numbers\<close> takes the smallest: it fills the buffer with the first numbers in
  order, keeps the rest, releases exactly the nodes that have become empty, and leaves no node
  when it has taken all.\<close>

theorem take_numbers_takes_smallest:
  assumes "bag_inv t" and "take_numbers max_nums t = (taken, released, t')"
  shows "taken = take max_nums (elems t) \<and> elems t' = drop max_nums (elems t) \<and> sorted (taken @ elems t') \<and>
    bag_inv t' \<and> release_tree t = released + release_tree t' \<and> (length (elems t) \<le> max_nums \<longrightarrow> t' = Null)"
  using take_numbers_bag[OF assms] radix.sorted_law[OF assms(1)] compact_empty[of t'] by (auto simp: bag_inv_def)

theorem take_numbers_takes_smallest_witness:
  "take_numbers 3 (new_leaf 7) = ([7], 1, Null)"
proof -
  have "bag_inv (new_leaf 7)" by (simp add: bag_inv_def new_leaf_def nonneg_agree)
  moreover obtain taken r t' where t: "take_numbers 3 (new_leaf 7) = (taken, r, t')"
    by (cases "take_numbers 3 (new_leaf 7)") auto
  ultimately show ?thesis using take_numbers_takes_smallest[of "new_leaf 7" 3 taken r t']
    by (auto simp: elems_new_leaf, simp_all add: new_leaf_def)
qed

text \<open>Adding numbers and taking them all sorts them.\<close>

theorem radix_sorts:
  assumes "\<forall>x \<in> set xs. 0 \<le> sint x"
  shows "\<exists>t. add_numbers xs Null = Some t \<and> fst (take_numbers (length xs) t) = sort xs"
proof -
  obtain t where t: "add_numbers xs Null = Some t" "bag_inv t" "elems t = sort xs"
    using radix.put_all_sort[OF empty_bag(1) assms] by auto
  then show ?thesis using radix.get_law[OF t(2), of "length xs"] by simp
qed

theorem radix_sorts_witness:
  "\<exists>t. add_numbers [9, 3, 3, 4] Null = Some t \<and> fst (take_numbers 4 t) = [3, 3, 4, 9]"
proof -
  have "sort [9, 3, 3, 4 :: i32] = [3, 3, 4, 9]" "length [9, 3, 3, 4 :: i32] = 4" by simp_all
  then show ?thesis using radix_sorts[of "[9, 3, 3, 4]"] by (simp only:) simp
qed

text \<open>C24: the program, when every \<open>write_int_buffer\<close> writes all the numbers it is asked to
  (\<open>written = (\<lambda>n. n)\<close>; after a partial write \<open>output_loop\<close> would write the first numbers
  again), does on any sequence of non-empty reads what the sorted list does on their concatenation: the same output
  and the same content at the end, with no loop left running.\<close>

theorem radix_main_refines_list:
  assumes "[] \<notin> set reads"
  shows "\<exists>t. radix_main (\<lambda>n. n) reads Null = Some (t, snd (list_process (concat reads) [])) \<and>
    elems t = fst (list_process (concat reads) [])"
proof -
  have "\<exists>t'. radix_main (\<lambda>n. n) reads t = Some (t', snd (list_process (concat reads) (elems t))) \<and>
      elems t' = fst (list_process (concat reads) (elems t))" if "bag_inv t" for t
    using that assms
  proof (induction reads arbitrary: t)
    case (Cons numbers reads)
    obtain t1 where t1: "process (\<lambda>n. n) numbers t = Some (t1, snd (list_process numbers (elems t)))"
        "elems t1 = fst (list_process numbers (elems t))" "bag_inv t1"
      using process_all[OF Cons.prems(1)] by blast
    then show ?case using Cons.IH[OF t1(3)] Cons.prems(2) by (auto simp: list_process_append Let_def split: prod.splits)
  qed simp
  from this[OF empty_bag(1)] show ?thesis by simp
qed

theorem radix_main_refines_list_witness:
  "\<exists>t. radix_main (\<lambda>n. n) [[9, 3, 4, -2], [1, -1]] Null = Some (t, [3, 4, 1]) \<and> elems t = [9]"
  using radix_main_refines_list[of "[[9, 3, 4, -2], [1, -1]]"] by (auto simp: Let_def)

end
