(* ===== verification/LibC.thy ===== *)
theory LibC
  imports CPrelude
begin

text \<open>
  The run-time library of the simulated programs, \<open>A6/handout/lib.c\<close>: console input and
  output of strings and the conversions between numbers and decimal strings (the allocator is in
  \<open>Allocator\<close>). A string is the list of its bytes before the terminating zero.
\<close>

subsection \<open>Console\<close>

text \<open>\<open>inp\<close>: the system call of the simulator returns -1 at the end of the input, cut to a
  \<open>char\<close>.\<close>

definition inp :: "byte list \<Rightarrow> byte \<times> byte list" where
  "inp input = (case input of [] \<Rightarrow> (-1, []) | c # cs \<Rightarrow> (c, cs))"

fun print_string :: "byte list \<Rightarrow> byte list \<Rightarrow> byte list" where
  "print_string [] out = out"
| "print_string (c # p) out = print_string p (out @ [c])"

text \<open>The loop of \<open>read_string\<close>, with the character read last; the result is what is stored
  before the terminating zero and the input left.\<close>

fun read_loop :: "byte \<Rightarrow> nat \<Rightarrow> byte list \<Rightarrow> byte list \<times> byte list" where
  "read_loop c 0 input = ([], input)"
| "read_loop c (Suc left) input =
     (if c \<noteq> 0x0A \<and> c \<noteq> 0x0D then
        (let (c', input') = inp input; (cs, rest) = read_loop c' left input' in (c # cs, rest))
      else ([], input))"

definition read_string :: "int \<Rightarrow> byte list \<Rightarrow> byte list \<times> byte list" where
  "read_string max_chars input = (let (c, input') = inp input in read_loop c (nat (max_chars - 1)) input')"

subsection \<open>Numbers\<close>

definition ZERO :: byte where
  "ZERO = 0x30"

text \<open>\<open>*str - '0'\<close>; a \<open>char\<close> is signed.\<close>

definition digit_of :: "byte \<Rightarrow> u32" where
  "digit_of c = scast c - scast ZERO"

fun str_loop :: "u32 \<Rightarrow> byte list \<Rightarrow> u32" where
  "str_loop val [] = val"
| "str_loop val (c # str) = str_loop (val * 10 + digit_of c) str"

text \<open>The first character is read without a test: on the empty string the code goes on behind
  its end, \<open>None\<close>.\<close>

definition str_to_uns :: "byte list \<Rightarrow> u32 option" where
  "str_to_uns str = (case str of [] \<Rightarrow> None | c # cs \<Rightarrow> Some (str_loop (digit_of c) cs))"

function digits_loop :: "u32 \<Rightarrow> byte list" where
  "digits_loop val = (if val = 0 then [] else (ucast (val mod 10) + ZERO) # digits_loop (val div 10))"
  by pat_completeness auto
termination
proof (relation "measure unat")
  fix val :: u32 assume "val \<noteq> 0"
  then have "0 < unat val" by (simp add: unat_gt_0)
  then show "(val div 10, val) \<in> measure unat" by (simp add: unat_div)
qed simp

declare digits_loop.simps [simp del]

text \<open>The reversal: \<open>buffer\<close> and \<open>ptr\<close> as indices.\<close>

function reverse_loop :: "byte list \<Rightarrow> nat \<Rightarrow> nat \<Rightarrow> byte list" where
  "reverse_loop s buffer ptr =
     (if buffer < ptr then reverse_loop (s[ptr := s ! buffer, buffer := s ! ptr]) (buffer + 1) (ptr - 1) else s)"
  by pat_completeness auto
termination
  by (relation "measure (\<lambda>(s, b, p). p - b)") auto

declare reverse_loop.simps [simp del]

text \<open>The string written and the value returned.\<close>

definition uns_to_str :: "u32 \<Rightarrow> byte list \<times> int" where
  "uns_to_str val =
     (if val = 0 then ([ZERO], 1)
      else let s = digits_loop val; ptr = length s - 1; retval = int ptr
           in (reverse_loop s 0 ptr, retval))"

subsection \<open>Decimal strings\<close>

lemma reverse_loop_nth:
  "b + p + 1 = length s \<Longrightarrow> length (reverse_loop s b p) = length s \<and>
     (\<forall>i < length s. reverse_loop s b p ! i = (if min b p \<le> i \<and> i \<le> max b p \<and> b \<le> p then s ! (length s - 1 - i) else s ! i))"
proof (induction s b p rule: reverse_loop.induct)
  case (1 s b p)
  show ?case
  proof (cases "b < p")
    case False
    then have "b = p \<Longrightarrow> length s - Suc p = p" using 1(2) by simp
    then show ?thesis using False 1(2) by (auto simp: reverse_loop.simps)
  next
    case True
    let ?s = "s[p := s ! b, b := s ! p]"
    have IH: "length (reverse_loop ?s (b + 1) (p - 1)) = length ?s \<and>
       (\<forall>i < length ?s. reverse_loop ?s (b + 1) (p - 1) ! i =
          (if min (b + 1) (p - 1) \<le> i \<and> i \<le> max (b + 1) (p - 1) \<and> b + 1 \<le> p - 1 then ?s ! (length ?s - 1 - i) else ?s ! i))"
      by (rule 1(1)[OF True]) (use True 1(2) in auto)
    have n: "length s - 1 - b = p" "length s - 1 - p = b" "p < length s" "b < length s" using 1(2) by auto
    have "reverse_loop s b p = reverse_loop ?s (b + 1) (p - 1)" using True by (simp add: reverse_loop.simps)
    moreover have "reverse_loop ?s (b + 1) (p - 1) ! i = (if b \<le> i \<and> i \<le> p then s ! (length s - 1 - i) else s ! i)"
      if i: "i < length s" for i
    proof -
      consider "i = b" | "i = p" | "b < i" "i < p" | "i < b" | "p < i" by linarith
      then show ?thesis
      proof cases
        case 1
        then show ?thesis using IH i n True by (auto simp: nth_list_update)
      next
        case 2
        then show ?thesis using IH i n True by (auto simp: nth_list_update)
      next
        case 3
        then have "length s - 1 - i \<noteq> b" "length s - 1 - i \<noteq> p" "b + 1 \<le> p - 1" "b + 1 \<le> i" "i \<le> p - 1" "i \<noteq> b" "i \<noteq> p"
"i \<le> p"
          using 1(2) n i by linarith+
        then show ?thesis using IH i n by (simp add: nth_list_update)
      next
        case 4
        then show ?thesis using IH i n True by (auto simp: nth_list_update)
      next
        case 5
        then show ?thesis using IH i n True by (auto simp: nth_list_update)
      qed
    qed
    ultimately show ?thesis using IH True by simp
  qed
qed

lemma reverse_loop_rev: "s \<noteq> [] \<Longrightarrow> reverse_loop s 0 (length s - 1) = rev s"
  using reverse_loop_nth[of 0 "length s - 1" s] by (auto intro!: nth_equalityI simp: rev_nth)

lemma str_loop_append: "str_loop a (xs @ ys) = str_loop (str_loop a xs) ys"
  by (induction a xs rule: str_loop.induct) simp_all

lemma digit_of_digits: "list_all (\<lambda>n. digit_of (ucast (word_of_nat n :: u32) + ZERO) = word_of_nat n) [0..<10]"
  by code_simp

lemma digit_of_digit:
  assumes "v < 10"
  shows "digit_of (ucast v + ZERO) = v"
proof -
  have "unat v \<in> set [0..<10]" using assms by (simp add: word_less_nat_alt)
  then have "digit_of (ucast (word_of_nat (unat v) :: u32) + ZERO) = word_of_nat (unat v)"
    using digit_of_digits unfolding list_all_iff by blast
  then show ?thesis by simp
qed

lemma str_of_digits: "str_loop 0 (rev (digits_loop v)) = v"
proof (induction v rule: digits_loop.induct)
  case (1 v)
  show ?case
  proof (cases "v = 0")
    case False
    have "v mod 10 < 10" by (simp add: word_mod_less_divisor)
    then have "digit_of (ucast (v mod 10) + ZERO) = v mod 10" by (rule digit_of_digit)
    then show ?thesis using 1[OF False] False div_mult_mod_eq[of v 10]
      by (simp add: digits_loop.simps[of v] str_loop_append)
  qed (simp add: digits_loop.simps)
qed

lemma digits_nonempty: "v \<noteq> 0 \<Longrightarrow> digits_loop v \<noteq> []"
  by (simp add: digits_loop.simps)

text \<open>C25: numbers survive printing: reading the string that \<open>uns_to_str\<close> writes gives the
  number back, for every 32-bit number; the string is the digits reversed, and has a digit.\<close>

theorem decimal_roundtrip:
  "str_to_uns (fst (uns_to_str v)) = Some v"
proof (cases "v = 0")
  case True
  then show ?thesis by (simp add: uns_to_str_def str_to_uns_def digit_of_def)
next
  case False
  then obtain c cs where c: "rev (digits_loop v) = c # cs" using digits_nonempty[OF False]
    by (cases "rev (digits_loop v)") auto
  have "fst (uns_to_str v) = rev (digits_loop v)"
    using False reverse_loop_rev[OF digits_nonempty[OF False]] by (simp add: uns_to_str_def Let_def)
  then show ?thesis using c str_of_digits[of v] by (simp add: str_to_uns_def)
qed

subsection \<open>Reading a line\<close>

definition line_end :: "byte \<Rightarrow> bool" where
  "line_end c \<longleftrightarrow> c = 0x0A \<or> c = 0x0D"

lemma read_loop_line:
  "read_loop c left input = (s, rest) \<Longrightarrow> length s \<le> left \<and> (\<forall>d \<in> set s. \<not> line_end d) \<and>
     (length s \<le> length input \<longrightarrow> (\<exists>d. c # input = s @ d # rest \<and> (line_end d \<or> length s = left)))"
proof (induction c left input arbitrary: s rest rule: read_loop.induct)
  case (2 c left input)
  show ?case
  proof (cases "line_end c")
    case True
    then show ?thesis using 2(2) by (auto simp: line_end_def)
  next
    case False
    obtain c' input' where i: "inp input = (c', input')" by fastforce
    obtain cs r where r: "read_loop c' left input' = (cs, r)" by fastforce
    have s: "s = c # cs" "rest = r" using 2(2) False i r by (auto simp: line_end_def)
    have IH: "length cs \<le> left \<and> (\<forall>d \<in> set cs. \<not> line_end d) \<and>
        (length cs \<le> length input' \<longrightarrow> (\<exists>d. c' # input' = cs @ d # r \<and> (line_end d \<or> length cs = left)))"
      using 2(1)[OF _ i[symmetric] refl r] False unfolding line_end_def by blast
    show ?thesis
    proof (cases input)
      case Nil
      then show ?thesis using IH False s by simp
    next
      case (Cons a as)
      then have "c' # input' = input" using i by (simp add: inp_def)
      then have "length s \<le> length input \<longrightarrow> (\<exists>d. c # input = s @ d # rest \<and> (line_end d \<or> length s = Suc left))"
        using IH s by force
      then show ?thesis using IH False s(1) by simp
    qed
  qed
qed simp

text \<open>\<open>read_string\<close> stores at most \<open>max_chars - 1\<close> characters before the terminating zero,
  none of them a line end, and takes exactly one character more from the input than it stores: the
  line end, or the character on which the buffer was full.\<close>

theorem read_string_line:
  assumes "read_string max_chars input = (s, rest)"
  shows "int (length s) \<le> max 0 (max_chars - 1) \<and> (\<forall>d \<in> set s. \<not> line_end d) \<and>
    (length s < length input \<longrightarrow>
       (\<exists>d. input = s @ d # rest \<and> (line_end d \<or> int (length s) = max 0 (max_chars - 1))))"
proof -
  obtain c input' where i: "inp input = (c, input')" by fastforce
  then have r: "read_loop c (nat (max_chars - 1)) input' = (s, rest)" using assms by (simp add: read_string_def)
  note line = read_loop_line[OF r]
  have "c # input' = input" if "length s < length input" using that i by (cases input) (auto simp: inp_def)
  moreover have "length s \<le> length input'" if "length s < length input" using that i by (cases input) (auto simp: inp_def)
  moreover have "int (length s) = max 0 (max_chars - 1)" if "length s = nat (max_chars - 1)" using that by simp
  ultimately show ?thesis using line by fastforce
qed

lemma read_string_line_witness: "length (fst (read_string 3 [0x61, 0x62, 0x63, 0x0A])) \<le> 2"
  using read_string_line[OF prod.collapse[symmetric], of 3 "[0x61, 0x62, 0x63, 0x0A]"] by simp

end
