(* ===== verification/Allocator.thy ===== *)
theory Allocator
  imports CPrelude
begin

text \<open>
  The allocator of small blocks of the run-time library, \<open>A6/handout/lib.c\<close>. Addresses are
  natural numbers below \<open>2 ^ 32\<close>: the allocator takes chunks from \<open>free_space\<close> upwards and never asks where the
  memory ends. \<open>None\<close> is what the C language leaves undefined: a pointer that is moved beyond the
  last or below the first address, a signed number that gets too big, an index outside the array of headers. \<open>cells\<close> holds the
  word at each address; a free block links
  to the next one in its first word, an allocated block keeps its size there. Words are read and
  written at addresses that are a multiple of 4 only.\<close>

definition BLOCK_SIZE_STEP :: nat where "BLOCK_SIZE_STEP = 8"
definition NUM_SIZES :: nat where "NUM_SIZES = 4096 div 8"
definition MIN_ALLOCATION :: nat where "MIN_ALLOCATION = 100"

record heap =
  cells :: "nat \<Rightarrow> nat"
  small_block_headers :: "nat \<Rightarrow> nat"
  free_space :: nat
  initialized :: bool

definition init_heap :: "nat \<Rightarrow> heap \<Rightarrow> heap" where
  "init_heap heap_start h = h\<lparr>initialized := False, free_space := heap_start\<rparr>"

text \<open>The loop that splits a chunk: blocks \<open>k - 1\<close>, ..., 0 of it are linked in front of the
  list of their size.\<close>

fun split_chunk :: "nat \<Rightarrow> nat \<Rightarrow> nat \<Rightarrow> nat \<Rightarrow> heap \<Rightarrow> heap" where
  "split_chunk chunk sz num_size 0 h = h"
| "split_chunk chunk sz num_size (Suc k) h =
     (let end_chunk = chunk + k * sz
      in split_chunk chunk sz num_size k
           (h\<lparr>cells := (cells h)(end_chunk := small_block_headers h num_size),
              small_block_headers := (small_block_headers h)(num_size := end_chunk)\<rparr>))"

definition chunk_size :: "nat \<Rightarrow> nat" where
  "chunk_size sz =
     (let allocation = sz * 10
      in if allocation < MIN_ALLOCATION then (MIN_ALLOCATION div sz) * sz else allocation)"

text \<open>\<open>size += sizeof(int)\<close>: the sum is unsigned, and negative as an \<open>int\<close> from \<open>2 ^ 31\<close> on.\<close>

definition add_header :: "int \<Rightarrow> int" where
  "add_header sz = (if 2147483648 \<le> sz + 4 then sz + 4 - 4294967296 else sz + 4)"

text \<open>The offset is the lowest three bits of the size, which \<open>size & ~offset\<close> clears.\<close>

definition round_size :: "int \<Rightarrow> int option" where
  "round_size sz =
     (let offset = sz mod int BLOCK_SIZE_STEP
      in if offset \<noteq> 0
         then if 2147483648 \<le> sz - offset + int BLOCK_SIZE_STEP then None else Some (sz - offset + int BLOCK_SIZE_STEP)
         else Some sz)"

definition init_lists :: "heap \<Rightarrow> heap" where
  "init_lists h =
     (if \<not> initialized h
      then h\<lparr>initialized := True, small_block_headers := (\<lambda>j. if j < NUM_SIZES then 0 else small_block_headers h j)\<rparr>
      else h)"

text \<open>\<open>end_chunk\<close> begins behind the chunk and stops one block below it.\<close>

definition refill :: "nat \<Rightarrow> nat \<Rightarrow> heap \<Rightarrow> heap option" where
  "refill sz num_size h =
     (if small_block_headers h num_size = 0
      then let chunk = free_space h; allocation = chunk_size sz
           in if 4294967296 \<le> chunk + allocation \<or> chunk < sz then None
              else Some (split_chunk chunk sz num_size (allocation div sz) (h\<lparr>free_space := chunk + allocation\<rparr>))
      else Some h)"

definition unlink_block :: "nat \<Rightarrow> nat \<Rightarrow> heap \<Rightarrow> nat \<times> heap" where
  "unlink_block sz num_size h =
     (let block = small_block_headers h num_size
      in (block + 4, h\<lparr>small_block_headers := (small_block_headers h)(num_size := cells h block),
                       cells := (cells h)(block := sz)\<rparr>))"

text \<open>The argument is a number from \<open>- (2 ^ 31)\<close> to \<open>2 ^ 31 - 1\<close>.\<close>

definition allocate :: "int \<Rightarrow> heap \<Rightarrow> (nat \<times> heap) option" where
  "allocate sz h =
     (let h = init_lists h
      in if sz < 1 then Some (0, h)
         else case round_size (add_header sz) of None \<Rightarrow> None
           | Some s \<Rightarrow>
               let num_size = s div int BLOCK_SIZE_STEP
               in if int NUM_SIZES \<le> num_size then Some (0, h)
                  else if num_size < 0 then None
                  else map_option (unlink_block (nat s) (nat num_size)) (refill (nat s) (nat num_size) h))"

definition release :: "nat \<Rightarrow> heap \<Rightarrow> heap" where
  "release memory h =
     (let chunk = memory - 4; num_size = cells h chunk div BLOCK_SIZE_STEP
      in h\<lparr>cells := (cells h)(chunk := small_block_headers h num_size),
           small_block_headers := (small_block_headers h)(num_size := chunk)\<rparr>)"

subsection \<open>The free lists\<close>

text \<open>\<open>chain m a bs\<close>: the list that starts at address \<open>a\<close> and is linked through \<open>m\<close>
  consists of the blocks \<open>bs\<close>.\<close>

fun chain :: "(nat \<Rightarrow> nat) \<Rightarrow> nat \<Rightarrow> nat list \<Rightarrow> bool" where
  "chain m a [] = (a = 0)"
| "chain m a (b # bs) = (a = b \<and> b \<noteq> 0 \<and> chain m (m b) bs)"

lemma chain_cong: "(\<And>b. b \<in> set bs \<Longrightarrow> m b = m' b) \<Longrightarrow> chain m a bs = chain m' a bs"
  by (induction bs arbitrary: a) auto

lemma chain_update: "x \<notin> set bs \<Longrightarrow> chain (m(x := v)) a bs = chain m a bs"
  by (rule chain_cong) auto

lemma chain_nonzero: "chain m a bs \<Longrightarrow> a \<noteq> 0 \<Longrightarrow> \<exists>bs'. bs = a # bs'"
  by (cases bs) auto

lemma chain_zero: "chain m 0 bs \<Longrightarrow> bs = []"
  by (cases bs) auto

lemma split_chunk_frame:
  "0 < sz \<Longrightarrow> free_space (split_chunk chunk sz n k h) = free_space h \<and>
     initialized (split_chunk chunk sz n k h) = initialized h \<and>
     (\<forall>j. j \<noteq> n \<longrightarrow> small_block_headers (split_chunk chunk sz n k h) j = small_block_headers h j) \<and>
     (\<forall>a. a < chunk \<or> chunk + k * sz \<le> a \<longrightarrow> cells (split_chunk chunk sz n k h) a = cells h a)"
  by (induction k arbitrary: h) (auto simp: Let_def)

lemma split_chunk_chain:
  "0 < sz \<Longrightarrow> 0 < chunk \<Longrightarrow> chain (cells h) (small_block_headers h n) bs \<Longrightarrow>
   \<forall>b \<in> set bs. b < chunk \<or> chunk + k * sz \<le> b \<Longrightarrow>
   chain (cells (split_chunk chunk sz n k h)) (small_block_headers (split_chunk chunk sz n k h) n)
     (map (\<lambda>i. chunk + i * sz) [0..<k] @ bs)"
proof (induction k arbitrary: h bs)
  case (Suc k)
  let ?e = "chunk + k * sz"
  let ?h = "h\<lparr>cells := (cells h)(?e := small_block_headers h n), small_block_headers := (small_block_headers h)(n := ?e)\<rparr>"
  have "?e \<notin> set bs" using Suc.prems(1,4) by auto
  then have "chain (cells ?h) (small_block_headers ?h n) (?e # bs)" using Suc.prems by (simp add: chain_update)
  moreover have "\<forall>b \<in> set (?e # bs). b < chunk \<or> chunk + k * sz \<le> b" using Suc.prems(4) by fastforce
  ultimately have "chain (cells (split_chunk chunk sz n k ?h)) (small_block_headers (split_chunk chunk sz n k ?h) n)
     (map (\<lambda>i. chunk + i * sz) [0..<k] @ ?e # bs)"
    by (rule Suc.IH[OF Suc.prems(1,2)])
  then show ?case by (simp add: Let_def del: heap.update_convs)
qed simp

subsection \<open>The invariant\<close>

text \<open>\<open>G\<close> gives the size class of every block cut so far, \<open>F\<close> the free list of every class and
  \<open>L\<close> the blocks in use. Blocks lie between the start of the heap and the free space and do not
  overlap; the lists of the headers are the free lists; a block in use is in no list and stores
  its size.\<close>

definition blocks_ok :: "nat \<Rightarrow> nat \<Rightarrow> (nat \<Rightarrow> nat option) \<Rightarrow> bool" where
  "blocks_ok start fs G \<longleftrightarrow>
     (\<forall>b n. G b = Some n \<longrightarrow> 0 < n \<and> n < NUM_SIZES \<and> start \<le> b \<and> b + 8 * n \<le> fs) \<and>
     (\<forall>b n b' n'. G b = Some n \<longrightarrow> G b' = Some n' \<longrightarrow> b < b' \<longrightarrow> b + 8 * n \<le> b')"

definition lists_ok :: "heap \<Rightarrow> (nat \<Rightarrow> nat option) \<Rightarrow> (nat \<Rightarrow> nat list) \<Rightarrow> nat set \<Rightarrow> bool" where
  "lists_ok h G F L \<longleftrightarrow>
     (\<forall>n < NUM_SIZES. chain (cells h) (small_block_headers h n) (F n) \<and> distinct (F n)) \<and>
     (\<forall>n. \<forall>b \<in> set (F n). G b = Some n \<and> b \<notin> L)"

definition live_ok :: "heap \<Rightarrow> (nat \<Rightarrow> nat option) \<Rightarrow> nat set \<Rightarrow> bool" where
  "live_ok h G L \<longleftrightarrow> (\<forall>b \<in> L. \<exists>n. G b = Some n \<and> cells h b = 8 * n)"

definition heap_inv :: "nat \<Rightarrow> (nat \<Rightarrow> nat option) \<Rightarrow> (nat \<Rightarrow> nat list) \<Rightarrow> nat set \<Rightarrow> heap \<Rightarrow> bool" where
  "heap_inv start G F L h \<longleftrightarrow> 0 < start \<and> start \<le> free_space h \<and> initialized h \<and>
     blocks_ok start (free_space h) G \<and> lists_ok h G F L \<and> live_ok h G L"

lemma blocks_okD: "blocks_ok start fs G \<Longrightarrow> G b = Some n \<Longrightarrow> 0 < n \<and> n < NUM_SIZES \<and> start \<le> b \<and> b + 8 * n \<le> fs"
  by (simp add: blocks_ok_def)

lemma blocks_apart: "blocks_ok start fs G \<Longrightarrow> G b = Some n \<Longrightarrow> G b' = Some n' \<Longrightarrow> b \<noteq> b' \<Longrightarrow>
   b + 8 * n \<le> b' \<or> b' + 8 * n' \<le> b"
  unfolding blocks_ok_def by (metis linorder_neqE_nat)

lemma heap_inv_init: "0 < start \<Longrightarrow> heap_inv start (\<lambda>_. None) (\<lambda>_. []) {} (init_lists (init_heap start h))"
  by (simp add: heap_inv_def blocks_ok_def lists_ok_def live_ok_def init_lists_def init_heap_def)

lemma init_lists_idem [simp]: "init_lists (init_lists h) = init_lists h"
  by (simp add: init_lists_def)

lemma init_lists_initialized: "initialized h \<Longrightarrow> init_lists h = h"
  by (simp add: init_lists_def)

text \<open>A new chunk of \<open>k\<close> blocks.\<close>

lemma blocks_ok_extend:
  assumes "blocks_ok start fs G" "start \<le> fs" "0 < n" "n < NUM_SIZES"
  shows "blocks_ok start (fs + k * (8 * n)) (\<lambda>b. if \<exists>i < k. b = fs + i * (8 * n) then Some n else G b)"
proof -
  let ?new = "\<lambda>b. \<exists>i < k. b = fs + i * (8 * n)"
  have below: "b + 8 * m \<le> fs \<and> 0 < m" if "G b = Some m" for b m using blocks_okD[OF assms(1) that] by simp
  have inside: "fs \<le> b \<and> b + 8 * n \<le> fs + k * (8 * n)" if "?new b" for b
  proof -
    from that obtain i where "i < k" "b = fs + i * (8 * n)" by blast
    moreover have "Suc i * (8 * n) \<le> k * (8 * n)" using \<open>i < k\<close> by (intro mult_le_mono1) simp
    ultimately show ?thesis by simp
  qed
  have apart: "b + 8 * n \<le> b'" if "?new b" "?new b'" "b < b'" for b b'
  proof -
    from that(1,2) obtain i j where ij: "b = fs + i * (8 * n)" "b' = fs + j * (8 * n)" by blast
    then have "i < j" using that(3) by simp
    then have "Suc i * (8 * n) \<le> j * (8 * n)" by (intro mult_le_mono1) simp
    then show ?thesis using ij by simp
  qed
  show ?thesis unfolding blocks_ok_def
  proof (rule conjI; intro allI impI)
    fix b m assume *: "(if ?new b then Some n else G b) = Some m"
    show "0 < m \<and> m < NUM_SIZES \<and> start \<le> b \<and> b + 8 * m \<le> fs + k * (8 * n)"
    proof (cases "?new b")
      case True
      then show ?thesis using * inside[OF True] assms(2-4) by auto
    next
      case False
      then have "G b = Some m" using * by (simp only: False if_False)
      from blocks_okD[OF assms(1) this] show ?thesis by linarith
    qed
  next
    fix b m b' m' assume *: "(if ?new b then Some n else G b) = Some m" "(if ?new b' then Some n else G b') = Some m'" "b < b'"
    show "b + 8 * m \<le> b'"
    proof (cases "?new b")
      case True
      have "m = n" using *(1) by (simp only: True if_True option.inject)
      moreover have "?new b'"
      proof (rule ccontr)
        assume new: "\<not> ?new b'"
        have "G b' = Some m'" using *(2) by (simp only: new if_False)
        then show False using below[of b' m'] inside[OF True] *(3) by simp
      qed
      ultimately show ?thesis using apart[OF True _ *(3)] by simp
    next
      case False
      have G: "G b = Some m" using *(1) by (simp only: False if_False)
      show ?thesis
      proof (cases "?new b'")
        case True
        then show ?thesis using inside[OF True] below[OF G] by simp
      next
        case new: False
        have "G b' = Some m'" using *(2) by (simp only: new if_False)
        then show ?thesis using G * assms(1) unfolding blocks_ok_def by blast
      qed
    qed
  qed
qed

lemma chunk_size_blocks: "0 < n \<Longrightarrow> \<exists>k > 0. chunk_size (8 * n) = k * (8 * n)"
proof (cases "n = 1")
  case True
  then show ?thesis by (intro exI[of _ 12]) (simp add: chunk_size_def MIN_ALLOCATION_def)
next
  case False
  assume "0 < n"
  then show ?thesis using False by (intro exI[of _ 10]) (simp add: chunk_size_def MIN_ALLOCATION_def Let_def)
qed

lemma round_size_block: "round_size s = (let r = 8 * ((s + 7) div 8) in if 2147483648 \<le> r \<and> s mod 8 \<noteq> 0 then None else Some r)"
proof (cases "s mod 8 = 0")
  case True
  then have "8 * ((s + 7) div 8) = s" by presburger
  then show ?thesis using True unfolding round_size_def Let_def BLOCK_SIZE_STEP_def by (simp only: of_nat_numeral simp_thms if_False)
next
  case False
  then have "8 * ((s + 7) div 8) = s - s mod 8 + 8" by presburger
  then show ?thesis using False unfolding round_size_def Let_def BLOCK_SIZE_STEP_def by (simp only: of_nat_numeral simp_thms if_True)
qed

text \<open>After \<open>refill\<close> the list of the class is not empty; the blocks in use and their contents are
  as before.\<close>

lemma refill_inv:
  assumes inv: "heap_inv start G F L h" and n: "0 < n" "n < NUM_SIZES" and filled: "refill (8 * n) n h = Some h'"
  shows "\<exists>G' F'. heap_inv start G' F' L h' \<and> F' n \<noteq> [] \<and> G \<subseteq>\<^sub>m G' \<and> F' = F(n := F' n) \<and>
     (\<forall>b m a. G b = Some m \<longrightarrow> b \<le> a \<longrightarrow> a < b + 8 * m \<longrightarrow> cells h' a = cells h a) \<and>
     (small_block_headers h n \<noteq> 0 \<longrightarrow> h' = h)"
proof (cases "small_block_headers h n = 0")
  case False
  moreover have "chain (cells h) (small_block_headers h n) (F n)" using inv n by (simp add: heap_inv_def lists_ok_def)
  ultimately have "F n \<noteq> []" by auto
  then show ?thesis using inv False filled by (intro exI[of _ G] exI[of _ F]) (simp add: refill_def)
next
  case True
  obtain k where k: "0 < k" "chunk_size (8 * n) = k * (8 * n)" using chunk_size_blocks[OF n(1)] by blast
  let ?sz = "8 * n" and ?fs = "free_space h"
  let ?h = "h\<lparr>free_space := ?fs + k * ?sz\<rparr>"
  let ?r = "split_chunk ?fs ?sz n k ?h"
  have "k * ?sz div ?sz = k" using n(1) by (intro nonzero_mult_div_cancel_right) simp
  then have r: "h' = ?r" using filled True unfolding refill_def Let_def k(2)
    by (simp del: nonzero_mult_div_cancel_right split: if_splits)
  let ?G = "\<lambda>b. if \<exists>i < k. b = ?fs + i * ?sz then Some n else G b"
  let ?new = "map (\<lambda>i. ?fs + i * ?sz) [0..<k]"
  let ?F = "F(n := ?new)"
  have ok: "blocks_ok start ?fs G" "start \<le> ?fs" "0 < start" using inv by (simp_all add: heap_inv_def)
  have sz: "0 < ?sz" using n by simp
  note frame = split_chunk_frame[OF sz, of ?fs n k ?h]
  have below: "b + 8 * m \<le> ?fs \<and> 0 < m" if "G b = Some m" for b m using blocks_okD[OF ok(1) that] by simp
  have Fn: "F n = []" using inv n True chain_zero[of "cells h" "F n"] by (auto simp: heap_inv_def lists_ok_def)
  have old: "G b = Some m" "b \<notin> L" if "b \<in> set (F m)" for b m using that inv by (auto simp: heap_inv_def lists_ok_def)
  have Gold: "?G b = G b" if "G b = Some m" for b m
  proof -
    have "\<not> (\<exists>i < k. b = ?fs + i * ?sz)" using below[OF that] by auto
    then show ?thesis by (simp only: if_False)
  qed
  have live: "\<exists>m. G b = Some m \<and> cells h b = 8 * m" if "b \<in> L" for b using that inv by (simp add: heap_inv_def live_ok_def)
  have chains: "chain (cells ?r) (small_block_headers ?r m) (?F m) \<and> distinct (?F m)" if m: "m < NUM_SIZES" for m
  proof (cases "m = n")
    case True
    have "chain (cells ?r) (small_block_headers ?r n) (?new @ [])"
      by (rule split_chunk_chain) (use sz ok \<open>small_block_headers h n = 0\<close> in auto)
    moreover have "distinct ?new" using n by (simp add: distinct_map inj_on_def)
    ultimately show ?thesis using True by simp
  next
    case False
    then have "small_block_headers ?r m = small_block_headers h m" using frame by simp
    moreover have "chain (cells ?r) (small_block_headers h m) (F m) = chain (cells h) (small_block_headers h m) (F m)"
      by (rule chain_cong) (use frame below old(1) in force)
    ultimately show ?thesis using False inv m by (simp add: heap_inv_def lists_ok_def)
  qed
  have members: "?G b = Some m \<and> b \<notin> L" if b: "b \<in> set (?F m)" for m b
  proof (cases "m = n")
    case True
    then have i: "\<exists>i < k. b = ?fs + i * ?sz" using b by auto
    then have "b \<notin> L" using live[of b] below[of b] by force
    then show ?thesis using i True by (simp only: if_True not_False_eq_True simp_thms)
  next
    case False
    then have "b \<in> set (F m)" using b by simp
    then show ?thesis using old Gold by metis
  qed
  have "heap_inv start ?G ?F L ?r"
    unfolding heap_inv_def lists_ok_def live_ok_def
  proof (intro conjI allI impI ballI)
    show "0 < start" "start \<le> free_space ?r" "initialized ?r" using ok frame inv by (simp_all add: heap_inv_def)
    show "blocks_ok start (free_space ?r) ?G" using blocks_ok_extend[OF ok(1,2) n, of k] frame by simp
    show "chain (cells ?r) (small_block_headers ?r m) (?F m)" "distinct (?F m)" if "m < NUM_SIZES" for m
      using chains[OF that] by blast+
    show "?G b = Some m" "b \<notin> L" if "b \<in> set (?F m)" for m b using members[OF that] by blast+
    fix b assume "b \<in> L"
    then obtain m where m: "G b = Some m" "cells h b = 8 * m" using live by blast
    then have "?G b = Some m" "cells ?r b = 8 * m" using Gold[OF m(1)] below[OF m(1)] frame by auto
    then show "\<exists>m. ?G b = Some m \<and> cells ?r b = 8 * m" by blast
  qed
  moreover have "G \<subseteq>\<^sub>m ?G" unfolding map_le_def by (intro ballI) (use Gold in \<open>blast dest: domD sym\<close>)
  moreover have "cells ?r a = cells h a" if "G b = Some m" "b \<le> a" "a < b + 8 * m" for b m a
    using frame below[OF that(1)] that by simp
  ultimately show ?thesis unfolding r using k(1) True
    by (intro exI[of _ ?G] exI[of _ ?F]) (simp del: fun_upd_apply add: fun_upd_same)
qed

lemma unlink_inv:
  assumes inv: "heap_inv start G F L h" and n: "n < NUM_SIZES" and F: "F n \<noteq> []"
  shows "\<exists>b. unlink_block (8 * n) n h = (b + 4, snd (unlink_block (8 * n) n h)) \<and> b = hd (F n) \<and> b \<notin> L \<and> G b = Some n \<and>
     heap_inv start G (F(n := tl (F n))) (insert b L) (snd (unlink_block (8 * n) n h)) \<and>
     (\<forall>a. a \<noteq> b \<longrightarrow> cells (snd (unlink_block (8 * n) n h)) a = cells h a)"
proof -
  obtain b bs where b: "F n = b # bs" using F by (cases "F n") auto
  let ?h = "snd (unlink_block (8 * n) n h)"
  have ch: "small_block_headers h n = b" "chain (cells h) (cells h b) bs" "b \<notin> set bs" "distinct bs"
    using inv n b by (force simp: heap_inv_def lists_ok_def)+
  have old: "G c = Some m \<and> c \<notin> L" if "c \<in> set (F m)" for c m using that inv by (simp add: heap_inv_def lists_ok_def)
  have bG: "G b = Some n" "b \<notin> L" using old[of b n] b by auto
  have h: "unlink_block (8 * n) n h = (b + 4, ?h)"
     "?h = h\<lparr>small_block_headers := (small_block_headers h)(n := cells h b), cells := (cells h)(b := 8 * n)\<rparr>"
    using ch by (simp_all add: unlink_block_def)
  have notin: "b \<notin> set ((F(n := bs)) m)" for m using old[of b m] bG ch(3) by auto
  have "lists_ok ?h G (F(n := bs)) (insert b L)" unfolding lists_ok_def
  proof (intro conjI allI impI ballI)
    fix m assume m: "m < NUM_SIZES"
    have "chain (cells h) (small_block_headers h m) (F m) \<and> distinct (F m)" using inv m by (simp add: heap_inv_def lists_ok_def)
    then show "chain (cells ?h) (small_block_headers ?h m) ((F(n := bs)) m)" "distinct ((F(n := bs)) m)"
      using ch notin[of m] by (cases "m = n"; simp add: h(2) chain_update)+
  next
    fix m c assume "c \<in> set ((F(n := bs)) m)"
    then show "G c = Some m" "c \<notin> insert b L" using old[of c m] notin[of m] b by (auto split: if_splits)
  qed
  moreover have "live_ok ?h G (insert b L)" using inv bG by (auto simp: heap_inv_def live_ok_def h(2))
  ultimately have "heap_inv start G (F(n := bs)) (insert b L) ?h" using inv by (simp add: heap_inv_def h(2))
  then show ?thesis using h bG b by auto
qed

lemma release_inv:
  assumes inv: "heap_inv start G F L h" and b: "b \<in> L" "G b = Some n"
  shows "heap_inv start G (F(n := b # F n)) (L - {b}) (release (b + 4) h) \<and>
     (\<forall>a. a \<noteq> b \<longrightarrow> cells (release (b + 4) h) a = cells h a)"
proof -
  let ?h = "release (b + 4) h"
  have "cells h b = 8 * n" using inv b by (auto simp: heap_inv_def live_ok_def)
  then have h: "?h = h\<lparr>cells := (cells h)(b := small_block_headers h n), small_block_headers := (small_block_headers h)(n := b)\<rparr>"
    by (simp add: release_def BLOCK_SIZE_STEP_def)
  have pos: "0 < b" "n < NUM_SIZES" using inv blocks_okD[of start "free_space h" G b n] b by (auto simp: heap_inv_def)
  have old: "G c = Some m \<and> c \<notin> L" if "c \<in> set (F m)" for c m using that inv by (simp add: heap_inv_def lists_ok_def)
  have notin: "b \<notin> set (F m)" for m using old b by blast
  have "lists_ok ?h G (F(n := b # F n)) (L - {b})" unfolding lists_ok_def
  proof (intro conjI allI impI ballI)
    fix m assume m: "m < NUM_SIZES"
    have "chain (cells h) (small_block_headers h m) (F m) \<and> distinct (F m)" using inv m by (simp add: heap_inv_def lists_ok_def)
    then show "chain (cells ?h) (small_block_headers ?h m) ((F(n := b # F n)) m)" "distinct ((F(n := b # F n)) m)"
      using pos notin[of m] by (cases "m = n"; simp add: h chain_update)+
  next
    fix m c assume "c \<in> set ((F(n := b # F n)) m)"
    then show "G c = Some m" "c \<notin> L - {b}" using old[of c m] b by (auto split: if_splits)
  qed
  moreover have "live_ok ?h G (L - {b})" using inv by (auto simp: heap_inv_def live_ok_def h)
  ultimately have "heap_inv start G (F(n := b # F n)) (L - {b}) ?h" using inv by (simp add: heap_inv_def h)
  then show ?thesis by (simp add: h)
qed

text \<open>A write of the program inside a block in use leaves the lists alone.\<close>

lemma write_inv:
  assumes inv: "heap_inv start G F L h" and b: "b \<in> L" "G b = Some n" and a: "b < a" "a < b + 8 * n"
  shows "heap_inv start G F L (h\<lparr>cells := (cells h)(a := v)\<rparr>)"
proof -
  have ok: "blocks_ok start (free_space h) G" using inv by (simp add: heap_inv_def)
  have other: "a \<noteq> c" if c: "G c = Some m" for c m
    using blocks_apart[OF ok b(2) c] blocks_okD[OF ok c] a by (cases "c = b") auto
  have old: "G c = Some m" if "c \<in> set (F m)" for c m using that inv by (simp add: heap_inv_def lists_ok_def)
  have "a \<notin> set (F m)" for m using old[of a m] other by blast
  then have "lists_ok (h\<lparr>cells := (cells h)(a := v)\<rparr>) G F L" using inv by (simp add: heap_inv_def lists_ok_def chain_update)
  moreover have "live_ok (h\<lparr>cells := (cells h)(a := v)\<rparr>) G L"
    using inv other unfolding heap_inv_def live_ok_def by fastforce
  ultimately show ?thesis using inv by (simp add: heap_inv_def)
qed

definition block_class :: "nat \<Rightarrow> nat" where
  "block_class s = (s + 11) div 8"

lemma block_class_bounds: "0 < s \<Longrightarrow> 0 < block_class s" "s + 4 \<le> 8 * block_class s" "block_class s < NUM_SIZES \<longleftrightarrow> s \<le> 4084"
  unfolding block_class_def NUM_SIZES_def by (auto simp: div_less_iff_less_mult)

lemma allocate_refused: "sz < 1 \<or> 4084 < sz \<Longrightarrow> sz \<le> 2147483636 \<Longrightarrow> allocate sz h = Some (0, init_lists h)"
  by (auto simp: allocate_def add_header_def Let_def round_size_block BLOCK_SIZE_STEP_def NUM_SIZES_def)

lemma allocate_overflow: "2147483636 < sz \<Longrightarrow> sz < 2147483648 \<Longrightarrow> allocate sz h = None"
proof -
  assume sz: "2147483636 < sz" "sz < 2147483648"
  show ?thesis
  proof (cases "sz < 2147483644")
    case True
    have "268435456 \<le> (sz + 4 + 7) div 8" "(sz + 4) mod 8 \<noteq> 0" using sz(1) True by presburger+
    then have "round_size (add_header sz) = None" using True by (simp only: round_size_block Let_def add_header_def) simp
    then show ?thesis using sz(1) by (simp add: allocate_def Let_def)
  next
    case False
    let ?a = "add_header sz" and ?r = "8 * ((add_header sz + 7) div 8)"
    have "?a < -8" using sz False by (simp add: add_header_def)
    then have neg: "?r < 0" by presburger
    then have r: "round_size ?a = Some ?r" by (simp only: round_size_block Let_def) simp
    have "?r div 8 < 0" using neg by presburger
    then show ?thesis using sz(1) unfolding allocate_def r option.case Let_def BLOCK_SIZE_STEP_def NUM_SIZES_def by simp
  qed
qed

lemma allocate_granted:
  assumes "0 < s" "s \<le> 4084"
  shows "allocate (int s) h =
     map_option (unlink_block (8 * block_class s) (block_class s)) (refill (8 * block_class s) (block_class s) (init_lists h))"
proof -
  have c: "(int s + 11) div 8 = int (block_class s)" by (simp add: block_class_def zdiv_int)
  have "block_class s < NUM_SIZES" using block_class_bounds(3)[of s] assms by simp
  then have n: "block_class s < 512" by (simp add: NUM_SIZES_def)
  have r: "round_size (add_header (int s)) = Some (int (8 * block_class s))"
    using c n assms by (simp add: round_size_block add_header_def Let_def add.commute)
  show ?thesis using assms(1) n unfolding allocate_def r by (simp add: Let_def BLOCK_SIZE_STEP_def NUM_SIZES_def nat_mult_distrib)
qed

lemma allocate_inv:
  assumes inv: "heap_inv start G F L (init_lists h)" and s: "0 < s" "s \<le> 4084" and a: "allocate (int s) h = Some (p, h')"
  shows "\<exists>b G' F'. p = b + 4 \<and> b \<notin> L \<and> G' b = Some (block_class s) \<and> G \<subseteq>\<^sub>m G' \<and>
     heap_inv start G' F' (insert b L) h' \<and>
     (\<forall>c m a. c \<in> L \<longrightarrow> G c = Some m \<longrightarrow> c \<le> a \<longrightarrow> a < c + 8 * m \<longrightarrow> cells h' a = cells (init_lists h) a) \<and>
     (small_block_headers (init_lists h) (block_class s) \<noteq> 0 \<longrightarrow> b = small_block_headers (init_lists h) (block_class s))"
proof -
  let ?n = "block_class s" and ?i = "init_lists h"
  obtain hr where hr: "refill (8 * ?n) ?n ?i = Some hr" "(p, h') = unlink_block (8 * ?n) ?n hr"
    using a allocate_granted[OF s, of h] by auto
  have n: "0 < ?n" "?n < NUM_SIZES" using block_class_bounds(1)[OF s(1)] block_class_bounds(3)[of s] s by auto
  obtain G' F' where r: "heap_inv start G' F' L hr" "F' ?n \<noteq> []" "G \<subseteq>\<^sub>m G'"
      "\<And>b m a. G b = Some m \<Longrightarrow> b \<le> a \<Longrightarrow> a < b + 8 * m \<Longrightarrow> cells hr a = cells ?i a"
      "small_block_headers ?i ?n \<noteq> 0 \<Longrightarrow> hr = ?i"
    using refill_inv[OF inv n hr(1)] by blast
  obtain b where b: "p = b + 4" "b \<notin> L" "G' b = Some ?n"
      "heap_inv start G' (F'(?n := tl (F' ?n))) (insert b L) h'" "\<And>a. a \<noteq> b \<Longrightarrow> cells h' a = cells hr a"
    using unlink_inv[OF r(1) n(2) r(2)] unfolding hr(2)[symmetric] by auto
  have "cells h' a = cells ?i a" if c: "c \<in> L" "G c = Some m" "c \<le> a" "a < c + 8 * m" for c m a
  proof -
    have c': "G' c = Some m" using c(2) r(3) by (metis domI map_le_def)
    have "blocks_ok start (free_space h') G'" "c \<noteq> b" using b(2,4) c(1) by (auto simp: heap_inv_def)
    then have "c + 8 * m \<le> b \<or> b + 8 * ?n \<le> c" using blocks_apart c' b(3) by blast
    then have "a \<noteq> b" using c n by auto
    then show ?thesis using b(5) r(4)[OF c(2-4)] by simp
  qed
  moreover have "b = small_block_headers ?i ?n" if "small_block_headers ?i ?n \<noteq> 0"
    using b(1) hr(2) r(5)[OF that] by (simp add: unlink_block_def Let_def)
  ultimately show ?thesis using r(3) b(1-4)
    by (intro exI[of _ b] exI[of _ G'] exI[of _ "F'(?n := tl (F' ?n))"] conjI allI impI)
qed

text \<open>Where the free space ends up, and when a chunk can be taken.\<close>

lemma unlink_frame: "free_space (snd (unlink_block sz n h)) = free_space h"
  by (simp add: unlink_block_def Let_def)

lemma chunk_size_small: "0 < n \<Longrightarrow> n < NUM_SIZES \<Longrightarrow> chunk_size (8 * n) \<le> 40960"
proof (cases "n = 1")
  case False
  assume "0 < n" "n < NUM_SIZES"
  with False show ?thesis by (simp add: chunk_size_def MIN_ALLOCATION_def NUM_SIZES_def Let_def)
qed (simp add: chunk_size_def MIN_ALLOCATION_def)

lemma refill_space:
  assumes n: "0 < n" "n < NUM_SIZES"
  shows "case refill (8 * n) n h of None \<Rightarrow> 4294967296 \<le> free_space h + 40960 \<or> free_space h < 4096
     | Some h' \<Rightarrow> free_space h' \<le> free_space h + 40960 \<and> (free_space h < 4294967296 \<longrightarrow> free_space h' < 4294967296)"
  using chunk_size_small[OF n] split_chunk_frame[of "8 * n"] n
  by (auto simp: refill_def Let_def NUM_SIZES_def split: if_splits)

lemma allocate_space:
  "sz < 2147483648 \<Longrightarrow> case allocate sz h of
      None \<Rightarrow> 2147483636 < sz \<or> 1 \<le> sz \<and> sz \<le> 4084 \<and> (4294967296 \<le> free_space h + 40960 \<or> free_space h < 4096)
    | Some a \<Rightarrow> sz \<le> 2147483636 \<and> free_space (snd a) \<le> free_space h + 40960 \<and>
        (free_space h < 4294967296 \<longrightarrow> free_space (snd a) < 4294967296)"
proof -
  assume sz: "sz < 2147483648"
  consider "2147483636 < sz" | "sz < 1 \<or> 4084 < sz" "sz \<le> 2147483636" | "1 \<le> sz" "sz \<le> 4084" by linarith
  then show ?thesis
  proof cases
    case 1
    then show ?thesis using allocate_overflow[OF _ sz] by simp
  next
    case 2
    then show ?thesis using allocate_refused[OF 2] by (simp add: init_lists_def)
  next
    case 3
    let ?s = "nat sz"
    have s: "0 < ?s" "?s \<le> 4084" "sz = int ?s" using 3 by auto
    have n: "0 < block_class ?s" "block_class ?s < NUM_SIZES" using block_class_bounds(1)[OF s(1)] block_class_bounds(3)[of ?s] s(2) by auto
    have i: "free_space (init_lists h) = free_space h" by (simp add: init_lists_def)
    show ?thesis using refill_space[OF n, of "init_lists h"] allocate_granted[OF s(1,2), of h] 3 s(3)
      unlink_frame[of "8 * block_class ?s" "block_class ?s"] unfolding i
      by (cases "refill (8 * block_class ?s) (block_class ?s) (init_lists h)") (auto split: prod.splits simp: case_prod_beta)
  qed
qed

subsection \<open>Programs that use the heap\<close>

text \<open>What a program may do after \<open>init_heap\<close>: allocate, release a pointer it has, and write a
  word inside an area it has. \<open>live\<close> maps the pointers it has to the sizes it asked for. A run ends where
  \<open>allocate\<close> is undefined, which \<open>allocate_fresh\<close> below says when.\<close>

inductive heap_run :: "nat \<Rightarrow> heap \<Rightarrow> (nat \<Rightarrow> nat option) \<Rightarrow> bool" for start where
  init: "heap_run start (init_heap start h) Map.empty"
| alloc: "heap_run start h live \<Longrightarrow> sz < 2147483648 \<Longrightarrow> allocate sz h = Some (p, h') \<Longrightarrow> p \<noteq> 0 \<Longrightarrow> heap_run start h' (live(p := Some (nat sz)))"
| refused: "heap_run start h live \<Longrightarrow> sz < 2147483648 \<Longrightarrow> allocate sz h = Some (0, h') \<Longrightarrow> heap_run start h' live"
| free: "heap_run start h live \<Longrightarrow> live p = Some s \<Longrightarrow> heap_run start (release p h) (live(p := None))"
| user: "heap_run start h live \<Longrightarrow> live p = Some s \<Longrightarrow> p \<le> a \<Longrightarrow> a + 4 \<le> p + s \<Longrightarrow>
    heap_run start (h\<lparr>cells := (cells h)(a := v)\<rparr>) live"

definition heap_rel :: "nat \<Rightarrow> (nat \<Rightarrow> nat option) \<Rightarrow> (nat \<Rightarrow> nat list) \<Rightarrow> nat set \<Rightarrow> heap \<Rightarrow> (nat \<Rightarrow> nat option) \<Rightarrow> bool" where
  "heap_rel start G F L h live \<longleftrightarrow> heap_inv start G F L (init_lists h) \<and> (\<not> initialized h \<longrightarrow> live = Map.empty) \<and>
     (\<forall>p s. live p = Some s \<longrightarrow> 4 \<le> p \<and> p - 4 \<in> L \<and> G (p - 4) = Some (block_class s) \<and> 0 < s \<and> s \<le> 4084)"

lemma init_lists_init [simp]: "initialized (init_lists h)" "free_space (init_lists h) = free_space h" "cells (init_lists h) = cells h"
  by (simp_all add: init_lists_def)

lemma heap_inv_initialized: "heap_inv start G F L h \<Longrightarrow> initialized h \<and> init_lists h = h"
  by (simp add: heap_inv_def init_lists_initialized)

lemma heap_run_rel: "heap_run start h live \<Longrightarrow> 0 < start \<Longrightarrow> \<exists>G F L. heap_rel start G F L h live"
proof (induction h live rule: heap_run.induct)
  case (init h)
  then have "heap_rel start (\<lambda>_. None) (\<lambda>_. []) {} (init_heap start h) Map.empty"
    using heap_inv_init by (simp add: heap_rel_def)
  then show ?case by blast
next
  case (alloc h live sz p h')
  then obtain G F L where rel: "heap_rel start G F L h live" by blast
  let ?s = "nat sz"
  have "sz \<le> 2147483636" using allocate_overflow[of sz h] alloc.hyps(2,3) by force
  then have s: "0 < ?s" "?s \<le> 4084" "sz = int ?s" using allocate_refused[of sz h] alloc.hyps(3,4) by force+
  have inv: "heap_inv start G F L (init_lists h)" using rel by (simp add: heap_rel_def)
  have "allocate (int ?s) h = Some (p, h')" using alloc.hyps(3) unfolding s(3)[symmetric] .
  from allocate_inv[OF inv s(1,2) this] obtain b G' F' where a: "p = b + 4" "b \<notin> L" "G' b = Some (block_class ?s)" "G \<subseteq>\<^sub>m G'"
      "heap_inv start G' F' (insert b L) h'"
    by blast
  note p = a(1)
  have "heap_rel start G' F' (insert b L) h' (live(p := Some ?s))" unfolding heap_rel_def
  proof (intro conjI allI impI)
    show "heap_inv start G' F' (insert b L) (init_lists h')" using a(5) heap_inv_initialized by metis
    show "live(p := Some ?s) = Map.empty" if "\<not> initialized h'" using that heap_inv_initialized[OF a(5)] by simp
    fix q t assume q: "(live(p := Some ?s)) q = Some t"
    have old: "4 \<le> q \<and> q - 4 \<in> L \<and> G (q - 4) = Some (block_class t) \<and> 0 < t \<and> t \<le> 4084" if "q \<noteq> p"
      using rel q that by (simp add: heap_rel_def)
    have mono: "G' c = Some m" if "G c = Some m" for c m using a(4) that by (metis domI map_le_def)
    show "4 \<le> q" "q - 4 \<in> insert b L" "G' (q - 4) = Some (block_class t)" "0 < t" "t \<le> 4084"
      using old mono q p s a(3) by (cases "q = p"; simp)+
  qed
  then show ?case by blast
next
  case (refused h live sz h')
  then obtain G F L where rel: "heap_rel start G F L h live" by blast
  then have inv: "heap_inv start G F L (init_lists h)" by (simp add: heap_rel_def)
  have "sz < 1 \<or> 4084 < sz"
  proof (rule ccontr)
    assume "\<not> ?thesis"
    then have "0 < nat sz" "nat sz \<le> 4084" "sz = int (nat sz)" by auto
    then show False using allocate_inv[OF inv, of "nat sz" 0 h'] refused.hyps(3) by auto
  qed
  moreover have "sz \<le> 2147483636" using allocate_overflow[of sz h] refused.hyps(2,3) by force
  ultimately have "h' = init_lists h" using allocate_refused refused.hyps(3) by simp
  then have "heap_rel start G F L h' live" using rel by (simp add: heap_rel_def)
  then show ?case by blast
next
  case (free h live p s)
  then obtain G F L where rel: "heap_rel start G F L h live" by blast
  have p: "4 \<le> p" "p - 4 \<in> L" "G (p - 4) = Some (block_class s)" using rel free.hyps(2) by (auto simp: heap_rel_def)
  have "initialized h" using rel free.hyps(2) by (auto simp: heap_rel_def)
  then have "heap_inv start G F L h" using rel by (simp add: heap_rel_def init_lists_initialized)
  from release_inv[OF this p(2,3)] have inv: "heap_inv start G (F(block_class s := (p - 4) # F (block_class s))) (L - {p - 4}) (release p h)"
    using p(1) by simp
  have "heap_rel start G (F(block_class s := (p - 4) # F (block_class s))) (L - {p - 4}) (release p h) (live(p := None))"
    unfolding heap_rel_def
  proof (intro conjI allI impI)
    show "heap_inv start G (F(block_class s := (p - 4) # F (block_class s))) (L - {p - 4}) (init_lists (release p h))"
      using inv heap_inv_initialized by metis
    show "live(p := None) = Map.empty" if "\<not> initialized (release p h)" using that heap_inv_initialized[OF inv] by simp
    fix q t assume q: "(live(p := None)) q = Some t"
    then have "q \<noteq> p" "live q = Some t" by (auto split: if_splits)
    then show "4 \<le> q" "q - 4 \<in> L - {p - 4}" "G (q - 4) = Some (block_class t)" "0 < t" "t \<le> 4084"
      using rel p(1) unfolding heap_rel_def by (fastforce dest: eq_diff_iff)+
  qed
  then show ?case by blast
next
  case (user h live p s a v)
  then obtain G F L where rel: "heap_rel start G F L h live" by blast
  have p: "4 \<le> p" "p - 4 \<in> L" "G (p - 4) = Some (block_class s)" using rel user.hyps(2) by (auto simp: heap_rel_def)
  have "initialized h" using rel user.hyps(2) by (auto simp: heap_rel_def)
  then have inv: "heap_inv start G F L h" using rel by (simp add: heap_rel_def init_lists_initialized)
  have "p - 4 < a" "a < p - 4 + 8 * block_class s" using user.hyps(3,4) p(1) block_class_bounds(2)[of s] by linarith+
  from write_inv[OF inv p(2,3) this] have "heap_rel start G F L (h\<lparr>cells := (cells h)(a := v)\<rparr>) live"
    using rel \<open>initialized h\<close> by (simp add: heap_rel_def init_lists_initialized)
  then show ?case by blast
qed

lemma heap_relD:
  assumes "heap_rel start G F L h live" "live p = Some s"
  shows "4 \<le> p" "p - 4 \<in> L" "G (p - 4) = Some (block_class s)" "initialized h" "heap_inv start G F L h"
    "p + s \<le> p - 4 + 8 * block_class s" "start < p" "p - 4 + 8 * block_class s \<le> free_space h"
proof -
  show p: "4 \<le> p" "p - 4 \<in> L" "G (p - 4) = Some (block_class s)" "initialized h" using assms by (auto simp: heap_rel_def)
  then show inv: "heap_inv start G F L h" using assms(1) by (simp add: heap_rel_def init_lists_initialized)
  show "p + s \<le> p - 4 + 8 * block_class s" using block_class_bounds(2)[of s] p(1) by linarith
  have "start \<le> p - 4" "p - 4 + 8 * block_class s \<le> free_space h"
    using blocks_okD[of start "free_space h" G "p - 4" "block_class s"] p(3) inv by (auto simp: heap_inv_def)
  then show "start < p" "p - 4 + 8 * block_class s \<le> free_space h" using p(1) by linarith+
qed

lemma heap_rel_apart:
  assumes rel: "heap_rel start G F L h live" and pq: "live p = Some s" "live q = Some t" "p \<noteq> q"
  shows "p - 4 + 8 * block_class s \<le> q - 4 \<or> q - 4 + 8 * block_class t \<le> p - 4"
proof -
  note p = heap_relD[OF rel pq(1)] and q = heap_relD[OF rel pq(2)]
  have "p - 4 \<noteq> q - 4" using p(1) q(1) pq(3) by linarith
  then show ?thesis using blocks_apart[of start "free_space h" G "p - 4" "block_class s" "q - 4" "block_class t"] p(3,5) q(3)
    by (auto simp: heap_inv_def)
qed

text \<open>A concrete heap: two areas of 8 bytes, from the start address of the run-time library.\<close>

definition demo_start :: heap where
  "demo_start = init_heap 33554432 \<lparr>cells = (\<lambda>_. 0), small_block_headers = (\<lambda>_. 0), free_space = 0, initialized = True\<rparr>"

definition demo_heap :: heap where
  "demo_heap = snd (the (allocate 8 (snd (the (allocate 8 demo_start)))))"

definition demo_live :: "nat \<Rightarrow> nat option" where
  "demo_live = [33554436 \<mapsto> 8, 33554452 \<mapsto> 8]"

lemma split_ten: "split_chunk c sz n 10 h = split_chunk c sz n (Suc (Suc (Suc (Suc (Suc (Suc (Suc (Suc (Suc (Suc 0)))))))))) h"
  by (simp add: eval_nat_numeral)

lemma demo_first: "\<exists>h. allocate 8 demo_start = Some (33554436, h) \<and> initialized h \<and> small_block_headers h 2 = 33554448 \<and> cells h 33554448 = 33554464"
  by (simp add: allocate_def init_lists_def demo_start_def init_heap_def add_header_def round_size_def BLOCK_SIZE_STEP_def
      NUM_SIZES_def unlink_block_def refill_def chunk_size_def MIN_ALLOCATION_def split_ten Let_def)

lemma demo_second:
  "initialized h \<Longrightarrow> small_block_headers h 2 = 33554448 \<Longrightarrow> \<exists>h'. allocate 8 h = Some (33554452, h')"
  by (simp add: allocate_def init_lists_def add_header_def round_size_def BLOCK_SIZE_STEP_def
      NUM_SIZES_def unlink_block_def refill_def Let_def)

lemma demo_run: "heap_run 33554432 demo_heap demo_live"
proof -
  obtain h where h: "allocate 8 demo_start = Some (33554436, h)" "initialized h" "small_block_headers h 2 = 33554448"
    using demo_first by blast
  obtain h' where h': "allocate 8 h = Some (33554452, h')" using demo_second[OF h(2,3)] by blast
  have 0: "heap_run 33554432 demo_start Map.empty" unfolding demo_start_def by (rule heap_run.init)
  have 1: "heap_run 33554432 h [33554436 \<mapsto> nat 8]" by (rule heap_run.alloc[OF 0 _ h(1)]) simp_all
  have "heap_run 33554432 h' ([33554436 \<mapsto> nat 8](33554452 := Some (nat 8)))" by (rule heap_run.alloc[OF 1 _ h']) simp_all
  then show ?thesis using h(1) h' by (simp add: demo_live_def demo_heap_def)
qed

lemma demo_live_areas: "demo_live 33554436 = Some 8" "demo_live 33554452 = Some 8"
  by (simp_all add: demo_live_def)

lemma heap_run_space: "heap_run start h live \<Longrightarrow> start < 4294967296 \<Longrightarrow> free_space h < 4294967296"
proof (induction h live rule: heap_run.induct)
  case (alloc h live sz p h')
  then show ?case using allocate_space[OF alloc.hyps(2), of h] by simp
next
  case (refused h live sz h')
  then show ?case using allocate_space[OF refused.hyps(2), of h] by simp
qed (simp_all add: init_heap_def release_def Let_def)

text \<open>C11: whatever a program does with the heap - allocating, releasing, writing inside the areas
  it has, in any order - as long as no call of \<open>allocate\<close> moves a pointer out of the 32-bit address space, or gets a size
  near \<open>2 ^ 31\<close> that overflows (\<open>None\<close> of \<open>allocate\<close>, see \<open>allocate_fresh\<close>), the areas it has lie above the start of the
  heap and below the free space, which lies inside the address space, and never overlap each other. Such a call is not reached while
  the free space is more than 40960 bytes from the end of the address space.\<close>

theorem heap_areas_disjoint:
  assumes "heap_run start h live" "4096 \<le> start" "start < 4294967296" "live p = Some s" "live q = Some t" "p \<noteq> q"
  shows "start < p \<and> p + s \<le> free_space h \<and> free_space h < 4294967296 \<and> (p + s \<le> q \<or> q + t \<le> p) \<and>
    (free_space h + 40960 < 4294967296 \<longrightarrow> sz \<le> 2147483636 \<longrightarrow>
       (\<exists>p' h'. allocate sz h = Some (p', h') \<and> free_space h' \<le> free_space h + 40960))"
proof -
  have "0 < start" using assms(2) by simp
  from heap_run_rel[OF assms(1) this] obtain G F L where rel: "heap_rel start G F L h live" by blast
  note p = heap_relD[OF rel assms(4)] and q = heap_relD[OF rel assms(5)]
  have "p + s \<le> q \<or> q + t \<le> p" using heap_rel_apart[OF rel assms(4-6)] p(1,6) q(1,6) by linarith
  moreover have "\<exists>p' h'. allocate sz h = Some (p', h') \<and> free_space h' \<le> free_space h + 40960"
    if "free_space h + 40960 < 4294967296" "sz \<le> 2147483636"
  proof -
    have "4096 \<le> free_space h" using p(6-8) assms(2) by linarith
    then show ?thesis using allocate_space[of sz h] that by (cases "allocate sz h") auto
  qed
  ultimately show ?thesis using p(6-8) heap_run_space[OF assms(1,3)] by simp
qed

lemma heap_areas_disjoint_witness: "(33554436 :: nat) + 8 \<le> 33554452 \<and> 33554436 + 8 \<le> free_space demo_heap"
  using heap_areas_disjoint[OF demo_run _ _ demo_live_areas] by simp

text \<open>C40: \<open>allocate\<close> for every size an \<open>int\<close> can hold. It is undefined for sizes above 2147483636, which overflow
  when the size of the header is added or rounded up, and when a new chunk does not fit below the end of the address space;
  otherwise it answers NULL exactly for the sizes below 1 and above 4084, moves the free space by at most 40960 bytes, and its
  pointer is none of those in use, and no word of an area in use changes.\<close>

theorem allocate_fresh:
  assumes run: "heap_run start h live" "4096 \<le> start" and sz: "sz < 2147483648"
  shows "case allocate sz h of
      None \<Rightarrow> 2147483636 < sz \<or> 1 \<le> sz \<and> sz \<le> 4084 \<and> 4294967296 \<le> free_space h + 40960
    | Some (p, h') \<Rightarrow> sz \<le> 2147483636 \<and> (p = 0 \<longleftrightarrow> sz < 1 \<or> 4084 < sz) \<and> free_space h' \<le> free_space h + 40960 \<and>
        (\<forall>q t. live q = Some t \<longrightarrow> p \<noteq> q \<and> (\<forall>x. q \<le> x \<longrightarrow> x < q + t \<longrightarrow> cells h' x = cells h x))"
proof -
  have "0 < start" using run(2) by simp
  from heap_run_rel[OF run(1) this] obtain G F L where rel: "heap_rel start G F L h live" by blast
  then have inv: "heap_inv start G F L (init_lists h)" by (simp add: heap_rel_def)
  then have above: "4096 \<le> free_space h" using run(2) by (simp add: heap_inv_def init_lists_def split: if_splits)
  show ?thesis
  proof (cases "allocate sz h")
    case None
    then show ?thesis using allocate_space[OF sz, of h] above by auto
  next
    case (Some a)
    obtain p h' where a: "allocate sz h = Some (p, h')" using Some by (cases a) simp
    then have low: "sz \<le> 2147483636" "free_space h' \<le> free_space h + 40960" using allocate_space[OF sz, of h] by simp_all
    show ?thesis
    proof (cases "sz < 1 \<or> 4084 < sz")
      case True
      then have "p = 0 \<and> h' = init_lists h" using allocate_refused[OF True low(1)] a by simp
      then show ?thesis using True heap_relD(1)[OF rel] a low by force
    next
      case False
      then have s: "0 < nat sz" "nat sz \<le> 4084" "sz = int (nat sz)" by auto
      have "allocate (int (nat sz)) h = Some (p, h')" using a unfolding s(3)[symmetric] .
      from allocate_inv[OF inv s(1,2) this] obtain b where b: "p = b + 4" "b \<notin> L"
          "\<forall>c m x. c \<in> L \<longrightarrow> G c = Some m \<longrightarrow> c \<le> x \<longrightarrow> x < c + 8 * m \<longrightarrow> cells h' x = cells (init_lists h) x"
        by blast
      have "p \<noteq> q \<and> (\<forall>x. q \<le> x \<longrightarrow> x < q + t \<longrightarrow> cells h' x = cells h x)" if q: "live q = Some t" for q t
      proof -
        note q = heap_relD[OF rel q]
        have "p \<noteq> q" using b q(1,2) by auto
        moreover have "cells h' x = cells h x" if "q \<le> x" "x < q + t" for x
        proof -
          have "q - 4 \<le> x" "x < q - 4 + 8 * block_class t" using that q(6) by linarith+
          then show ?thesis using b(3) q(2,3) by simp
        qed
        ultimately show ?thesis by blast
      qed
      then show ?thesis using False b(1) a low by simp
    qed
  qed
qed

lemma allocate_fresh_witness:
  "case allocate 100 demo_heap of None \<Rightarrow> 4294967296 \<le> free_space demo_heap + 40960
   | Some (p, h') \<Rightarrow> p \<noteq> 0 \<and> p \<noteq> 33554436 \<and> cells h' 33554440 = cells demo_heap 33554440"
  using allocate_fresh[OF demo_run, of 100] demo_live_areas(1) by (auto split: option.splits)

text \<open>A released area is the next one handed out for its size, and releasing it changes no
  word of the other areas in use.\<close>

theorem release_reuses:
  assumes run: "heap_run start h live" "0 < start" and p: "live p = Some s"
  shows "map_option fst (allocate (int s) (release p h)) = Some p \<and>
     (\<forall>q t x. live q = Some t \<longrightarrow> q \<noteq> p \<longrightarrow> q \<le> x \<longrightarrow> x < q + t \<longrightarrow> cells (release p h) x = cells h x)"
proof -
  obtain G F L where rel: "heap_rel start G F L h live" using heap_run_rel[OF run] by blast
  note p' = heap_relD[OF rel p]
  have s: "0 < s" "s \<le> 4084" using rel p by (auto simp: heap_rel_def)
  note r = release_inv[OF p'(5,2,3)]
  have inv: "heap_inv start G (F(block_class s := (p - 4) # F (block_class s))) (L - {p - 4}) (release p h)"
    using r p'(1) by simp
  then have same: "init_lists (release p h) = release p h" using heap_inv_initialized by blast
  have n: "block_class s < NUM_SIZES" using block_class_bounds(3)[of s] s by simp
  have "chain (cells (release p h)) (small_block_headers (release p h) (block_class s)) ((p - 4) # F (block_class s))"
    using inv n unfolding heap_inv_def lists_ok_def by (metis fun_upd_same)
  then have head: "small_block_headers (release p h) (block_class s) = p - 4" "p - 4 \<noteq> 0" by simp_all
  then have "map_option fst (allocate (int s) (release p h)) = Some p"
    using allocate_granted[OF s, of "release p h"] p'(1) by (simp add: same refill_def unlink_block_def Let_def)
  moreover have "cells (release p h) x = cells h x" if q: "live q = Some t" "q \<noteq> p" "q \<le> x" "x < q + t" for q t x
  proof -
    note q' = heap_relD[OF rel q(1)]
    have "x \<noteq> p - 4" using heap_rel_apart[OF rel p q(1)] q(2-4) p'(1,6) q'(1,6) by auto
    then show ?thesis using r p'(1) by simp
  qed
  ultimately show ?thesis by blast
qed

lemma release_reuses_witness: "map_option fst (allocate 8 (release 33554452 demo_heap)) = Some 33554452"
  using release_reuses[OF demo_run _ demo_live_areas(2)] by simp

end
