(* ===== verification/CStrings.thy ===== *)
theory CStrings
  imports CPrelude
begin

text \<open>
  The functions on strings and lines that the programs use of the C library. A C string is the list
  of its characters before the terminating zero; a file is the list of its characters.
\<close>

definition NL :: char where "NL = CHR 0x0A"
definition TAB :: char where "TAB = CHR 0x09"

text \<open>\<open>getline\<close>: the next line with its line end, \<open>None\<close> at the end of the file.\<close>

fun line_split :: "string \<Rightarrow> string \<times> string" where
  "line_split [] = ([], [])"
| "line_split (c # f) = (if c = NL then ([c], f) else (let (buf, rest) = line_split f in (c # buf, rest)))"

definition getline :: "string \<Rightarrow> (string \<times> string) option" where
  "getline f = (if f = [] then None else Some (line_split f))"

text \<open>The string at the start of a buffer.\<close>

definition c_str :: "string \<Rightarrow> string" where
  "c_str buf = takeWhile (\<lambda>c. c \<noteq> CHR 0x00) buf"

text \<open>\<open>strstr(start, "\t")\<close>, with the characters before and after the tab found.\<close>

fun split_tab :: "string \<Rightarrow> (string \<times> string) option" where
  "split_tab [] = None"
| "split_tab (c # s) = (if c = TAB then Some ([], s) else map_option (apfst ((#) c)) (split_tab s))"

definition is_space :: "char \<Rightarrow> bool" where
  "is_space c \<longleftrightarrow> c = CHR '' '' \<or> (9 \<le> (of_char c :: nat) \<and> of_char c \<le> (13 :: nat))"

definition is_digit :: "char \<Rightarrow> bool" where
  "is_digit c \<longleftrightarrow> 48 \<le> (of_char c :: nat) \<and> of_char c \<le> (57 :: nat)"

fun digits_value :: "int \<Rightarrow> string \<Rightarrow> int" where
  "digits_value v [] = v"
| "digits_value v (c # s) = (if is_digit c then digits_value (v * 10 + (of_char c - 48)) s else v)"

definition signed_value :: "string \<Rightarrow> int" where
  "signed_value s =
     (case s of [] \<Rightarrow> 0
      | c # r \<Rightarrow> if c = CHR ''-'' then - digits_value 0 r
                  else if c = CHR ''+'' then digits_value 0 r else digits_value 0 s)"

text \<open>\<open>atol\<close> is \<open>strtol\<close> with base 10, which stops at the limits of \<open>long\<close>; \<open>atoi\<close> cuts its
  result to an \<open>int\<close>.\<close>

definition atol :: "string \<Rightarrow> i64" where
  "atol s = word_of_int (max (- (2 ^ 63)) (min (2 ^ 63 - 1) (signed_value (dropWhile is_space s))))"

definition atoi :: "string \<Rightarrow> i32" where
  "atoi s = ucast (atol s)"

fun join_tab :: "string list \<Rightarrow> string" where
  "join_tab [] = []"
| "join_tab [t] = t"
| "join_tab (t # ts) = t @ TAB # join_tab ts"

lemma line_split_shorter: "f \<noteq> [] \<Longrightarrow> length (snd (line_split f)) < length f"
proof (induction f)
  case (Cons c f)
  then show ?case by (cases "f = []") (auto simp: less_SucI split: prod.splits)
qed simp

text \<open>The lines of a file.\<close>

function file_lines :: "string \<Rightarrow> string list" where
  "file_lines f = (case getline f of None \<Rightarrow> [] | Some (buf, rest) \<Rightarrow> buf # file_lines rest)"
  by pat_completeness auto
termination
proof (relation "measure length")
  fix f p buf rest assume "getline f = Some p" "(buf, rest) = p"
  then show "(rest, f) \<in> measure length" using line_split_shorter[of f] by (auto simp: getline_def split: if_splits)
qed simp

declare file_lines.simps [simp del]

lemma split_tab_field: "TAB \<notin> set t \<Longrightarrow> split_tab (t @ TAB # s) = Some (t, s)"
  by (induction t) auto

lemma split_tab_none: "TAB \<notin> set s \<Longrightarrow> split_tab s = None"
  by (induction s) auto

lemma line_split_line: "NL \<notin> set l \<Longrightarrow> line_split (l @ NL # f) = (l @ [NL], f)"
  by (induction l) auto

lemma c_str_no_nul: "CHR 0x00 \<notin> set s \<Longrightarrow> c_str s = s"
  by (auto simp: c_str_def takeWhile_eq_all_conv)

lemma join_tab_Cons: "ts \<noteq> [] \<Longrightarrow> join_tab (t # ts) = t @ TAB # join_tab ts"
  by (cases ts) simp_all

lemma set_join_tab: "set (join_tab ts) \<subseteq> (\<Union>t \<in> set ts. set t) \<union> {TAB}"
  by (induction ts rule: join_tab.induct) auto

lemma join_tab_snoc: "join_tab (ts @ [t]) @ u = join_tab (ts @ [t @ u])"
proof (induction ts)
  case (Cons a ts)
  then show ?case using join_tab_Cons[of "ts @ [t]" a] join_tab_Cons[of "ts @ [t @ u]" a] by simp
qed simp

end
