(* ===== verification/Records.thy ===== *)
theory Records
  imports CStrings
begin

text \<open>
  The reader of the place-name files of A1, \<open>A1/record.c\<close>. A C string is the list of its
  characters before the terminating zero. Floating-point numbers are an abstract type \<open>'d\<close>
  that the code only moves: \<open>atof\<close> is an argument. Memory from \<open>malloc\<close> and \<open>realloc\<close> is
  not cleared: the records found there before they are filled are an argument too. The member
  \<open>line\<close> is the buffer as it was read, before the tabs in it are replaced by zeros.
\<close>

subsection \<open>Records\<close>

record 'd place =
  name :: string
  alternative_names :: string
  osm_type :: string
  osm_id :: i64
  class_name :: string
  type_name :: string
  lon :: 'd
  lat :: 'd
  place_rank :: i32
  importance :: 'd
  street :: string
  city :: string
  county :: string
  state :: string
  country :: string
  country_code :: string
  display_name :: string
  west :: 'd
  south :: 'd
  east :: 'd
  north :: 'd
  wikidata :: string
  wikipedia :: string
  housenumbers :: string
  line :: string

text \<open>One \<open>if ((end = strstr(start, "\t")))\<close> of \<open>read_record\<close>: the member is set to the text
  before the tab, and \<open>start\<close> moves behind it.\<close>

definition next_field :: "(string \<Rightarrow> 'r \<Rightarrow> 'r) \<Rightarrow> 'r \<times> string \<Rightarrow> 'r \<times> string" where
  "next_field put st = (case split_tab (snd st) of None \<Rightarrow> st | Some (t, rest) \<Rightarrow> (put t (fst st), rest))"

definition field_setters :: "(string \<Rightarrow> 'd) \<Rightarrow> (string \<Rightarrow> 'd place \<Rightarrow> 'd place) list" where
  "field_setters atof =
    [\<lambda>t. name_update (\<lambda>_. t),
     \<lambda>t. alternative_names_update (\<lambda>_. t),
     \<lambda>t. osm_type_update (\<lambda>_. t),
     \<lambda>t. osm_id_update (\<lambda>_. atol t),
     \<lambda>t. class_name_update (\<lambda>_. t),
     \<lambda>t. type_name_update (\<lambda>_. t),
     \<lambda>t. lon_update (\<lambda>_. atof t),
     \<lambda>t. lat_update (\<lambda>_. atof t),
     \<lambda>t. place_rank_update (\<lambda>_. atoi t),
     \<lambda>t. importance_update (\<lambda>_. atof t),
     \<lambda>t. street_update (\<lambda>_. t),
     \<lambda>t. city_update (\<lambda>_. t),
     \<lambda>t. county_update (\<lambda>_. t),
     \<lambda>t. state_update (\<lambda>_. t),
     \<lambda>t. country_update (\<lambda>_. t),
     \<lambda>t. country_code_update (\<lambda>_. t),
     \<lambda>t. display_name_update (\<lambda>_. t),
     \<lambda>t. west_update (\<lambda>_. atof t),
     \<lambda>t. west_update (\<lambda>_. atof t),
     \<lambda>t. east_update (\<lambda>_. atof t),
     \<lambda>t. north_update (\<lambda>_. atof t),
     \<lambda>t. wikidata_update (\<lambda>_. t),
     \<lambda>t. wikipedia_update (\<lambda>_. t),
     \<lambda>t. housenumbers_update (\<lambda>_. t)]"

definition read_fields :: "(string \<Rightarrow> 'd) \<Rightarrow> string \<Rightarrow> 'd place \<Rightarrow> 'd place" where
  "read_fields atof buf r = fst (fold next_field (field_setters atof) (r, c_str buf))"

text \<open>\<open>read_record\<close>: \<open>None\<close> for the -1 at the end of the file, else the record filled and the
  rest of the file.\<close>

definition read_record :: "(string \<Rightarrow> 'd) \<Rightarrow> 'd place \<Rightarrow> string \<Rightarrow> ('d place \<times> string) option" where
  "read_record atof r f =
     (case getline f of None \<Rightarrow> None
      | Some (buf, rest) \<Rightarrow> Some (read_fields atof buf (r\<lparr>line := buf\<rparr>), rest))"

definition header_names :: "string list" where
  "header_names =
    [''name'', ''alternative_names'', ''osm_type'', ''osm_id'', ''class'', ''type'', ''lon'', ''lat'',
     ''place_rank'', ''importance'', ''street'', ''city'', ''county'', ''state'', ''country'',
     ''country_code'', ''display_name'', ''west'', ''south'', ''east'', ''north'', ''wikidata'',
     ''wikipedia'', ''housenumbers'']"

definition input_looks_ok :: "string \<Rightarrow> int \<times> string" where
  "input_looks_ok f =
     (case getline f of None \<Rightarrow> (-1, f)
      | Some (buf, rest) \<Rightarrow> (if c_str buf = join_tab header_names @ [NL] then 1 else 0, rest))"

lemma read_record_shorter: "read_record atof r f = Some (r', rest) \<Longrightarrow> length rest < length f"
  using line_split_shorter[of f] by (auto simp: read_record_def getline_def split: if_splits prod.splits)

text \<open>The loop of \<open>read_records\<close>: the records read so far, the capacity of the array and what
  its memory holds. A write behind the array is \<open>None\<close>, and so is the overflow of \<open>capacity\<close>, an
  \<open>int\<close>; the counter \<open>i\<close> is the number of records and never above it.\<close>

function records_loop :: "(string \<Rightarrow> 'd) \<Rightarrow> (nat \<Rightarrow> 'd place) \<Rightarrow> int \<Rightarrow> 'd place list \<Rightarrow> string \<Rightarrow> 'd place list option" where
  "records_loop atof fresh capacity rs f =
     (if capacity \<le> int (length rs) then None
      else case read_record atof (fresh (length rs)) f of
          None \<Rightarrow> Some rs
        | Some (r, rest) \<Rightarrow>
            let rs = rs @ [r]
            in if int (length rs) = capacity
               then if 2147483648 \<le> capacity * 2 then None else records_loop atof fresh (capacity * 2) rs rest
               else records_loop atof fresh capacity rs rest)"
  by pat_completeness auto

termination
  by (relation "measure (\<lambda>(atof, fresh, capacity, rs, f). length f)") (auto dest: read_record_shorter)

declare records_loop.simps [simp del]

text \<open>\<open>read_records\<close>: the file is \<open>None\<close> when it cannot be opened. The outer \<open>None\<close> is a write
  behind the array or an overflow, the inner one the NULL the caller gets.\<close>

definition read_records :: "(string \<Rightarrow> 'd) \<Rightarrow> (nat \<Rightarrow> 'd place) \<Rightarrow> string option \<Rightarrow> 'd place list option option" where
  "read_records atof fresh file =
     (case file of None \<Rightarrow> Some None
      | Some f \<Rightarrow> (let (ok, rest) = input_looks_ok f
                   in if ok = 0 then Some None else map_option Some (records_loop atof fresh 100 [] rest)))"

subsection \<open>Lines and fields\<close>

lemma next_field_hit: "TAB \<notin> set t \<Longrightarrow> next_field put (r, t @ TAB # s) = (put t r, s)"
  by (simp add: next_field_def split_tab_field)

lemma next_field_miss: "TAB \<notin> set s \<Longrightarrow> next_field put (r, s) = (r, s)"
  by (simp add: next_field_def split_tab_none)

text \<open>Every setter but the last gets its text: the text after the last tab is never stored.\<close>

lemma fold_fields:
  "length puts = length ts \<Longrightarrow> \<forall>t \<in> set (l # ts). TAB \<notin> set t \<Longrightarrow>
   fold next_field (puts @ [p]) (r, join_tab (ts @ [l])) = (fold (\<lambda>(put, t) r. put t r) (zip puts ts) r, l)"
proof (induction puts ts arbitrary: r rule: list_induct2)
  case (Cons put puts t ts)
  have "join_tab ((t # ts) @ [l]) = t @ TAB # join_tab (ts @ [l])" using join_tab_Cons[of "ts @ [l]" t] by simp
  then show ?case using Cons by (simp add: next_field_hit)
qed (simp add: next_field_miss)

definition plain_field :: "string \<Rightarrow> bool" where
  "plain_field t \<longleftrightarrow> TAB \<notin> set t \<and> NL \<notin> set t \<and> CHR 0x00 \<notin> set t"

lemma list24:
  assumes "length ts = 24"
  shows "ts = map ((!) ts) [0,1,2,3,4,5,6,7,8,9,10,11,12,13,14,15,16,17,18,19,20,21,22] @ [ts ! 23]"
proof -
  have "[0..<24] = [0,1,2,3,4,5,6,7,8,9,10,11,12,13,14,15,16,17,18,19,20,21,22] @ [23]" by (simp add: upt_rec)
  then show ?thesis using map_nth[of ts] assms by simp
qed

text \<open>C26: a line of the 24 fields of the format, none of them with a tab, a line end or a zero in it,
  fills the record with the numbers and texts of its fields, in the order of the header, and leaves the
  rest of the file; but the longitude of the west border is the one of field 18 (south), \<open>south\<close>
  and \<open>housenumbers\<close> stay as the memory was, and fields 17 and 23 are lost.\<close>

theorem read_record_fields:
  assumes ts: "length ts = 24" "\<forall>t \<in> set ts. plain_field t"
  shows "read_record atof r (join_tab ts @ NL # f) = Some
    (r\<lparr>name := ts ! 0, alternative_names := ts ! 1, osm_type := ts ! 2, osm_id := atol (ts ! 3), class_name := ts ! 4,
       type_name := ts ! 5, lon := atof (ts ! 6), lat := atof (ts ! 7), place_rank := atoi (ts ! 8),
       importance := atof (ts ! 9), street := ts ! 10, city := ts ! 11, county := ts ! 12, state := ts ! 13,
       country := ts ! 14, country_code := ts ! 15, display_name := ts ! 16, west := atof (ts ! 18),
       east := atof (ts ! 19), north := atof (ts ! 20), wikidata := ts ! 21, wikipedia := ts ! 22,
       line := join_tab ts @ [NL]\<rparr>, f)"
proof -
  let ?hs = "map ((!) ts) [0,1,2,3,4,5,6,7,8,9,10,11,12,13,14,15,16,17,18,19,20,21,22]" and ?l = "ts ! 23 @ [NL]"
  have mem: "ts ! i \<in> set ts" if "i < 24" for i using that ts(1) by simp
  have noNL: "NL \<notin> set (join_tab ts)" using set_join_tab[of ts] ts(2) by (fastforce simp: plain_field_def NL_def TAB_def)
  have noNUL: "CHR 0x00 \<notin> set (join_tab ts @ [NL])"
    using set_join_tab[of ts] ts(2) by (fastforce simp: plain_field_def NL_def TAB_def)
  have line: "join_tab ts @ [NL] = join_tab (?hs @ [?l])"
    by (subst (1) list24[OF ts(1)]) (rule join_tab_snoc)
  have tabs: "\<forall>t \<in> set (?l # ?hs). TAB \<notin> set t"
    using ts(2) mem by (simp add: plain_field_def NL_def TAB_def)
  have sets: "field_setters atof = butlast (field_setters atof) @ [\<lambda>t. housenumbers_update (\<lambda>_. t)]"
    by (simp add: field_setters_def)
  have len: "length (butlast (field_setters atof)) = length ?hs" by (simp add: field_setters_def)
  have "read_fields atof (join_tab ts @ [NL]) r' =
      fold (\<lambda>(put, t) r. put t r) (zip (butlast (field_setters atof)) ?hs) r'" for r' :: "'a place"
    unfolding read_fields_def c_str_no_nul[OF noNUL] by (subst line, subst sets, subst fold_fields[OF len tabs]) simp
  then show ?thesis
    by (simp add: read_record_def getline_def line_split_line[OF noNL] field_setters_def)
qed

lemma read_record_fields_witness:
  "\<forall>r :: int place. \<exists>r'. read_record (\<lambda>t. int (length t)) r (join_tab (replicate 24 ''42'') @ NL # ''x'') = Some (r', ''x'') \<and>
     west r' = 2 \<and> south r' = south r \<and> housenumbers r' = housenumbers r"
proof
  fix r :: "int place"
  have "length (replicate 24 ''42'') = 24" "\<forall>t \<in> set (replicate 24 ''42''). plain_field t"
    by (simp_all add: plain_field_def TAB_def NL_def)
  from read_record_fields[OF this, of "\<lambda>t. int (length t)" r "''x''"]
  show "\<exists>r'. read_record (\<lambda>t. int (length t)) r (join_tab (replicate 24 ''42'') @ NL # ''x'') = Some (r', ''x'') \<and>
     west r' = 2 \<and> south r' = south r \<and> housenumbers r' = housenumbers r" by simp
qed

definition line_record :: "(string \<Rightarrow> 'd) \<Rightarrow> (nat \<Rightarrow> 'd place) \<Rightarrow> nat \<Rightarrow> string \<Rightarrow> 'd place" where
  "line_record atof fresh i buf = read_fields atof buf ((fresh i)\<lparr>line := buf\<rparr>)"

text \<open>The capacities are 100 times the powers of two; twice the largest of them, 1677721600, is no \<open>int\<close> any more.\<close>

lemma capacity_limit: "k \<le> 24 \<Longrightarrow> (2147483648 \<le> 100 * 2 ^ k * (2 :: int)) = (k = 24)"
proof
  assume k: "k \<le> 24" and b: "2147483648 \<le> 100 * 2 ^ k * (2 :: int)"
  show "k = 24"
  proof (rule ccontr)
    assume "k \<noteq> 24"
    then have "(2 :: int) ^ k \<le> 2 ^ 23" using k by (intro power_increasing) auto
    then show False using b by simp
  qed
qed simp

lemma read_loop_all:
  "int (length rs) < capacity \<Longrightarrow> capacity = 100 * 2 ^ k \<Longrightarrow> k \<le> 24 \<Longrightarrow> records_loop atof fresh capacity rs f =
     (if length rs + length (file_lines f) < 1677721600
      then Some (rs @ map2 (line_record atof fresh) [length rs..<length rs + length (file_lines f)] (file_lines f)) else None)"
proof (induction atof fresh capacity rs f arbitrary: k rule: records_loop.induct)
  case (1 atof fresh capacity rs f)
  have below: "capacity \<le> 1677721600" using power_increasing[OF 1(5), of "2 :: int"] 1(4) by simp
  show ?case
  proof (cases "getline f")
    case None
    then show ?thesis using 1(3) below by (simp add: records_loop.simps[of _ _ _ _ f] read_record_def file_lines.simps[of f])
  next
    case (Some p)
    then obtain buf rest where g: "getline f = Some (buf, rest)" by (cases p) auto
    let ?r = "line_record atof fresh (length rs) buf"
    let ?all = "\<lambda>rs f. rs @ map2 (line_record atof fresh) [length rs..<length rs + length (file_lines f)] (file_lines f)"
    have r: "read_record atof (fresh (length rs)) f = Some (?r, rest)" using g by (simp add: read_record_def line_record_def)
    have l: "file_lines f = buf # file_lines rest" using g by (simp add: file_lines.simps[of f])
    have "[length rs..<length rs + Suc k] = length rs # [Suc (length rs)..<Suc (length rs) + k]" for k
      by (simp add: upt_conv_Cons)
    then have all: "?all rs f = ?all (rs @ [?r]) rest" by (simp add: l del: upt_Suc)
    have nb: "\<not> capacity \<le> int (length rs)" using 1(3) by simp
    then have unf: "records_loop atof fresh capacity rs f =
        (if int (length (rs @ [?r])) = capacity
         then if 2147483648 \<le> capacity * 2 then None else records_loop atof fresh (capacity * 2) (rs @ [?r]) rest
         else records_loop atof fresh capacity (rs @ [?r]) rest)"
      using r by (simp add: records_loop.simps[of _ _ _ _ f] Let_def)
    have goal: ?thesis if "records_loop atof fresh capacity rs f = (if length (rs @ [?r]) + length (file_lines rest) < 1677721600
        then Some (?all (rs @ [?r]) rest) else None)"
      using that unfolding all by (simp add: l)
    show ?thesis
    proof (cases "int (length (rs @ [?r])) = capacity")
      case False
      then have "int (length (rs @ [?r])) < capacity" using nb by simp
      from 1(2)[OF nb r refl refl False this 1(4,5)] show ?thesis
        by (intro goal) (simp only: unf if_not_P[OF False])
    next
      case True
      show ?thesis
      proof (cases "k = 24")
        case top: True
        have "records_loop atof fresh capacity rs f = None" using unf True top 1(4) by simp
        moreover have "\<not> length (rs @ [?r]) + length (file_lines rest) < 1677721600" using True top 1(4) by simp
        ultimately show ?thesis by (intro goal) (simp only: if_False)
      next
        case low: False
        then have no: "\<not> 2147483648 \<le> capacity * 2" using capacity_limit[OF 1(5)] 1(4) by simp
        have "int (length (rs @ [?r])) < capacity * 2" "capacity * 2 = 100 * 2 ^ Suc k" "Suc k \<le> 24"
          using True low 1(3-5) by simp_all
        from 1(1)[OF nb r refl refl True no this] show ?thesis
          by (intro goal) (simp only: unf if_P[OF True] if_not_P[OF no])
      qed
    qed
  qed
qed

lemmas read_loop_start = read_loop_all[of "[]" 100 0, simplified]

text \<open>C27: \<open>read_records\<close> never writes behind its array as long as the file has less than 1677721600 lines after its
  header; with more the capacity of the array overflows. Below that bound it returns one record per line after the header,
  in order; a file with another first line gives NULL, an empty file no record but no error.\<close>

theorem read_records_lines:
  "read_records atof fresh (Some f) =
     (case file_lines f of [] \<Rightarrow> Some (Some [])
      | h # ls \<Rightarrow> if c_str h \<noteq> join_tab header_names @ [NL] then Some None
                  else if length ls < 1677721600 then Some (Some (map2 (line_record atof fresh) [0..<length ls] ls)) else None)"
proof (cases "getline f")
  case None
  then have "f = []" by (simp add: getline_def split: if_splits)
  then show ?thesis using read_loop_start[of atof fresh "[]"]
    by (simp add: read_records_def input_looks_ok_def getline_def file_lines.simps)
next
  case (Some p)
  then obtain h rest where g: "getline f = Some (h, rest)" by (cases p) auto
  then have "file_lines f = h # file_lines rest" by (simp add: file_lines.simps[of f])
  then show ?thesis using g read_loop_start[of atof fresh rest]
    by (simp add: read_records_def input_looks_ok_def Let_def)
qed

end
