(* ===== verification/IdQuery.thy ===== *)
theory IdQuery
  imports Records "HOL-Library.Signed_Division" "HOL-Library.Multiset"
begin

text \<open>
  The programs of A1 that look places up by their number: the loop \<open>A1/id_query.c\<close> with its three
  function pointers as a locale, and the four indexes \<open>id_query_naive.c\<close>, \<open>id_query_indexed.c\<close>,
  \<open>id_query_binsort.c\<close> and \<open>id_query_bonus.c\<close>. The result of a lookup is the record the
  returned pointer refers to, and \<open>Some None\<close> for NULL; an outer \<open>None\<close> is a read outside the array or an
  overflow of a signed number.
\<close>

subsection \<open>The query loop\<close>

datatype 'd answer =
    Found i64 string 'd 'd
  | Not_found i64

datatype 'd outcome =
    Usage
  | Read_failed
  | Answers "'d answer list"

text \<open>The lines of the standard input are queries; the times are not modelled.\<close>

definition answer_line :: "('i \<Rightarrow> i64 \<Rightarrow> 'd place option option) \<Rightarrow> 'i \<Rightarrow> string \<Rightarrow> 'd answer option" where
  "answer_line lookup index buf =
     (let needle = atol (c_str buf)
      in map_option (\<lambda>res. case res of Some r \<Rightarrow> Found needle (name r) (lon r) (lat r) | None \<Rightarrow> Not_found needle)
           (lookup index needle))"

function answer_lines :: "('i \<Rightarrow> i64 \<Rightarrow> 'd place option option) \<Rightarrow> 'i \<Rightarrow> string \<Rightarrow> 'd answer list option" where
  "answer_lines lookup index stdin =
     (case getline stdin of None \<Rightarrow> Some []
      | Some (buf, rest) \<Rightarrow>
          (case answer_line lookup index buf of None \<Rightarrow> None
           | Some a \<Rightarrow> map_option ((#) a) (answer_lines lookup index rest)))"
  by pat_completeness auto
termination
proof (relation "measure (\<lambda>(lookup, index, stdin). length stdin)")
  fix lookup :: "'i \<Rightarrow> i64 \<Rightarrow> 'd place option option" and index stdin p buf rest a
  assume "getline stdin = Some p" "(buf, rest) = p"
  then show "((lookup, index, rest), lookup, index, stdin) \<in> measure (\<lambda>(lookup, index, stdin). length stdin)"
    using line_split_shorter[of stdin] by (auto simp: getline_def split: if_splits)
qed simp

declare answer_lines.simps [simp del]

lemma answer_lines_cong:
  "(\<And>k. lookup i k = lookup' i' k) \<Longrightarrow> answer_lines lookup i stdin = answer_lines lookup' i' stdin"
proof (induction stdin rule: measure_induct_rule[of length])
  case (less stdin)
  show ?case
  proof (cases "getline stdin")
    case (Some p)
    then have "length (snd p) < length stdin" using line_split_shorter[of stdin] by (auto simp: getline_def split: if_splits)
    note IH = less(1)[OF this less(2)]
    have "answer_line lookup i b = answer_line lookup' i' b" for b using less(2) by (simp add: answer_line_def)
    then show ?thesis using Some IH
      by (cases p) (simp add: answer_lines.simps[of _ _ stdin] split: option.split)
  qed (simp add: answer_lines.simps)
qed

text \<open>\<open>id_query_loop\<close>: \<open>records\<close> is what \<open>read_records\<close> returned.\<close>

definition id_query_loop :: "nat \<Rightarrow> 'd place list option \<Rightarrow> ('d place list \<Rightarrow> 'i) \<Rightarrow>
    ('i \<Rightarrow> i64 \<Rightarrow> 'd place option option) \<Rightarrow> string \<Rightarrow> 'd outcome option" where
  "id_query_loop argc records mk_index lookup stdin =
     (if argc \<noteq> 2 then Some Usage
      else case records of None \<Rightarrow> Some Read_failed
        | Some rs \<Rightarrow> map_option Answers (answer_lines lookup (mk_index rs) stdin))"

text \<open>The contract of the function pointers, for the arrays \<open>fits\<close> allows: a lookup returns a
  record of the array with the number asked for, and NULL only when there is none.\<close>

locale id_index =
  fixes fits :: "'d place list \<Rightarrow> bool" and mk_index :: "'d place list \<Rightarrow> 'i"
    and lookup :: "'i \<Rightarrow> i64 \<Rightarrow> 'd place option option"
  assumes defined: "fits rs \<Longrightarrow> lookup (mk_index rs) k \<noteq> None"
    and hit: "fits rs \<Longrightarrow> lookup (mk_index rs) k = Some (Some r) \<Longrightarrow> r \<in> set rs \<and> osm_id r = k"
    and miss: "fits rs \<Longrightarrow> lookup (mk_index rs) k = Some None \<Longrightarrow> r \<in> set rs \<Longrightarrow> osm_id r \<noteq> k"
begin

lemma lookup_find:
  assumes "fits rs" "distinct (map osm_id rs)"
  shows "lookup (mk_index rs) k = Some (find (\<lambda>r. osm_id r = k) rs)"
proof -
  obtain res where res: "lookup (mk_index rs) k = Some res" using defined[OF assms(1), of k] by auto
  have "res = find (\<lambda>r. osm_id r = k) rs"
  proof (cases res)
    case None
    then have "find (\<lambda>r. osm_id r = k) rs = None" using miss[OF assms(1)] res by (auto simp: find_None_iff)
    then show ?thesis using None by simp
  next
    case (Some r)
    then have r: "r \<in> set rs" "osm_id r = k" using hit[OF assms(1)] res by auto
    then obtain r' where r': "find (\<lambda>r. osm_id r = k) rs = Some r'"
      by (cases "find (\<lambda>r. osm_id r = k) rs") (auto simp: find_None_iff)
    then have "r' \<in> set rs" "osm_id r' = k" by (auto simp: find_Some_iff)
    then have "r' = r" using r assms(2) by (auto simp: distinct_map inj_on_def)
    then show ?thesis using r' Some by simp
  qed
  then show ?thesis using res by simp
qed

lemma answers_find:
  assumes "fits rs" "distinct (map osm_id rs)"
  shows "answer_lines lookup (mk_index rs) stdin = answer_lines (\<lambda>rs k. Some (find (\<lambda>r. osm_id r = k) rs)) rs stdin"
  by (rule answer_lines_cong) (rule lookup_find[OF assms])

end

text \<open>Reading an array element.\<close>

definition at :: "'a list \<Rightarrow> int \<Rightarrow> 'a option" where
  "at xs i = (if 0 \<le> i \<and> i < int (length xs) then Some (xs ! nat i) else None)"

lemma at_nat [simp]: "i < length xs \<Longrightarrow> at xs (int i) = Some (xs ! i)"
  by (simp add: at_def)

subsection \<open>The naive index\<close>

record 'd naive_data =
  naive_rs :: "'d place list"
  naive_n :: nat

definition mk_naive :: "'d place list \<Rightarrow> 'd naive_data" where
  "mk_naive records = \<lparr>naive_rs = records, naive_n = length records\<rparr>"

text \<open>The loop from index \<open>i\<close>, \<open>left\<close> steps before its end.\<close>

fun naive_loop :: "'d place list \<Rightarrow> i64 \<Rightarrow> nat \<Rightarrow> nat \<Rightarrow> 'd place option option" where
  "naive_loop records needle i 0 = Some None"
| "naive_loop records needle i (Suc left) =
     (case at records (int i) of None \<Rightarrow> None
      | Some r \<Rightarrow> if osm_id r = needle then Some (Some r) else naive_loop records needle (i + 1) left)"

definition lookup_naive :: "'d naive_data \<Rightarrow> i64 \<Rightarrow> 'd place option option" where
  "lookup_naive data needle = naive_loop (naive_rs data) needle 0 (naive_n data)"

lemma naive_loop_find: "i + k = length xs \<Longrightarrow> naive_loop xs needle i k = Some (find (\<lambda>r. osm_id r = needle) (drop i xs))"
proof (induction xs needle i k rule: naive_loop.induct)
  case (2 xs needle i k)
  then have "drop i xs = xs ! i # drop (Suc i) xs" "i < length xs" by (simp_all add: Cons_nth_drop_Suc)
  then show ?case using 2 by simp
qed simp

lemma lookup_naive_find: "lookup_naive (mk_naive xs) k = Some (find (\<lambda>r. osm_id r = k) xs)"
  by (simp add: lookup_naive_def mk_naive_def naive_loop_find)

lemma find_hit: "find P xs = Some r \<Longrightarrow> r \<in> set xs \<and> P r"
  by (auto simp: find_Some_iff)

lemma find_miss: "find P xs = None \<Longrightarrow> r \<in> set xs \<Longrightarrow> \<not> P r"
  by (auto simp: find_None_iff)

interpretation naive: id_index "\<lambda>_. True" mk_naive lookup_naive
  by unfold_locales (auto simp: lookup_naive_find dest: find_hit find_miss)

subsection \<open>The indexed array\<close>

record 'd index_record =
  ir_id :: i64
  ir_record :: "'d place"

record 'd indexed_data =
  irs :: "'d index_record list"
  irs_n :: nat

fun index_loop :: "'d place list \<Rightarrow> 'd index_record list" where
  "index_loop [] = []"
| "index_loop (r # records) = \<lparr>ir_id = osm_id r, ir_record = r\<rparr> # index_loop records"

definition mk_indexed :: "'d place list \<Rightarrow> 'd indexed_data" where
  "mk_indexed records = \<lparr>irs = index_loop records, irs_n = length records\<rparr>"

fun indexed_loop :: "'d index_record list \<Rightarrow> i64 \<Rightarrow> nat \<Rightarrow> nat \<Rightarrow> 'd place option option" where
  "indexed_loop records needle i 0 = Some None"
| "indexed_loop records needle i (Suc left) =
     (case at records (int i) of None \<Rightarrow> None
      | Some ir \<Rightarrow> if ir_id ir = needle then Some (Some (ir_record ir)) else indexed_loop records needle (i + 1) left)"

definition lookup_indexed :: "'d indexed_data \<Rightarrow> i64 \<Rightarrow> 'd place option option" where
  "lookup_indexed data needle = indexed_loop (irs data) needle 0 (irs_n data)"

lemma index_loop_map: "index_loop xs = map (\<lambda>r. \<lparr>ir_id = osm_id r, ir_record = r\<rparr>) xs"
  by (induction xs) simp_all

lemma indexed_loop_naive: "i + k = length xs \<Longrightarrow> indexed_loop (index_loop xs) needle i k = naive_loop xs needle i k"
  by (induction xs needle i k rule: naive_loop.induct) (simp_all add: index_loop_map)

lemma lookup_indexed_find: "lookup_indexed (mk_indexed xs) k = Some (find (\<lambda>r. osm_id r = k) xs)"
  by (simp add: lookup_indexed_def mk_indexed_def indexed_loop_naive naive_loop_find)

interpretation indexed: id_index "\<lambda>_. True" mk_indexed lookup_indexed
  by unfold_locales (auto simp: lookup_indexed_find dest: find_hit find_miss)

subsection \<open>Sorting and binary search\<close>

definition compare_index_records :: "'d place \<Rightarrow> 'd place \<Rightarrow> int" where
  "compare_index_records a b = (if osm_id a <s osm_id b then -1 else if osm_id b <s osm_id a then 1 else 0)"

text \<open>\<open>qsort\<close> of the C library sorts the array; the order of elements that compare equal is
  not specified there and no lemma below uses it.\<close>

fun qsort_insert :: "('a \<Rightarrow> 'a \<Rightarrow> int) \<Rightarrow> 'a \<Rightarrow> 'a list \<Rightarrow> 'a list" where
  "qsort_insert cmp x [] = [x]"
| "qsort_insert cmp x (y # ys) = (if cmp x y \<le> 0 then x # y # ys else y # qsort_insert cmp x ys)"

definition qsort :: "('a \<Rightarrow> 'a \<Rightarrow> int) \<Rightarrow> 'a list \<Rightarrow> 'a list" where
  "qsort cmp xs = foldr (qsort_insert cmp) xs []"

record 'd bin_data =
  bin_rs :: "'d place list"
  bin_n :: nat

definition mk_binsort :: "'d place list \<Rightarrow> 'd bin_data" where
  "mk_binsort records = \<lparr>bin_rs = qsort compare_index_records records, bin_n = length records\<rparr>"

lemma sdiv_middle: "(left :: int) \<le> right \<Longrightarrow> left \<le> (left + right) sdiv 2 \<and> (left + right) sdiv 2 \<le> right"
  by (cases "left + right < 0") (auto simp: signed_divide_int_def sgn_if)

text \<open>The loop of \<open>binary_search\<close>. \<open>sdiv\<close> is the division of C, rounding towards zero.\<close>

function bs_loop :: "'d place list \<Rightarrow> i64 \<Rightarrow> int \<Rightarrow> int \<Rightarrow> 'd place option option" where
  "bs_loop records needle left right =
     (if left \<le> right then
        if 2147483648 \<le> left + right then None
        else let median = (left + right) sdiv 2
             in case at records median of None \<Rightarrow> None
               | Some r \<Rightarrow>
                   if osm_id r <s needle then bs_loop records needle (median + 1) right
                   else if needle <s osm_id r then bs_loop records needle left (median - 1)
                   else Some (Some r)
      else Some None)"
  by pat_completeness auto

termination
  by (relation "measure (\<lambda>(records, needle, left, right). nat (right - left + 1))") (use sdiv_middle in \<open>fastforce+\<close>)

declare bs_loop.simps [simp del]

definition binary_search :: "'d place list \<Rightarrow> nat \<Rightarrow> i64 \<Rightarrow> 'd place option option" where
  "binary_search records n needle = bs_loop records needle 0 (int n - 1)"

definition lookup_binary :: "'d bin_data \<Rightarrow> i64 \<Rightarrow> 'd place option option" where
  "lookup_binary data needle = binary_search (bin_rs data) (bin_n data) needle"

subsection \<open>The search tree\<close>

datatype 'd treeNode =
    NULL
  | TreeNode (node_id: i64) (node_value: "'d place") (node_left: "'d treeNode") (node_right: "'d treeNode")

text \<open>\<open>fresh\<close> is what the memory of a new node holds as its two pointers: the code does not
  set them. The nodes get their memory one after the other, each its own; only pointers that lead to
  trees are considered, not those to no node at all or in circles.\<close>

fun construct_treeNode :: "'d treeNode \<times> 'd treeNode \<Rightarrow> 'd treeNode \<Rightarrow> 'd place \<Rightarrow> 'd treeNode" where
  "construct_treeNode fresh NULL r = TreeNode (osm_id r) r (fst fresh) (snd fresh)"
| "construct_treeNode fresh (TreeNode k v left right) r =
     (if k \<le>s osm_id r then TreeNode k v left (construct_treeNode fresh right r)
      else TreeNode k v (construct_treeNode fresh left r) right)"

fun tree_loop :: "(nat \<Rightarrow> 'd treeNode \<times> 'd treeNode) \<Rightarrow> nat \<Rightarrow> 'd treeNode \<Rightarrow> 'd place list \<Rightarrow> 'd treeNode" where
  "tree_loop fresh i t [] = t"
| "tree_loop fresh i t (r # records) = tree_loop fresh (Suc i) (construct_treeNode (fresh i) t r) records"

definition mk_tree :: "(nat \<Rightarrow> 'd treeNode \<times> 'd treeNode) \<Rightarrow> 'd place list \<Rightarrow> 'd treeNode" where
  "mk_tree fresh records = tree_loop fresh 0 NULL records"

text \<open>What the program relies on: the memory of every new node is clear.\<close>

definition clear_nodes :: "(nat \<Rightarrow> 'd treeNode \<times> 'd treeNode) \<Rightarrow> bool" where
  "clear_nodes fresh \<longleftrightarrow> (\<forall>i. fresh i = (NULL, NULL))"

fun lookup_tree :: "'d treeNode \<Rightarrow> i64 \<Rightarrow> 'd place option" where
  "lookup_tree NULL needle = None"
| "lookup_tree (TreeNode k v left right) needle =
     (if k = needle then Some v
      else if needle <s k then lookup_tree left needle else lookup_tree right needle)"

text \<open>The records whose nodes \<open>free_indexed\<close> frees, in order.\<close>

fun free_tree :: "'d treeNode \<Rightarrow> 'd place list" where
  "free_tree NULL = []"
| "free_tree (TreeNode k v left right) = free_tree right @ free_tree left @ [v]"

subsection \<open>The binary search finds\<close>

definition id_sorted :: "'d place list \<Rightarrow> bool" where
  "id_sorted xs \<longleftrightarrow> sorted (map (\<lambda>r. sint (osm_id r)) xs)"

lemma compare_index_records_le: "compare_index_records a b \<le> 0 \<longleftrightarrow> sint (osm_id a) \<le> sint (osm_id b)"
  by (auto simp: compare_index_records_def word_sless_alt)

lemma qsort_insert_sorted: "id_sorted ys \<Longrightarrow> id_sorted (qsort_insert compare_index_records x ys) \<and>
   mset (qsort_insert compare_index_records x ys) = add_mset x (mset ys)"
proof (induction ys)
  case (Cons y ys)
  have "set (qsort_insert compare_index_records x ys) = insert x (set ys)"
    using Cons mset_eq_setD[of _ "x # ys"] by (simp add: id_sorted_def)
  then show ?case using Cons
    by (auto simp: id_sorted_def compare_index_records_le)
qed (simp add: id_sorted_def)

lemma qsort_sorted: "id_sorted (qsort compare_index_records xs) \<and> mset (qsort compare_index_records xs) = mset xs"
proof (induction xs)
  case (Cons x xs)
  then show ?case using qsort_insert_sorted[of "qsort compare_index_records xs" x] by (simp add: qsort_def)
qed (simp add: id_sorted_def qsort_def)

lemma bs_loop_correct:
  "id_sorted xs \<Longrightarrow> int (length xs) \<le> 1073741824 \<Longrightarrow> 0 \<le> left \<Longrightarrow> right < int (length xs) \<Longrightarrow>
   (\<forall>i < length xs. osm_id (xs ! i) = k \<longrightarrow> left \<le> int i \<and> int i \<le> right) \<Longrightarrow>
   \<exists>res. bs_loop xs k left right = Some res \<and>
     (case res of Some r \<Rightarrow> r \<in> set xs \<and> osm_id r = k | None \<Rightarrow> \<forall>r \<in> set xs. osm_id r \<noteq> k)"
proof (induction xs k left right rule: bs_loop.induct)
  case (1 xs k left right)
  show ?case
  proof (cases "left \<le> right")
    case False
    then have "\<forall>r \<in> set xs. osm_id r \<noteq> k" using 1(7) by (fastforce simp: in_set_conv_nth)
    then show ?thesis using False by (simp add: bs_loop.simps[of xs k left right])
  next
    case True
    let ?m = "(left + right) sdiv 2"
    have m: "left \<le> ?m" "?m \<le> right" using sdiv_middle[OF True] by simp_all
    have small: "\<not> 2147483648 \<le> left + right" using 1(4,6) True by simp
    let ?r = "xs ! nat ?m"
    have at: "at xs ?m = Some ?r" using m 1(5,6) by (simp add: at_def)
    have mono: "sint (osm_id (xs ! i)) \<le> sint (osm_id (xs ! j))" if "i \<le> j" "j < length xs" for i j
      using 1(3) sorted_nth_mono[of "map (\<lambda>r. sint (osm_id r)) xs" i j] that by (simp add: id_sorted_def)
    have nm: "nat ?m < length xs" using m 1(5,6) by (simp add: nat_less_iff)
    consider (lower) "osm_id ?r <s k" | (higher) "k <s osm_id ?r" "\<not> osm_id ?r <s k" | (same) "osm_id ?r = k"
      by (metis signed.linorder_cases signed.less_asym)
    then show ?thesis
    proof cases
      case lower
      have "left \<le> int i" "?m + 1 \<le> int i" "int i \<le> right" if i: "i < length xs" "osm_id (xs ! i) = k" for i
      proof -
        have "\<not> i \<le> nat ?m" using mono[OF _ nm, of i] lower i by (auto simp: word_sless_alt)
        then show "left \<le> int i" "?m + 1 \<le> int i" "int i \<le> right" using 1(7) i by auto
      qed
      then show ?thesis using 1(1)[OF True small refl at lower 1(3,4)] lower m 1(5,6) small at True
        by (simp add: bs_loop.simps[of xs k left right])
    next
      case higher
      have "left \<le> int i" "int i \<le> ?m - 1" if i: "i < length xs" "osm_id (xs ! i) = k" for i
      proof -
        have "\<not> nat ?m \<le> i" using mono[of "nat ?m" i] higher i by (auto simp: word_sless_alt)
        then show "left \<le> int i" "int i \<le> ?m - 1" using 1(7) i m by auto
      qed
      then show ?thesis using 1(2)[OF True small refl at higher(2,1) 1(3,4)] higher m 1(5,6) small at True
        by (simp add: bs_loop.simps[of xs k left right])
    next
      case same
      then show ?thesis using small at True nm by (simp add: bs_loop.simps[of xs k left right])
    qed
  qed
qed

definition fits_search :: "'d place list \<Rightarrow> bool" where
  "fits_search xs \<longleftrightarrow> int (length xs) \<le> 1073741824"

lemma binary_search_correct:
  assumes "id_sorted xs" "fits_search xs"
  shows "\<exists>res. binary_search xs (length xs) k = Some res \<and>
     (case res of Some r \<Rightarrow> r \<in> set xs \<and> osm_id r = k | None \<Rightarrow> \<forall>r \<in> set xs. osm_id r \<noteq> k)"
  unfolding binary_search_def by (rule bs_loop_correct) (use assms in \<open>auto simp: fits_search_def\<close>)

lemma lookup_binary_correct:
  assumes "fits_search xs"
  shows "\<exists>res. lookup_binary (mk_binsort xs) k = Some res \<and>
     (case res of Some r \<Rightarrow> r \<in> set xs \<and> osm_id r = k | None \<Rightarrow> \<forall>r \<in> set xs. osm_id r \<noteq> k)"
proof -
  let ?s = "qsort compare_index_records xs"
  have s: "id_sorted ?s" "mset ?s = mset xs" using qsort_sorted by blast+
  then have "length ?s = length xs" "set ?s = set xs" by (metis size_mset, metis mset_eq_setD)
  then show ?thesis using binary_search_correct[OF s(1), of k] assms
    by (simp add: lookup_binary_def mk_binsort_def fits_search_def cong: option.case_cong)
qed

interpretation binsort: id_index fits_search mk_binsort lookup_binary
proof unfold_locales
  fix xs :: "'a place list" and k r
  assume fits: "fits_search xs"
  show "lookup_binary (mk_binsort xs) k \<noteq> None" using lookup_binary_correct[OF fits, of k] by auto
  show "r \<in> set xs \<and> osm_id r = k" if "lookup_binary (mk_binsort xs) k = Some (Some r)"
    using lookup_binary_correct[OF fits, of k] that by auto
  show "osm_id r \<noteq> k" if "lookup_binary (mk_binsort xs) k = Some None" "r \<in> set xs"
    using lookup_binary_correct[OF fits, of k] that by auto
qed

subsection \<open>The search tree finds\<close>

lemma lookup_construct:
  "lookup_tree (construct_treeNode (NULL, NULL) t r) k =
     (case lookup_tree t k of Some v \<Rightarrow> Some v | None \<Rightarrow> if osm_id r = k then Some r else None)"
  by (induction t) (auto split: option.splits simp: word_sless_alt word_sle_eq)

lemma find_snoc: "find P (xs @ [x]) = (case find P xs of Some v \<Rightarrow> Some v | None \<Rightarrow> if P x then Some x else None)"
  by (induction xs) auto

lemma tree_loop_append: "tree_loop fresh i t (xs @ ys) = tree_loop fresh (i + length xs) (tree_loop fresh i t xs) ys"
  by (induction xs arbitrary: i t) simp_all

lemma lookup_tree_find:
  assumes "clear_nodes fresh"
  shows "lookup_tree (mk_tree fresh xs) k = find (\<lambda>r. osm_id r = k) xs"
proof (induction xs rule: rev_induct)
  case (snoc x xs)
  have "fresh i = (NULL, NULL)" for i using assms by (simp add: clear_nodes_def)
  with snoc show ?case by (simp add: mk_tree_def tree_loop_append lookup_construct find_snoc split: option.split)
qed (simp add: mk_tree_def)

interpretation tree: id_index "\<lambda>_. clear_nodes fresh" "mk_tree fresh" "\<lambda>t k. Some (lookup_tree t k)" for fresh
  by unfold_locales (auto simp: lookup_tree_find dest: find_hit find_miss)

lemma free_construct: "mset (free_tree (construct_treeNode (NULL, NULL) t r)) = add_mset r (mset (free_tree t))"
  by (induction t) auto

lemma free_tree_all: "clear_nodes fresh \<Longrightarrow> mset (free_tree (mk_tree fresh xs)) = mset xs"
  by (induction xs rule: rev_induct) (simp_all add: mk_tree_def tree_loop_append free_construct clear_nodes_def)

subsection \<open>The programs\<close>

text \<open>A node whose memory still holds a pointer to an old node.\<close>

definition stale_node :: "'d place \<Rightarrow> 'd treeNode" where
  "stale_node old = TreeNode (osm_id old) old NULL NULL"

lemma tree_stale_pointers:
  assumes "osm_id old \<noteq> osm_id r"
  shows "lookup_tree (mk_tree (\<lambda>_. (stale_node old, stale_node old)) [r]) (osm_id old) = Some old"
  using assms by (simp add: mk_tree_def stale_node_def)

text \<open>C14: the programs over the four indexes against the one over the naive search, for any argument count and input.
  The indexed array answers exactly like it, for every data file, duplicate numbers included. The tree does so when the memory of
  every new node happens to be clear, as the code takes for granted without setting the two pointers; where it holds pointers to an
  old node, the lookup of that node's number finds its record in a data file that does not have it. The
  binary search answers like the naive one where the numbers are distinct and the file has at most 2^30 records.\<close>

theorem indexes_agree:
  "id_query_loop argc datafile mk_indexed lookup_indexed stdin = id_query_loop argc datafile mk_naive lookup_naive stdin \<and>
   (clear_nodes fresh \<longrightarrow> id_query_loop argc datafile (mk_tree fresh) (\<lambda>t k. Some (lookup_tree t k)) stdin =
     id_query_loop argc datafile mk_naive lookup_naive stdin) \<and>
   (osm_id old \<noteq> osm_id r \<longrightarrow> lookup_tree (mk_tree (\<lambda>_. (stale_node old, stale_node old)) [r]) (osm_id old) = Some old \<and>
     lookup_naive (mk_naive [r]) (osm_id old) = Some None) \<and>
   ((\<forall>xs. datafile = Some xs \<longrightarrow> fits_search xs \<and> distinct (map osm_id xs)) \<longrightarrow>
     id_query_loop argc datafile mk_binsort lookup_binary stdin = id_query_loop argc datafile mk_naive lookup_naive stdin)"
proof (intro conjI impI)
  have same: "id_query_loop argc datafile mk lookup stdin = id_query_loop argc datafile mk_naive lookup_naive stdin"
    if "\<And>xs. datafile = Some xs \<Longrightarrow> answer_lines lookup (mk xs) stdin = answer_lines lookup_naive (mk_naive xs) stdin"
    for mk :: "'a place list \<Rightarrow> 'i" and lookup
    using that by (simp add: id_query_loop_def split: option.split)
  show "id_query_loop argc datafile mk_indexed lookup_indexed stdin = id_query_loop argc datafile mk_naive lookup_naive stdin"
    by (rule same, rule answer_lines_cong) (simp add: lookup_indexed_find lookup_naive_find)
  show "id_query_loop argc datafile (mk_tree fresh) (\<lambda>t k. Some (lookup_tree t k)) stdin =
      id_query_loop argc datafile mk_naive lookup_naive stdin" if "clear_nodes fresh"
    by (rule same, rule answer_lines_cong) (simp add: lookup_tree_find[OF that] lookup_naive_find)
  show "lookup_tree (mk_tree (\<lambda>_. (stale_node old, stale_node old)) [r]) (osm_id old) = Some old" if "osm_id old \<noteq> osm_id r"
    by (rule tree_stale_pointers[OF that])
  show "lookup_naive (mk_naive [r]) (osm_id old) = Some None" if "osm_id old \<noteq> osm_id r"
    using that by (simp add: lookup_naive_find)
  show "id_query_loop argc datafile mk_binsort lookup_binary stdin = id_query_loop argc datafile mk_naive lookup_naive stdin"
    if "\<forall>xs. datafile = Some xs \<longrightarrow> fits_search xs \<and> distinct (map osm_id xs)"
    using that by (intro same) (simp add: binsort.answers_find naive.answers_find)
qed

definition demo_place :: "i64 \<Rightarrow> string \<Rightarrow> int place" where
  "demo_place i t = \<lparr>name = t, alternative_names = t, osm_type = t, osm_id = i, class_name = t, type_name = t, lon = 1, lat = 2,
     place_rank = 0, importance = 0, street = t, city = t, county = t, state = t, country = t, country_code = t,
     display_name = t, west = 0, south = 0, east = 0, north = 0, wikidata = t, wikipedia = t, housenumbers = t, line = t\<rparr>"

lemma indexes_agree_witness:
  "id_query_loop 2 (Some [demo_place 7 ''b'', demo_place 3 ''a'']) mk_binsort lookup_binary (''3'' @ [NL]) =
     id_query_loop 2 (Some [demo_place 7 ''b'', demo_place 3 ''a'']) mk_naive lookup_naive (''3'' @ [NL]) \<and>
   id_query_loop 2 (Some [demo_place 7 ''b'', demo_place 3 ''a'']) (mk_tree (\<lambda>_. (NULL, NULL))) (\<lambda>t k. Some (lookup_tree t k)) (''3'' @ [NL]) =
     id_query_loop 2 (Some [demo_place 7 ''b'', demo_place 3 ''a'']) mk_naive lookup_naive (''3'' @ [NL]) \<and>
   lookup_tree (mk_tree (\<lambda>_. (stale_node (demo_place 9 ''c''), stale_node (demo_place 9 ''c''))) [demo_place 3 ''a'']) 9 = Some (demo_place 9 ''c'')"
  using indexes_agree[of 2 "Some [demo_place 7 ''b'', demo_place 3 ''a'']" "''3'' @ [NL]" "\<lambda>_. (NULL, NULL)" "demo_place 9 ''c''" "demo_place 3 ''a''"]
  by (simp add: fits_search_def demo_place_def clear_nodes_def)

text \<open>C28: in an array of at most 2^30 records sorted by number the binary search ends, reads no
  element outside the array, does not overflow, and finds a record with the number exactly when there
  is one.\<close>

theorem binary_search_finds:
  assumes "id_sorted xs" "fits_search xs"
  shows "\<exists>res. binary_search xs (length xs) k = Some res \<and>
     (case res of Some r \<Rightarrow> r \<in> set xs \<and> osm_id r = k | None \<Rightarrow> \<forall>r \<in> set xs. osm_id r \<noteq> k)"
  using assms by (rule binary_search_correct)

definition demo_places :: "int place list" where
  "demo_places = [demo_place 3 ''a'', demo_place 7 ''b'']"

lemma binary_search_finds_witness:
  "\<exists>res. binary_search demo_places (length demo_places) 7 = Some res \<and>
     (case res of Some r \<Rightarrow> r \<in> set demo_places \<and> osm_id r = 7 | None \<Rightarrow> \<forall>r \<in> set demo_places. osm_id r \<noteq> 7)"
  by (rule binary_search_finds) (simp_all add: id_sorted_def fits_search_def demo_place_def demo_places_def)

end
