(* ===== verification/HeapUse.thy ===== *)
theory HeapUse
  imports IdQuery
begin

text \<open>
  The memory of the programs of A1: which blocks \<open>record.c\<close>, \<open>id_query.c\<close> and the four indexes allocate and free, the stream
  of the data file included. A block has a number of its own; \<open>free\<close> of a block that is not in use is \<open>None\<close>. \<open>realloc\<close>
  always moves, and \<open>getline\<close> allocates even when it finds no line, as its manual allows. The pointers that the memory of
  a new tree node holds are an argument, as in \<open>IdQuery\<close>.
\<close>

subsection \<open>Blocks\<close>

record blocks =
  next_block :: nat
  in_use :: "nat set"

definition alloc_block :: "blocks \<Rightarrow> nat \<times> blocks" where
  "alloc_block h = (next_block h, h\<lparr>next_block := next_block h + 1, in_use := insert (next_block h) (in_use h)\<rparr>)"

definition free_block :: "nat \<Rightarrow> blocks \<Rightarrow> blocks option" where
  "free_block b h = (if b \<in> in_use h then Some (h\<lparr>in_use := in_use h - {b}\<rparr>) else None)"

definition move_block :: "nat \<Rightarrow> blocks \<Rightarrow> (nat \<times> blocks) option" where
  "move_block b h = map_option alloc_block (free_block b h)"

fun free_list :: "nat list \<Rightarrow> blocks \<Rightarrow> blocks option" where
  "free_list [] h = Some h"
| "free_list (b # bs) h = Option.bind (free_block b h) (free_list bs)"

text \<open>\<open>getline\<close> with the buffer of the call before.\<close>

definition getline_buffer :: "nat option \<Rightarrow> blocks \<Rightarrow> (nat \<times> blocks) option" where
  "getline_buffer buf h = (case buf of None \<Rightarrow> Some (alloc_block h) | Some b \<Rightarrow> move_block b h)"

subsection \<open>Reading the records\<close>

datatype header = Header_right | Header_wrong | Header_missing

text \<open>\<open>input_looks_ok\<close>: its result as an \<open>int\<close>.\<close>

definition looks_ok :: "header \<Rightarrow> blocks \<Rightarrow> (int \<times> blocks) option" where
  "looks_ok hdr h =
     (let (buf, h) = alloc_block h
      in case hdr of Header_missing \<Rightarrow> Some (-1, h)
         | Header_right \<Rightarrow> map_option (Pair 1) (free_block buf h)
         | Header_wrong \<Rightarrow> map_option (Pair 0) (free_block buf h))"

text \<open>The loop of \<open>read_records\<close> for the numbers in the lines to come: a record is its number and the block of its line.
  \<open>None\<close> is also the overflow of the capacity.\<close>

type_synonym rec_block = "i64 \<times> nat"

fun read_blocks :: "i64 list \<Rightarrow> int \<Rightarrow> nat \<Rightarrow> rec_block list \<Rightarrow> blocks \<Rightarrow> (nat \<times> rec_block list \<times> blocks) option" where
  "read_blocks [] capacity rs recs h =
     (let (buf, h) = alloc_block h in map_option (\<lambda>h. (rs, recs, h)) (free_block buf h))"
| "read_blocks (k # ks) capacity rs recs h =
     (let (buf, h) = alloc_block h; recs = recs @ [(k, buf)]
      in if int (length recs) = capacity
         then if 2147483648 \<le> capacity * 2 then None
              else Option.bind (move_block rs h) (\<lambda>(rs, h). read_blocks ks (capacity * 2) rs recs h)
         else read_blocks ks capacity rs recs h)"

text \<open>\<open>read_records\<close>: \<open>None\<close> of the result is the pointer NULL.\<close>

definition read_file :: "header \<Rightarrow> i64 list \<Rightarrow> blocks \<Rightarrow> ((nat \<times> rec_block list) option \<times> blocks) option" where
  "read_file hdr ks h =
     (let (f, h) = alloc_block h
      in Option.bind (looks_ok hdr h) (\<lambda>(ok, h).
         if ok = 0 then Some (None, h)
         else let (rs, h) = alloc_block h
           in Option.bind (read_blocks ks 100 rs [] h) (\<lambda>(rs, recs, h).
              map_option (Pair (Some (rs, recs))) (free_block f h))))"

definition free_records :: "nat \<Rightarrow> rec_block list \<Rightarrow> blocks \<Rightarrow> blocks option" where
  "free_records rs recs h = Option.bind (free_list (map snd recs) h) (free_block rs)"

subsection \<open>The program\<close>

text \<open>The loop over the input, with the number of its lines.\<close>

fun query_lines :: "nat \<Rightarrow> nat option \<Rightarrow> blocks \<Rightarrow> (nat option \<times> blocks) option" where
  "query_lines 0 buf h = map_option (\<lambda>(b, h). (Some b, h)) (getline_buffer buf h)"
| "query_lines (Suc n) buf h = Option.bind (getline_buffer buf h) (\<lambda>(b, h). query_lines n (Some b) h)"

text \<open>An index may order the array of records; \<open>free (NULL)\<close> does nothing.\<close>

definition id_query_memory :: "(rec_block list \<Rightarrow> blocks \<Rightarrow> 'i \<times> rec_block list \<times> blocks) \<Rightarrow> ('i \<Rightarrow> blocks \<Rightarrow> blocks option) \<Rightarrow>
    header \<Rightarrow> i64 list \<Rightarrow> nat \<Rightarrow> blocks \<Rightarrow> blocks option" where
  "id_query_memory mk_index free_index hdr ks queries h =
     Option.bind (read_file hdr ks h) (\<lambda>(res, h).
     case res of None \<Rightarrow> Some h
     | Some (rs, recs) \<Rightarrow>
         let (index, recs, h) = mk_index recs h
         in Option.bind (query_lines queries None h) (\<lambda>(buf, h).
            Option.bind (case buf of None \<Rightarrow> Some h | Some b \<Rightarrow> free_block b h) (\<lambda>h.
            Option.bind (free_index index h) (free_records rs recs))))"

subsection \<open>The indexes\<close>

definition mk_naive_block :: "rec_block list \<Rightarrow> blocks \<Rightarrow> nat \<times> rec_block list \<times> blocks" where
  "mk_naive_block recs h = (let (data, h) = alloc_block h in (data, recs, h))"

definition free_naive :: "nat \<Rightarrow> blocks \<Rightarrow> blocks option" where
  "free_naive data h = free_block data h"

definition mk_indexed_blocks :: "rec_block list \<Rightarrow> blocks \<Rightarrow> (nat \<times> nat) \<times> rec_block list \<times> blocks" where
  "mk_indexed_blocks recs h = (let (data, h) = alloc_block h; (ix, h) = alloc_block h in ((data, ix), recs, h))"

definition free_indexed :: "nat \<times> nat \<Rightarrow> blocks \<Rightarrow> blocks option" where
  "free_indexed = (\<lambda>(data, ix) h. Option.bind (free_block ix h) (free_block data))"

definition mk_binsort_block :: "rec_block list \<Rightarrow> blocks \<Rightarrow> nat \<times> rec_block list \<times> blocks" where
  "mk_binsort_block recs h =
     (let (data, h) = alloc_block h
      in (data, qsort (\<lambda>a b. if fst a <s fst b then -1 else if fst b <s fst a then 1 else 0) recs, h))"

definition free_binsort :: "nat \<Rightarrow> blocks \<Rightarrow> blocks option" where
  "free_binsort data h = free_block data h"

text \<open>A node of the tree is its block and what it holds; \<open>junk\<close> is what the memory of a new node holds as its two pointers.\<close>

datatype node_block = Null | Node nat i64 node_block node_block

fun add_node :: "node_block \<times> node_block \<Rightarrow> node_block \<Rightarrow> i64 \<Rightarrow> blocks \<Rightarrow> node_block \<times> blocks" where
  "add_node junk Null k h = (let (b, h) = alloc_block h in (Node b k (fst junk) (snd junk), h))"
| "add_node junk (Node b k' left right) k h =
     (if k' \<le>s k then let (right, h) = add_node junk right k h in (Node b k' left right, h)
      else let (left, h) = add_node junk left k h in (Node b k' left right, h))"

fun nodes_loop :: "(nat \<Rightarrow> node_block \<times> node_block) \<Rightarrow> nat \<Rightarrow> node_block \<Rightarrow> rec_block list \<Rightarrow> blocks \<Rightarrow> node_block \<times> blocks" where
  "nodes_loop junk i t [] h = (t, h)"
| "nodes_loop junk i t (r # recs) h = (let (t, h) = add_node (junk i) t (fst r) h in nodes_loop junk (Suc i) t recs h)"

definition mk_nodes :: "(nat \<Rightarrow> node_block \<times> node_block) \<Rightarrow> rec_block list \<Rightarrow> blocks \<Rightarrow> node_block \<times> rec_block list \<times> blocks" where
  "mk_nodes junk recs h = (let (t, h) = nodes_loop junk 0 Null recs h in (t, recs, h))"

fun free_nodes :: "node_block \<Rightarrow> blocks \<Rightarrow> blocks option" where
  "free_nodes Null h = Some h"
| "free_nodes (Node b k left right) h = Option.bind (free_nodes right h) (\<lambda>h. Option.bind (free_nodes left h) (free_block b))"

subsection \<open>Blocks are given back\<close>

text \<open>New blocks are new.\<close>

definition proper :: "blocks \<Rightarrow> bool" where
  "proper h \<longleftrightarrow> (\<forall>b \<in> in_use h. b < next_block h)"

text \<open>\<open>h'\<close> has the blocks \<open>bs\<close> more than \<open>h\<close>.\<close>

definition gained :: "blocks \<Rightarrow> nat list \<Rightarrow> blocks \<Rightarrow> bool" where
  "gained h bs h' \<longleftrightarrow> proper h' \<and> distinct bs \<and> set bs \<inter> in_use h = {} \<and> in_use h' = in_use h \<union> set bs \<and> next_block h \<le> next_block h'"

lemma gained_refl: "proper h \<Longrightarrow> gained h [] h"
  by (simp add: gained_def)

lemma gained_perm: "gained h bs h' \<Longrightarrow> mset cs = mset bs \<Longrightarrow> gained h cs h'"
  using mset_eq_setD[of cs bs] mset_eq_imp_distinct_iff[of cs bs] by (simp add: gained_def)

lemma malloc_gained:
  assumes "gained h0 bs h" "proper h0" "alloc_block h = (b, h')" shows "gained h0 (b # bs) h'"
proof -
  have b: "b = next_block h" "in_use h' = insert b (in_use h)" "next_block h' = next_block h + 1" using assms(3) by (auto simp: alloc_block_def)
  have "b \<notin> in_use h" "b \<notin> in_use h0" using assms(1,2) b(1) by (auto simp: gained_def proper_def)
  then show ?thesis using assms(1) b by (auto simp: gained_def proper_def less_Suc_eq)
qed

lemma free_gained:
  assumes "gained h0 (b # bs) h" obtains h' where "free_block b h = Some h'" "gained h0 bs h'"
proof -
  have "b \<in> in_use h" using assms by (simp add: gained_def)
  then have "free_block b h = Some (h\<lparr>in_use := in_use h - {b}\<rparr>)" by (simp add: free_block_def)
  moreover have "gained h0 bs (h\<lparr>in_use := in_use h - {b}\<rparr>)" using assms by (auto simp: gained_def proper_def)
  ultimately show ?thesis by (rule that)
qed

lemma realloc_gained:
  assumes "gained h0 (b # bs) h" "proper h0" obtains b' h' where "move_block b h = Some (b', h')" "gained h0 (b' # bs) h'"
proof -
  obtain h1 where h1: "free_block b h = Some h1" "gained h0 bs h1" using free_gained[OF assms(1)] .
  obtain b' h' where m: "alloc_block h1 = (b', h')" by (rule prod.exhaust)
  show ?thesis using that[of b' h'] malloc_gained[OF h1(2) assms(2) m] h1(1) m by (simp add: move_block_def)
qed

lemma free_list_gained: "gained h0 (cs @ bs) h \<Longrightarrow> \<exists>h'. free_list cs h = Some h' \<and> gained h0 bs h'"
proof (induction cs arbitrary: h)
  case (Cons c cs)
  then show ?case using free_gained[of h0 c "cs @ bs" h] by (metis append_Cons bind.simps(2) free_list.simps(2))
qed simp

lemma getline_gained:
  assumes "gained h0 ((case buf of None \<Rightarrow> [] | Some b \<Rightarrow> [b]) @ bs) h" "proper h0"
  obtains b h' where "getline_buffer buf h = Some (b, h')" "gained h0 (b # bs) h'"
proof (cases buf)
  case None
  obtain b h' where m: "alloc_block h = (b, h')" by (rule prod.exhaust)
  then show ?thesis using that[of b h'] malloc_gained[OF _ assms(2) m, of bs] assms(1) None by (simp add: getline_buffer_def)
next
  case (Some b)
  then show ?thesis using realloc_gained[of h0 b bs h] assms that by (auto simp: getline_buffer_def)
qed

lemma query_lines_gained:
  "gained h0 ((case buf of None \<Rightarrow> [] | Some b \<Rightarrow> [b]) @ bs) h \<Longrightarrow> proper h0 \<Longrightarrow>
     \<exists>b h'. query_lines n buf h = Some (Some b, h') \<and> gained h0 (b # bs) h'"
proof (induction n arbitrary: buf h)
  case 0
  then obtain b h' where "getline_buffer buf h = Some (b, h')" "gained h0 (b # bs) h'" by (rule getline_gained)
  then show ?case by simp
next
  case (Suc n)
  obtain b h' where g: "getline_buffer buf h = Some (b, h')" "gained h0 (b # bs) h'" using getline_gained[OF Suc.prems] .
  with Suc.IH[of "Some b" h'] Suc.prems(2) show ?case by simp
qed

lemma read_blocks_gained:
  "gained h0 (rs # map snd recs @ bs) h \<Longrightarrow> proper h0 \<Longrightarrow> int (length recs) < capacity \<Longrightarrow> capacity = 100 * 2 ^ e \<Longrightarrow> e \<le> 24 \<Longrightarrow>
     length recs + length ks < 1677721600 \<Longrightarrow>
     \<exists>rs' recs' h'. read_blocks ks capacity rs recs h = Some (rs', recs', h') \<and> gained h0 (rs' # map snd recs' @ bs) h'"
proof (induction ks arbitrary: e capacity rs recs h)
  case Nil
  obtain b h1 where m: "alloc_block h = (b, h1)" by (rule prod.exhaust)
  obtain h2 where "free_block b h1 = Some h2" "gained h0 (rs # map snd recs @ bs) h2"
    using free_gained[OF malloc_gained[OF Nil(1,2) m]] .
  then show ?case using m by simp
next
  case (Cons k ks)
  obtain b h1 where m: "alloc_block h = (b, h1)" by (rule prod.exhaust)
  let ?recs = "recs @ [(k, b)]"
  have g: "gained h0 (rs # map snd ?recs @ bs) h1" by (rule gained_perm[OF malloc_gained[OF Cons.prems(1,2) m]]) simp
  have len: "length ?recs + length ks < 1677721600" using Cons.prems(6) by simp
  show ?case
  proof (cases "int (length ?recs) = capacity")
    case True
    have "e \<noteq> 24" using True Cons.prems(4) len by auto
    then have e: "\<not> 2147483648 \<le> capacity * 2" "Suc e \<le> 24" using capacity_limit[OF Cons.prems(5)] Cons.prems(4,5) by simp_all
    obtain rs1 h2 where r: "move_block rs h1 = Some (rs1, h2)" "gained h0 (rs1 # map snd ?recs @ bs) h2"
      using realloc_gained[OF g Cons.prems(2)] .
    have "int (length ?recs) < capacity * 2" "capacity * 2 = 100 * 2 ^ Suc e" using True Cons.prems(3,4) by simp_all
    from Cons.IH[OF r(2) Cons.prems(2) this e(2) len] True r(1) m e(1) show ?thesis by simp
  next
    case False
    then have "int (length ?recs) < capacity" using Cons.prems(3) by simp
    from Cons.IH[OF g Cons.prems(2) this Cons.prems(4,5) len] False m show ?thesis by simp
  qed
qed

text \<open>What stays allocated: the stream when the header is wrong, the buffer of \<open>input_looks_ok\<close> when there is none.\<close>

lemma read_file_gained:
  assumes p: "proper h0" and few: "length ks < 1677721600"
  shows "\<exists>res h bs. read_file hdr ks h0 = Some (res, h) \<and>
     (case hdr of Header_wrong \<Rightarrow> res = None \<and> length bs = 1 \<and> gained h0 bs h
      | _ \<Rightarrow> (\<exists>rs recs. res = Some (rs, recs) \<and> gained h0 (rs # map snd recs @ bs) h \<and> length bs = (if hdr = Header_right then 0 else 1)))"
proof -
  obtain f h1 where f: "alloc_block h0 = (f, h1)" by (rule prod.exhaust)
  note g1 = malloc_gained[OF gained_refl[OF p] p f]
  obtain l h2 where l: "alloc_block h1 = (l, h2)" by (rule prod.exhaust)
  note g2 = malloc_gained[OF g1 p l]
  obtain h3 where h3: "free_block l h2 = Some h3" "gained h0 [f] h3" using free_gained[OF g2] .
  have rest: "\<exists>rs recs h'. (let (rs, h) = alloc_block h in Option.bind (read_blocks ks 100 rs [] h) (\<lambda>(rs, recs, h).
        map_option (Pair (Some (rs, recs))) (free_block f h))) = Some (Some (rs, recs), h') \<and> gained h0 (rs # map snd recs @ bs) h'"
    if g: "gained h0 (f # bs) h" for h bs
  proof -
    obtain rs h4 where m: "alloc_block h = (rs, h4)" by (rule prod.exhaust)
    have "gained h0 (rs # map snd [] @ f # bs) h4" using malloc_gained[OF g p m] by simp
    from read_blocks_gained[OF this p, of 100 0 ks] few obtain rs' recs' h5 where
      b: "read_blocks ks 100 rs [] h4 = Some (rs', recs', h5)" "gained h0 (rs' # map snd recs' @ f # bs) h5" by auto
    have "gained h0 (f # rs' # map snd recs' @ bs) h5" by (rule gained_perm[OF b(2)]) simp
    then obtain h6 where "free_block f h5 = Some h6" "gained h0 (rs' # map snd recs' @ bs) h6" by (rule free_gained)
    then show ?thesis using m b(1) by simp
  qed
  show ?thesis
  proof (cases hdr)
    case Header_right
    then show ?thesis using f l h3 rest[of "[]" h3] by (auto simp: read_file_def looks_ok_def)
  next
    case Header_wrong
    then show ?thesis using f l h3 by (auto simp: read_file_def looks_ok_def intro!: exI[of _ "[f]"])
  next
    case Header_missing
    have "gained h0 (f # [l]) h2" by (rule gained_perm[OF g2]) simp
    from rest[OF this] show ?thesis using f l Header_missing by (auto simp: read_file_def looks_ok_def intro!: exI[of _ "[l]"])
  qed
qed

lemma free_records_gained:
  assumes "gained h0 (rs # map snd recs @ bs) h" shows "\<exists>h'. free_records rs recs h = Some h' \<and> gained h0 bs h'"
proof -
  have "gained h0 (map snd recs @ rs # bs) h" by (rule gained_perm[OF assms]) simp
  from free_list_gained[OF this] obtain h1 where h1: "free_list (map snd recs) h = Some h1" "gained h0 (rs # bs) h1" by blast
  obtain h2 where "free_block rs h1 = Some h2" "gained h0 bs h2" using free_gained[OF h1(2)] .
  then show ?thesis using h1(1) by (simp add: free_records_def)
qed

subsection \<open>The contract of an index\<close>

locale index_memory =
  fixes mk :: "rec_block list \<Rightarrow> blocks \<Rightarrow> 'i \<times> rec_block list \<times> blocks"
    and release :: "'i \<Rightarrow> blocks \<Rightarrow> blocks option"
    and owned :: "'i \<Rightarrow> nat list"
  assumes mk_law: "proper h0 \<Longrightarrow> gained h0 bs h \<Longrightarrow> mk recs h = (i, recs', h') \<Longrightarrow>
      mset recs' = mset recs \<and> gained h0 (owned i @ bs) h'"
    and release_law: "gained h0 (owned i @ bs) h \<Longrightarrow> \<exists>h'. release i h = Some h' \<and> gained h0 bs h'"
begin

lemma all_returned:
  assumes p: "proper h0" and few: "length ks < 1677721600"
  shows "\<exists>h bs. id_query_memory mk release hdr ks n h0 = Some h \<and> gained h0 bs h \<and> length bs = (if hdr = Header_right then 0 else 1)"
proof -
  obtain res h1 bs where r: "read_file hdr ks h0 = Some (res, h1)"
     "case hdr of Header_wrong \<Rightarrow> res = None \<and> length bs = 1 \<and> gained h0 bs h1
      | _ \<Rightarrow> (\<exists>rs recs. res = Some (rs, recs) \<and> gained h0 (rs # map snd recs @ bs) h1 \<and> length bs = (if hdr = Header_right then 0 else 1))"
    using read_file_gained[OF p few, of hdr] by blast
  show ?thesis
  proof (cases res)
    case None
    then show ?thesis using r by (auto simp: id_query_memory_def split: header.splits)
  next
    case (Some a)
    then obtain rs recs where a: "res = Some (rs, recs)" "gained h0 (rs # map snd recs @ bs) h1" "length bs = (if hdr = Header_right then 0 else 1)"
      using r(2) by (auto split: header.splits)
    obtain i recs' h2 where m: "mk recs h1 = (i, recs', h2)" by (metis prod.exhaust)
    from mk_law[OF p a(2) m] have m': "mset recs' = mset recs" "gained h0 (owned i @ rs # map snd recs @ bs) h2" by simp_all
    have "gained h0 ((case None of None \<Rightarrow> [] | Some b \<Rightarrow> [b]) @ owned i @ rs # map snd recs @ bs) h2" using m'(2) by simp
    from query_lines_gained[OF this p, of n] obtain b h3 where
      q: "query_lines n None h2 = Some (Some b, h3)" "gained h0 (b # owned i @ rs # map snd recs @ bs) h3" by blast
    obtain h4 where h4: "free_block b h3 = Some h4" "gained h0 (owned i @ rs # map snd recs @ bs) h4" using free_gained[OF q(2)] .
    obtain h5 where h5: "release i h4 = Some h5" "gained h0 (rs # map snd recs @ bs) h5" using release_law[OF h4(2)] by blast
    have "gained h0 (rs # map snd recs' @ bs) h5" by (rule gained_perm[OF h5(2)]) (simp add: m'(1))
    from free_records_gained[OF this] obtain h6 where h6: "free_records rs recs' h5 = Some h6" "gained h0 bs h6" by blast
    have "id_query_memory mk release hdr ks n h0 = Some h6"
      using r(1) a(1) m q(1) h4(1) h5(1) h6(1) by (simp add: id_query_memory_def)
    then show ?thesis using h6(2) a(3) by blast
  qed
qed

end

subsection \<open>The four indexes\<close>

interpretation naive_memory: index_memory mk_naive_block free_naive "\<lambda>b. [b]"
  by unfold_locales
    (auto simp: mk_naive_block_def free_naive_def split: prod.splits intro: malloc_gained elim: free_gained)

interpretation indexed_memory: index_memory mk_indexed_blocks free_indexed "\<lambda>(data, ix). [ix, data]"
proof
  fix h0 bs h recs i recs' h'
  assume p: "proper h0" and g: "gained h0 bs h" and m: "mk_indexed_blocks recs h = (i, recs', h')"
  obtain data h1 ix h2 where d: "alloc_block h = (data, h1)" "alloc_block h1 = (ix, h2)" by (metis prod.exhaust)
  with m show "mset recs' = mset recs \<and> gained h0 ((case i of (data, ix) \<Rightarrow> [ix, data]) @ bs) h'"
    using malloc_gained[OF malloc_gained[OF g p d(1)] p d(2)] by (auto simp: mk_indexed_blocks_def)
next
  fix h0 i bs h
  assume "gained h0 ((case i of (data, ix) \<Rightarrow> [ix, data]) @ bs) h"
  then obtain data ix where i: "i = (data, ix)" "gained h0 (ix # data # bs) h" by (cases i) simp
  obtain h1 where h1: "free_block ix h = Some h1" "gained h0 (data # bs) h1" using free_gained[OF i(2)] .
  obtain h2 where "free_block data h1 = Some h2" "gained h0 bs h2" using free_gained[OF h1(2)] .
  then show "\<exists>h'. free_indexed i h = Some h' \<and> gained h0 bs h'" using i(1) h1(1) by (simp add: free_indexed_def)
qed

lemma mset_qsort: "mset (qsort cmp xs) = mset xs"
proof -
  have "mset (qsort_insert cmp x ys) = add_mset x (mset ys)" for x ys by (induction ys) simp_all
  then show ?thesis by (induction xs) (simp_all add: qsort_def)
qed

interpretation binsort_memory: index_memory mk_binsort_block free_binsort "\<lambda>b. [b]"
  by unfold_locales
    (auto simp: mk_binsort_block_def free_binsort_def mset_qsort split: prod.splits intro: malloc_gained elim: free_gained)

text \<open>The node_list in the order in which they are freed.\<close>

fun node_list :: "node_block \<Rightarrow> nat list" where
  "node_list Null = []"
| "node_list (Node b k left right) = node_list right @ node_list left @ [b]"

lemma add_node_gained: "proper h0 \<Longrightarrow> gained h0 (node_list t @ bs) h \<Longrightarrow> add_node (Null, Null) t k h = (t', h') \<Longrightarrow> gained h0 (node_list t' @ bs) h'"
proof (induction t arbitrary: bs h t' h')
  case Null
  then show ?case by (auto split: prod.splits intro: malloc_gained)
next
  case (Node b k' left right)
  show ?case
  proof (cases "k' \<le>s k")
    case True
    obtain r h1 where r: "add_node (Null, Null) right k h = (r, h1)" by (rule prod.exhaust)
    have "gained h0 (node_list right @ node_list left @ b # bs) h" using Node.prems(2) by simp
    from Node.IH(2)[OF Node.prems(1) this r] show ?thesis using Node.prems(3) True r by auto
  next
    case False
    obtain l h1 where l: "add_node (Null, Null) left k h = (l, h1)" by (rule prod.exhaust)
    have "gained h0 (node_list left @ node_list right @ b # bs) h" by (rule gained_perm[OF Node.prems(2)]) simp
    from Node.IH(1)[OF Node.prems(1) this l] have "gained h0 (node_list (Node b k' l right) @ bs) h1" by (rule gained_perm) simp
    then show ?thesis using Node.prems(3) False l by auto
  qed
qed

lemma mk_nodes_gained:
  "proper h0 \<Longrightarrow> gained h0 (node_list t @ bs) h \<Longrightarrow> nodes_loop (\<lambda>_. (Null, Null)) i t recs h = (t', h') \<Longrightarrow> gained h0 (node_list t' @ bs) h'"
proof (induction recs arbitrary: i t h)
  case (Cons r recs)
  obtain t1 h1 where a: "add_node (Null, Null) t (fst r) h = (t1, h1)" by (rule prod.exhaust)
  from Cons.IH[OF Cons.prems(1) add_node_gained[OF Cons.prems(1,2) a]] Cons.prems(3) a show ?case by simp
qed simp

lemma free_nodes_gained: "gained h0 (node_list t @ bs) h \<Longrightarrow> \<exists>h'. free_nodes t h = Some h' \<and> gained h0 bs h'"
proof (induction t arbitrary: bs h)
  case (Node b k left right)
  have "gained h0 (node_list right @ node_list left @ b # bs) h" using Node.prems by simp
  from Node.IH(2)[OF this] obtain h1 where h1: "free_nodes right h = Some h1" "gained h0 (node_list left @ b # bs) h1" by blast
  from Node.IH(1)[OF h1(2)] obtain h2 where h2: "free_nodes left h1 = Some h2" "gained h0 (b # bs) h2" by blast
  obtain h3 where "free_block b h2 = Some h3" "gained h0 bs h3" using free_gained[OF h2(2)] .
  then show ?case using h1(1) h2(1) by simp
qed simp

text \<open>The tree keeps the contract only where the memory of every new node is clear.\<close>

definition clear_blocks :: "nat \<Rightarrow> node_block \<times> node_block" where
  "clear_blocks i = (Null, Null)"

interpretation tree_memory: index_memory "mk_nodes clear_blocks" free_nodes node_list
proof
  fix h0 bs h recs t recs' h'
  assume "proper h0" "gained h0 bs h" "mk_nodes clear_blocks recs h = (t, recs', h')"
  then show "mset recs' = mset recs \<and> gained h0 (node_list t @ bs) h'"
    using mk_nodes_gained[of h0 Null bs h 0 recs t h'] by (auto simp: mk_nodes_def clear_blocks_def[abs_def] split: prod.splits)
qed (rule free_nodes_gained)

subsection \<open>Properties\<close>

text \<open>\<open>k\<close> blocks more are in use after the run, and all frees were of blocks in use.\<close>

definition leaves :: "nat \<Rightarrow> blocks \<Rightarrow> blocks option \<Rightarrow> bool" where
  "leaves k h r \<longleftrightarrow> (\<exists>h'. r = Some h' \<and> in_use h \<subseteq> in_use h' \<and> card (in_use h' - in_use h) = k)"

lemma gained_leaves:
  assumes "gained h bs h'" shows "leaves (length bs) h (Some h')"
proof -
  have "in_use h' - in_use h = set bs" using assms by (auto simp: gained_def)
  then show ?thesis using assms by (auto simp: leaves_def gained_def distinct_card)
qed

lemma returned_leaves:
  "\<exists>h' bs. r = Some h' \<and> gained h bs h' \<and> length bs = k \<Longrightarrow> leaves k h r"
  using gained_leaves by blast

text \<open>A node whose memory held pointers to a block that is not in use: freeing the tree frees that block.\<close>

definition junk_run :: "nat \<Rightarrow> blocks option" where
  "junk_run b = id_query_memory (mk_nodes (\<lambda>_. (Null, Node b 0 Null Null))) free_nodes Header_right [7] 0 \<lparr>next_block = 0, in_use = {}\<rparr>"

lemma junk_freed: "100 \<le> b \<Longrightarrow> junk_run b = None"
  by (simp add: junk_run_def id_query_memory_def read_file_def looks_ok_def alloc_block_def free_block_def mk_nodes_def
      getline_buffer_def Let_def)

text \<open>C15: the query programs over the naive index, the array and the sorted array free only blocks in use, each once, and in
  the end none is left, for every data file of less than 1677721600 lines after its header (and every number of moves of the
  growing array), whatever their order and the number of queries. The one over the tree does so where the memory of every
  new node happens to be clear; where it holds other pointers, which the code never overwrites, it can free a block that is
  not in use. A data file with a wrong header leaves its stream open, an empty one the buffer of \<open>input_looks_ok\<close>.\<close>

theorem memory_returned:
  assumes "proper h" and "k = (if hdr = Header_right then 0 else 1)" and "length ids < 1677721600" and "100 \<le> b"
  shows "leaves k h (id_query_memory mk_naive_block free_naive hdr ids queries h) \<and>
    leaves k h (id_query_memory mk_indexed_blocks free_indexed hdr ids queries h) \<and>
    leaves k h (id_query_memory mk_binsort_block free_binsort hdr ids queries h) \<and>
    leaves k h (id_query_memory (mk_nodes clear_blocks) free_nodes hdr ids queries h) \<and>
    junk_run b = None"
  unfolding assms(2)
  using naive_memory.all_returned[OF assms(1,3)] indexed_memory.all_returned[OF assms(1,3)]
    binsort_memory.all_returned[OF assms(1,3)] tree_memory.all_returned[OF assms(1,3)] junk_freed[OF assms(4)]
  by (intro conjI returned_leaves)

lemma memory_returned_witness:
  "leaves 0 \<lparr>next_block = 0, in_use = {}\<rparr> (id_query_memory (mk_nodes clear_blocks) free_nodes Header_right [7, 3, 7] 2 \<lparr>next_block = 0, in_use = {}\<rparr>) \<and>
   leaves 1 \<lparr>next_block = 0, in_use = {}\<rparr> (id_query_memory (mk_nodes clear_blocks) free_nodes Header_missing [] 2 \<lparr>next_block = 0, in_use = {}\<rparr>) \<and>
   junk_run 100 = None"
  using memory_returned[of "\<lparr>next_block = 0, in_use = {}\<rparr>" 0 Header_right "[7, 3, 7]" 100 2]
    memory_returned[of "\<lparr>next_block = 0, in_use = {}\<rparr>" 1 Header_missing "[]" 100 2]
  by (simp add: proper_def)

end
