(* ===== verification/KdTree.thy ===== *)
theory KdTree
  imports IdQuery
begin

text \<open>
  The parts of \<open>A1/coord_query_kdtree.c\<close> that are finished: the two comparisons and the sorting of the
  first records of an array. The order of doubles is an argument; without NaN it is a strict weak order. The order of records
  that compare equal is that of \<open>qsort\<close> in \<open>IdQuery\<close>, and no lemma uses it.
\<close>

definition compare_lon :: "('d \<Rightarrow> 'd \<Rightarrow> bool) \<Rightarrow> 'd place \<Rightarrow> 'd place \<Rightarrow> int" where
  "compare_lon lt a b = (let arg1 = lon a; arg2 = lon b in if lt arg1 arg2 then -1 else if lt arg2 arg1 then 1 else 0)"

definition compare_lat :: "('d \<Rightarrow> 'd \<Rightarrow> bool) \<Rightarrow> 'd place \<Rightarrow> 'd place \<Rightarrow> int" where
  "compare_lat lt a b = (let arg1 = lat a; arg2 = lat b in if lt arg1 arg2 then -1 else if lt arg2 arg1 then 1 else 0)"

definition sort_data :: "'d place list \<Rightarrow> nat \<Rightarrow> ('d place \<Rightarrow> 'd place \<Rightarrow> int) \<Rightarrow> 'd place list" where
  "sort_data rs n func = qsort func (take n rs) @ drop n rs"

text \<open>What \<open>qsort\<close> needs of a comparison, and what it then does.\<close>

definition comparison :: "('a \<Rightarrow> 'a \<Rightarrow> int) \<Rightarrow> bool" where
  "comparison cmp \<longleftrightarrow> (\<forall>a b. cmp a b \<le> 0 \<or> cmp b a \<le> 0) \<and> (\<forall>a b c. cmp a b \<le> 0 \<longrightarrow> cmp b c \<le> 0 \<longrightarrow> cmp a c \<le> 0)"

lemma qsort_sorts:
  assumes "comparison cmp"
  shows "sorted_wrt (\<lambda>a b. cmp a b \<le> 0) (qsort cmp xs)" "mset (qsort cmp xs) = mset xs"
proof -
  have c: "cmp a b \<le> 0 \<or> cmp b a \<le> 0" "cmp a b \<le> 0 \<Longrightarrow> cmp b d \<le> 0 \<Longrightarrow> cmp a d \<le> 0" for a b d
    using assms unfolding comparison_def by blast+
  have "set (qsort_insert cmp x ys) = insert x (set ys)" for x ys by (induction ys) auto
  then have "sorted_wrt (\<lambda>a b. cmp a b \<le> 0) ys \<Longrightarrow> sorted_wrt (\<lambda>a b. cmp a b \<le> 0) (qsort_insert cmp x ys)" for x ys
    using c by (induction ys) fastforce+
  then show "sorted_wrt (\<lambda>a b. cmp a b \<le> 0) (qsort cmp xs)" by (induction xs) (simp_all add: qsort_def)
  have "mset (qsort_insert cmp x ys) = add_mset x (mset ys)" for x ys by (induction ys) simp_all
  then show "mset (qsort cmp xs) = mset xs" by (induction xs) (simp_all add: qsort_def)
qed

definition weak_order :: "('d \<Rightarrow> 'd \<Rightarrow> bool) \<Rightarrow> bool" where
  "weak_order lt \<longleftrightarrow> (\<forall>x y. lt x y \<longrightarrow> \<not> lt y x) \<and> (\<forall>x y z. \<not> lt y x \<longrightarrow> \<not> lt z y \<longrightarrow> \<not> lt z x)"

lemma compare_le:
  assumes "weak_order lt"
  shows "compare_lon lt a b \<le> 0 \<longleftrightarrow> \<not> lt (lon b) (lon a)" "compare_lat lt a b \<le> 0 \<longleftrightarrow> \<not> lt (lat b) (lat a)"
proof -
  have "lt x y \<Longrightarrow> \<not> lt y x" for x y using assms unfolding weak_order_def by blast
  from this[of "lon a" "lon b"] this[of "lat a" "lat b"]
  show "compare_lon lt a b \<le> 0 \<longleftrightarrow> \<not> lt (lon b) (lon a)" "compare_lat lt a b \<le> 0 \<longleftrightarrow> \<not> lt (lat b) (lat a)"
    by (auto simp: compare_lon_def compare_lat_def Let_def)
qed

lemma comparisons:
  assumes "weak_order lt" shows "comparison (compare_lon lt)" "comparison (compare_lat lt)"
proof -
  have "lt x y \<Longrightarrow> \<not> lt y x" "\<not> lt y x \<Longrightarrow> \<not> lt z y \<Longrightarrow> \<not> lt z x" for x y z using assms unfolding weak_order_def by blast+
  then show "comparison (compare_lon lt)" "comparison (compare_lat lt)"
    unfolding comparison_def compare_le[OF assms] by blast+
qed

text \<open>\<open>sort_data\<close> orders the first \<open>n\<close> records by the coordinate and leaves the others where they are.\<close>

lemma sort_data_sorts:
  assumes "weak_order lt"
  shows "sorted_wrt (\<lambda>a b. \<not> lt (lat b) (lat a)) (take n (sort_data rs n (compare_lat lt)))"
    "sorted_wrt (\<lambda>a b. \<not> lt (lon b) (lon a)) (take n (sort_data rs n (compare_lon lt)))"
    "mset (take n (sort_data rs n (compare_lat lt))) = mset (take n rs)" "drop n (sort_data rs n (compare_lat lt)) = drop n rs"
proof -
  note q = qsort_sorts[OF comparisons(1)[OF assms], of "take n rs"] qsort_sorts[OF comparisons(2)[OF assms], of "take n rs"]
  have t: "take n (qsort cmp (take n rs) @ drop n rs) = qsort cmp (take n rs)" "drop n (qsort cmp (take n rs) @ drop n rs) = drop n rs"
    if m: "mset (qsort cmp (take n rs)) = mset (take n rs)" for cmp
  proof -
    have "length (qsort cmp (take n rs)) = length (take n rs)" using m by (metis size_mset)
    then show "take n (qsort cmp (take n rs) @ drop n rs) = qsort cmp (take n rs)" "drop n (qsort cmp (take n rs) @ drop n rs) = drop n rs"
      by (cases "n \<le> length rs"; simp)+
  qed
  show "sorted_wrt (\<lambda>a b. \<not> lt (lat b) (lat a)) (take n (sort_data rs n (compare_lat lt)))"
    "sorted_wrt (\<lambda>a b. \<not> lt (lon b) (lon a)) (take n (sort_data rs n (compare_lon lt)))"
    "mset (take n (sort_data rs n (compare_lat lt))) = mset (take n rs)" "drop n (sort_data rs n (compare_lat lt)) = drop n rs"
    using q t by (simp_all add: sort_data_def compare_le[OF assms])
qed

end
