(* ===== verification/CoordQuery.thy ===== *)
theory CoordQuery
  imports IdQuery
begin

text \<open>
  The search for the nearest place: the query loop \<open>A1/coord_query.c\<close> with its function pointers as a
  locale, and the naive search \<open>A1/coord_query_naive.c\<close>. The distance of floating-point numbers, their order and
  what \<open>sscanf\<close> scans are arguments. An outer \<open>None\<close> is a read outside the array.
\<close>

subsection \<open>The query loop\<close>

datatype 'd coord_answer =
    Nearest 'd 'd string 'd 'd
  | None_near 'd 'd

datatype 'd coord_outcome =
    Coord_usage
  | Coord_read_failed
  | Coord_answers "'d coord_answer list"

text \<open>The variables \<open>lon\<close> and \<open>lat\<close> are not set before \<open>sscanf\<close>, which leaves those it finds no number for: \<open>junk\<close>
  is what they hold, \<open>scan\<close> the numbers it finds in the line.\<close>

definition scan_point :: "(string \<Rightarrow> 'd list) \<Rightarrow> 'd \<times> 'd \<Rightarrow> string \<Rightarrow> 'd \<times> 'd" where
  "scan_point scan junk s = (case scan s of [] \<Rightarrow> junk | [x] \<Rightarrow> (x, snd junk) | x # y # _ \<Rightarrow> (x, y))"

definition coord_line :: "('i \<Rightarrow> 'd \<Rightarrow> 'd \<Rightarrow> 'd place option option) \<Rightarrow> 'i \<Rightarrow> 'd \<times> 'd \<Rightarrow> 'd coord_answer option" where
  "coord_line lookup index point =
     map_option (\<lambda>res. case res of Some r \<Rightarrow> Nearest (fst point) (snd point) (name r) (lon r) (lat r)
                     | None \<Rightarrow> None_near (fst point) (snd point))
       (lookup index (fst point) (snd point))"

function coord_lines :: "(string \<Rightarrow> 'd list) \<Rightarrow> (nat \<Rightarrow> 'd \<times> 'd) \<Rightarrow> ('i \<Rightarrow> 'd \<Rightarrow> 'd \<Rightarrow> 'd place option option) \<Rightarrow> 'i \<Rightarrow> nat \<Rightarrow>
    string \<Rightarrow> 'd coord_answer list option" where
  "coord_lines scan junk lookup index i stdin =
     (case getline stdin of None \<Rightarrow> Some []
      | Some (buf, rest) \<Rightarrow>
          (case coord_line lookup index (scan_point scan (junk i) (c_str buf)) of None \<Rightarrow> None
           | Some a \<Rightarrow> map_option ((#) a) (coord_lines scan junk lookup index (Suc i) rest)))"
  by pat_completeness auto
termination
proof (relation "measure (\<lambda>(scan, junk, lookup, index, i, stdin). length stdin)")
  fix scan :: "string \<Rightarrow> 'd list" and junk and lookup :: "'i \<Rightarrow> 'd \<Rightarrow> 'd \<Rightarrow> 'd place option option" and index i stdin p buf rest a
  assume "getline stdin = Some p" "(buf, rest) = p"
  then show "((scan, junk, lookup, index, Suc i, rest), scan, junk, lookup, index, i, stdin) \<in>
      measure (\<lambda>(scan, junk, lookup, index, i, stdin). length stdin)"
    using line_split_shorter[of stdin] by (auto simp: getline_def split: if_splits)
qed simp

declare coord_lines.simps [simp del]

definition coord_query_loop :: "nat \<Rightarrow> 'd place list option \<Rightarrow> ('d place list \<Rightarrow> 'i) \<Rightarrow>
    ('i \<Rightarrow> 'd \<Rightarrow> 'd \<Rightarrow> 'd place option option) \<Rightarrow> (string \<Rightarrow> 'd list) \<Rightarrow> (nat \<Rightarrow> 'd \<times> 'd) \<Rightarrow> string \<Rightarrow> 'd coord_outcome option" where
  "coord_query_loop argc records mk_index lookup scan junk stdin =
     (if argc \<noteq> 2 then Some Coord_usage
      else case records of None \<Rightarrow> Some Coord_read_failed
        | Some rs \<Rightarrow> map_option Coord_answers (coord_lines scan junk lookup (mk_index rs) 0 stdin))"

lemma coord_lines_answers:
  assumes "\<And>x y. \<exists>a. coord_line lookup index (x, y) = Some a \<and> P (x, y) a"
  shows "\<exists>as. coord_lines scan junk lookup index i stdin = Some as \<and> length as = length (file_lines stdin) \<and>
     (\<forall>j < length as. P (scan_point scan (junk (i + j)) (c_str (file_lines stdin ! j))) (as ! j))"
proof (induction stdin arbitrary: i rule: file_lines.induct)
  case (1 stdin)
  show ?case
  proof (cases "getline stdin")
    case None
    then show ?thesis by (simp add: coord_lines.simps[of _ _ _ _ _ stdin] file_lines.simps[of stdin])
  next
    case (Some p)
    obtain buf rest where p: "p = (buf, rest)" by (cases p)
    let ?point = "scan_point scan (junk i) (c_str buf)"
    obtain a where a: "coord_line lookup index ?point = Some a" "P ?point a"
      using assms[of "fst ?point" "snd ?point"] by auto
    obtain as where as: "coord_lines scan junk lookup index (Suc i) rest = Some as" "length as = length (file_lines rest)"
        "\<forall>j < length as. P (scan_point scan (junk (Suc i + j)) (c_str (file_lines rest ! j))) (as ! j)"
      using 1[OF Some p[symmetric], of "Suc i"] by blast
    have "P (scan_point scan (junk (i + j)) (c_str ((buf # file_lines rest) ! j))) ((a # as) ! j)" if "j < Suc (length as)" for j
      using that a(2) as(3) by (cases j) auto
    then show ?thesis using Some p a(1) as(1,2)
      by (simp add: coord_lines.simps[of _ _ _ _ _ stdin] file_lines.simps[of stdin])
  qed
qed

text \<open>The contract of the function pointers: a lookup returns a record of the array, and where the distances can be compared,
  one such that none is nearer.\<close>

locale nearest_index =
  fixes fits :: "'d place list \<Rightarrow> bool" and mk_index :: "'d place list \<Rightarrow> 'i"
    and lookup :: "'i \<Rightarrow> 'd \<Rightarrow> 'd \<Rightarrow> 'd place option option"
    and comparable :: "'d place list \<Rightarrow> 'd \<Rightarrow> 'd \<Rightarrow> bool" and nearer :: "'d \<Rightarrow> 'd \<Rightarrow> 'd place \<Rightarrow> 'd place \<Rightarrow> bool"
  assumes nearest: "fits rs \<Longrightarrow> \<exists>r \<in> set rs. lookup (mk_index rs) x y = Some (Some r) \<and>
      (comparable rs x y \<longrightarrow> (\<forall>r' \<in> set rs. \<not> nearer x y r' r))"
begin

lemma answers_nearest:
  assumes "fits rs"
  shows "\<exists>as. coord_lines scan junk lookup (mk_index rs) 0 stdin = Some as \<and> length as = length (file_lines stdin) \<and>
     (\<forall>j < length as. let (x, y) = scan_point scan (junk j) (c_str (file_lines stdin ! j)) in
        \<exists>r \<in> set rs. as ! j = Nearest x y (name r) (lon r) (lat r) \<and> (comparable rs x y \<longrightarrow> (\<forall>r' \<in> set rs. \<not> nearer x y r' r)))"
proof -
  have "\<exists>a. coord_line lookup (mk_index rs) (x, y) = Some a \<and>
      (case (x, y) of (x, y) \<Rightarrow> \<exists>r \<in> set rs. a = Nearest x y (name r) (lon r) (lat r) \<and>
         (comparable rs x y \<longrightarrow> (\<forall>r' \<in> set rs. \<not> nearer x y r' r)))" for x y
    using nearest[OF assms, of x y] by (auto simp: coord_line_def)
  from coord_lines_answers[OF this, of scan junk 0 stdin] show ?thesis by (simp add: Let_def)
qed

end

subsection \<open>The naive search\<close>

record 'd coord_data =
  coord_rs :: "'d place list"
  coord_n :: nat

definition mk_coord :: "'d place list \<Rightarrow> 'd coord_data" where
  "mk_coord records = \<lparr>coord_rs = records, coord_n = length records\<rparr>"

text \<open>The loop from index \<open>i\<close>, \<open>left\<close> steps before its end; \<open>dist\<close> is the distance of a record
  from the point asked for, \<open>lt\<close> the comparison of doubles. \<open>None\<close> is the use of a slot of the array that no record was
  read into: the array has room for a hundred records at least, and \<open>malloc\<close> does not clear it.\<close>

fun coord_loop :: "('d place \<Rightarrow> 'd) \<Rightarrow> ('d \<Rightarrow> 'd \<Rightarrow> bool) \<Rightarrow> 'd place list \<Rightarrow> 'd place \<Rightarrow> 'd \<Rightarrow> nat \<Rightarrow> nat \<Rightarrow> 'd place option" where
  "coord_loop dist lt records result shortest_distance i 0 = Some result"
| "coord_loop dist lt records result shortest_distance i (Suc left) =
     (case at records (int i) of None \<Rightarrow> None
      | Some r \<Rightarrow>
          let test_distance = dist r
          in if lt test_distance shortest_distance then coord_loop dist lt records r test_distance (i + 1) left
             else coord_loop dist lt records result shortest_distance (i + 1) left)"

definition lookup_coord :: "('d \<Rightarrow> 'd \<Rightarrow> 'd \<Rightarrow> 'd \<Rightarrow> 'd) \<Rightarrow> ('d \<Rightarrow> 'd \<Rightarrow> bool) \<Rightarrow> 'd coord_data \<Rightarrow> 'd \<Rightarrow> 'd \<Rightarrow> 'd place option" where
  "lookup_coord distance lt data plon plat =
     (case at (coord_rs data) 0 of None \<Rightarrow> None
      | Some result \<Rightarrow>
          coord_loop (\<lambda>r. distance plon plat (lon r) (lat r)) lt (coord_rs data) result
            (distance plon plat (lon result) (lat result)) 1 (coord_n data - 1))"

text \<open>\<open>lt\<close> orders the numbers \<open>num\<close>, as the comparison of doubles does for all of them but NaN.\<close>

definition number_order :: "('d \<Rightarrow> bool) \<Rightarrow> ('d \<Rightarrow> 'd \<Rightarrow> bool) \<Rightarrow> bool" where
  "number_order num lt \<longleftrightarrow> (\<forall>a b c. num a \<longrightarrow> num b \<longrightarrow> num c \<longrightarrow> lt a b \<longrightarrow> \<not> lt c b \<longrightarrow> lt a c) \<and>
     (\<forall>a b. num a \<longrightarrow> num b \<longrightarrow> lt a b \<longrightarrow> \<not> lt b a)"

lemma coord_loop_record:
  "i + left = length records \<Longrightarrow> result \<in> set records \<Longrightarrow> \<exists>r \<in> set records. coord_loop dist lt records result d i left = Some r"
  by (induction left arbitrary: i result d) (simp_all add: Let_def)

lemma coord_loop_nearest:
  assumes order: "number_order num lt" and nums: "\<forall>r \<in> set records. num (dist r)"
  shows "i + left = length records \<Longrightarrow> \<forall>j < i. \<not> lt (dist (records ! j)) (dist result) \<Longrightarrow> result \<in> set records \<Longrightarrow>
     \<exists>r \<in> set records. coord_loop dist lt records result (dist result) i left = Some r \<and>
       (\<forall>r' \<in> set records. \<not> lt (dist r') (dist r))"
proof (induction left arbitrary: i result)
  case 0
  then show ?case by (auto simp: in_set_conv_nth)
next
  case (Suc left)
  let ?r = "records ! i"
  have i: "i < length records" using Suc.prems(1) by simp
  have num: "num (dist (records ! j))" if "j < length records" for j using nums that by simp
  have asym: "\<not> lt b a" if "lt a b" "num a" "num b" for a b using order that unfolding number_order_def by blast
  have trans: "lt a c" if "lt a b" "\<not> lt c b" "num a" "num b" "num c" for a b c using order that unfolding number_order_def by blast
  show ?case
  proof (cases "lt (dist ?r) (dist result)")
    case True
    have "\<not> lt (dist (records ! j)) (dist ?r)" if "j < Suc i" for j
    proof (cases "j = i")
      case True
      then show ?thesis using asym num[OF i] by auto
    next
      case False
      then have j: "\<not> lt (dist (records ! j)) (dist result)" "j < length records" using that Suc.prems(2) i by simp_all
      have "num (dist result)" using nums Suc.prems(3) by simp
      then have "lt (dist ?r) (dist (records ! j))" by (rule trans[OF True j(1) num[OF i] _ num[OF j(2)]])
      then show ?thesis using asym num[OF i] num[OF j(2)] by blast
    qed
    then show ?thesis using Suc.IH[of "Suc i" ?r] Suc.prems(1) True i by (simp add: Let_def)
  next
    case False
    then have "\<forall>j < Suc i. \<not> lt (dist (records ! j)) (dist result)" using Suc.prems(2) by (auto simp: less_Suc_eq)
    then show ?thesis using Suc.IH[of "Suc i" result] Suc.prems(1,3) False i by (simp add: Let_def)
  qed
qed

text \<open>The lookup returns a record of the array, and when no distance is NaN no record is nearer; for an array without records
  it takes its first slot, into which nothing was read.\<close>

lemma lookup_coord_nearest:
  assumes order: "number_order num lt"
  shows "case lookup_coord distance lt (mk_coord records) plon plat of
      None \<Rightarrow> records = []
    | Some r \<Rightarrow> r \<in> set records \<and> ((\<forall>r \<in> set records. num (distance plon plat (lon r) (lat r))) \<longrightarrow>
        (\<forall>r' \<in> set records. \<not> lt (distance plon plat (lon r') (lat r')) (distance plon plat (lon r) (lat r))))"
proof (cases records)
  case Nil
  then show ?thesis by (simp add: lookup_coord_def mk_coord_def at_def)
next
  case (Cons r0 rs)
  let ?dist = "\<lambda>r. distance plon plat (lon r) (lat r)"
  have len: "1 + length rs = length records" "r0 \<in> set records" using Cons by simp_all
  obtain r where r: "r \<in> set records" "coord_loop ?dist lt records r0 (?dist r0) 1 (length rs) = Some r"
    using coord_loop_record[OF len] by blast
  have "\<forall>r' \<in> set records. \<not> lt (?dist r') (?dist r)" if nums: "\<forall>r \<in> set records. num (?dist r)"
  proof -
    have "num (?dist r0)" using nums len(2) by blast
    then have "\<not> lt (?dist r0) (?dist r0)" using order unfolding number_order_def by blast
    then have "\<forall>j < 1. \<not> lt (?dist (records ! j)) (?dist r0)" using Cons by simp
    from coord_loop_nearest[OF order nums len(1) this len(2)] r(2) show ?thesis by simp
  qed
  then show ?thesis using r Cons by (simp add: lookup_coord_def mk_coord_def at_def)
qed

text \<open>The operations on doubles that the search uses.\<close>

record 'd doubles =
  minus_d :: "'d \<Rightarrow> 'd \<Rightarrow> 'd"
  plus_d :: "'d \<Rightarrow> 'd \<Rightarrow> 'd"
  square_d :: "'d \<Rightarrow> 'd"
  root_d :: "'d \<Rightarrow> 'd"
  less_d :: "'d \<Rightarrow> 'd \<Rightarrow> bool"

definition distance :: "'d doubles \<Rightarrow> 'd \<Rightarrow> 'd \<Rightarrow> 'd \<Rightarrow> 'd \<Rightarrow> 'd" where
  "distance d plon plat test_lon test_lat =
     root_d d (plus_d d (square_d d (minus_d d plon test_lon)) (square_d d (minus_d d plat test_lat)))"

definition naive_nearest :: "'d doubles \<Rightarrow> 'd coord_data \<Rightarrow> 'd \<Rightarrow> 'd \<Rightarrow> 'd place option option" where
  "naive_nearest d data x y = map_option Some (lookup_coord (distance d) (less_d d) data x y)"

definition nearer :: "'d doubles \<Rightarrow> 'd \<Rightarrow> 'd \<Rightarrow> 'd place \<Rightarrow> 'd place \<Rightarrow> bool" where
  "nearer d x y r' r = less_d d (distance d x y (lon r') (lat r')) (distance d x y (lon r) (lat r))"

definition comparable :: "('d \<Rightarrow> bool) \<Rightarrow> 'd doubles \<Rightarrow> 'd place list \<Rightarrow> 'd \<Rightarrow> 'd \<Rightarrow> bool" where
  "comparable num d rs x y \<longleftrightarrow> (\<forall>r \<in> set rs. num (distance d x y (lon r) (lat r)))"

interpretation naive_coord: nearest_index "\<lambda>rs. rs \<noteq> [] \<and> number_order num (less_d d)" mk_coord "naive_nearest d"
  "comparable num d" "nearer d" for num d
proof unfold_locales
  fix rs :: "'a place list" and x y
  assume a: "rs \<noteq> [] \<and> number_order num (less_d d)"
  from lookup_coord_nearest[OF conjunct2[OF a], where distance = "distance d" and records = rs and plon = x and plat = y]
  show "\<exists>r\<in>set rs. naive_nearest d (mk_coord rs) x y = Some (Some r) \<and> (comparable num d rs x y \<longrightarrow> (\<forall>r'\<in>set rs. \<not> nearer d x y r' r))"
    using conjunct1[OF a]
    by (cases "lookup_coord (distance d) (less_d d) (mk_coord rs) x y") (simp_all add: naive_nearest_def nearer_def comparable_def)
qed

text \<open>C29: on a data file with records the program answers every line of the input with one of the records; and when
  the comparison orders the numbers \<open>num\<close> (the doubles without NaN) and the distances of all records from the point the line
  names are such numbers, no record is nearer to it. With a data file without records it uses, at the first line, the first slot
  of the array, into which nothing was read.\<close>

theorem coord_program_nearest:
  assumes "number_order num (less_d d)"
  shows "if records = [] then stdin \<noteq> [] \<longrightarrow> coord_query_loop 2 (Some records) mk_coord (naive_nearest d) scan junk stdin = None
   else \<exists>as. coord_query_loop 2 (Some records) mk_coord (naive_nearest d) scan junk stdin = Some (Coord_answers as) \<and>
     length as = length (file_lines stdin) \<and>
     (\<forall>j < length as. let (x, y) = scan_point scan (junk j) (c_str (file_lines stdin ! j)) in
        \<exists>r \<in> set records. as ! j = Nearest x y (name r) (lon r) (lat r) \<and>
          (comparable num d records x y \<longrightarrow> (\<forall>r' \<in> set records. \<not> nearer d x y r' r)))"
proof (cases "records = []")
  case True
  then show ?thesis
    by (auto simp: coord_query_loop_def coord_lines.simps[of _ _ _ _ 0 stdin] coord_line_def naive_nearest_def getline_def
        lookup_coord_def mk_coord_def at_def split: prod.split)
next
  case False
  with assms have "records \<noteq> [] \<and> number_order num (less_d d)" by simp
  from naive_coord.answers_nearest[OF this, where scan = scan and junk = junk and stdin = stdin] False show ?thesis
    by (auto simp: coord_query_loop_def)
qed

text \<open>Whole numbers with a NaN, which no operation makes a number again and which is not less than anything, nor anything less
  than it; the square root is left out.\<close>

definition lift_whole :: "(int \<Rightarrow> int \<Rightarrow> int) \<Rightarrow> int option \<Rightarrow> int option \<Rightarrow> int option" where
  "lift_whole f x y = (case (x, y) of (Some a, Some b) \<Rightarrow> Some (f a b) | _ \<Rightarrow> None)"

definition whole :: "int option doubles" where
  "whole = \<lparr>minus_d = lift_whole (-), plus_d = lift_whole (+), square_d = (\<lambda>x. lift_whole (*) x x), root_d = id,
     less_d = (\<lambda>x y. case (x, y) of (Some a, Some b) \<Rightarrow> a < b | _ \<Rightarrow> False)\<rparr>"

lemma whole_order: "number_order (\<lambda>x. x \<noteq> None) (less_d whole)"
  by (auto simp: number_order_def whole_def split: option.splits)

definition whole_place :: "int option \<Rightarrow> string \<Rightarrow> int option place" where
  "whole_place x t = \<lparr>name = t, alternative_names = t, osm_type = t, osm_id = 0, class_name = t, type_name = t, lon = x, lat = Some 0,
     place_rank = 0, importance = Some 0, street = t, city = t, county = t, state = t, country = t, country_code = t,
     display_name = t, west = x, south = x, east = x, north = x, wikidata = t, wikipedia = t, housenumbers = t, line = t\<rparr>"

text \<open>A point of numbers, and one with a NaN.\<close>

lemma coord_program_nearest_witness:
  "(\<exists>as. coord_query_loop 2 (Some [whole_place (Some 9) ''a'', whole_place (Some 3) ''b'']) mk_coord (naive_nearest whole)
      (\<lambda>s. [Some 1, Some 2]) (\<lambda>i. (None, None)) (''1 2'' @ [NL]) = Some (Coord_answers as) \<and> length as = 1 \<and>
      as ! 0 = Nearest (Some 1) (Some 2) ''b'' (Some 3) (Some 0)) \<and>
   (\<exists>as. coord_query_loop 2 (Some [whole_place (Some 9) ''a'', whole_place (Some 3) ''b'']) mk_coord (naive_nearest whole)
      (\<lambda>s. [None, Some 2]) (\<lambda>i. (None, None)) (''n 2'' @ [NL]) = Some (Coord_answers as) \<and> length as = 1)"
proof -
  let ?rs = "[whole_place (Some 9) ''a'', whole_place (Some 3) ''b'']"
  have l: "length (file_lines (''1 2'' @ [NL])) = 1" "length (file_lines (''n 2'' @ [NL])) = 1" by code_simp+
  note each = coord_program_nearest[OF whole_order, of ?rs]
  have c: "comparable (\<lambda>x. x \<noteq> None) whole ?rs (Some 1) (Some 2)"
    by (simp add: comparable_def distance_def whole_def lift_whole_def whole_place_def)
  have n: "nearer whole (Some 1) (Some 2) (whole_place (Some 3) ''b'') (whole_place (Some 9) ''a'')"
    by (simp add: nearer_def distance_def whole_def lift_whole_def whole_place_def)
  show ?thesis
    using each[of "''1 2'' @ [NL]" "\<lambda>s. [Some 1, Some 2]" "\<lambda>i. (None, None)"]
      each[of "''n 2'' @ [NL]" "\<lambda>s. [None, Some 2]" "\<lambda>i. (None, None)"] l c n
    by (auto simp: scan_point_def whole_place_def)
qed

end
