(* ===== verification/RandomIds.thy ===== *)
theory RandomIds
  imports Records
begin

text \<open>
  The generator of random ids, \<open>A1/random_ids.c\<close>, which prints the numbers of random records until \<open>printf\<close>
  returns 0. The random numbers and the results of \<open>printf\<close> are arguments; \<open>rand\<close> is never negative.
\<close>

datatype ids_outcome =
    Ids_usage string
  | Ids_usage_of_null
  | Ids_unreadable
  | Division_by_zero
  | Printing "i64 list"
  | Printed "i64 list"

text \<open>The loop after \<open>turns\<close> turns: still running, or left.\<close>

fun ids_loop :: "(nat \<Rightarrow> nat) \<Rightarrow> (i64 \<Rightarrow> int) \<Rightarrow> 'd place list \<Rightarrow> nat \<Rightarrow> i64 list \<Rightarrow> nat \<Rightarrow> ids_outcome" where
  "ids_loop rand printed rs i out 0 = Printing out"
| "ids_loop rand printed rs i out (Suc turns) =
     (if rs = [] then Division_by_zero
      else let k = osm_id (rs ! (rand i mod length rs))
           in if printed k = 0 then Printed (out @ [k]) else ids_loop rand printed rs (i + 1) (out @ [k]) turns)"

text \<open>The message on a wrong number of arguments prints \<open>argv[1]\<close>, which is NULL when there is none.\<close>

definition random_ids :: "(nat \<Rightarrow> nat) \<Rightarrow> (i64 \<Rightarrow> int) \<Rightarrow> (string \<Rightarrow> 'd place list option) \<Rightarrow> string list \<Rightarrow> nat \<Rightarrow> ids_outcome" where
  "random_ids rand printed records argv turns =
     (if length argv \<noteq> 2 then if length argv < 2 then Ids_usage_of_null else Ids_usage (argv ! 1)
      else case records (argv ! 1) of None \<Rightarrow> Ids_unreadable
        | Some rs \<Rightarrow> ids_loop rand printed rs 0 [] turns)"

text \<open>\<open>printf\<close> returns the number of characters it wrote, at least two here, or a negative number: the loop is never left, and what it
  prints are numbers of records. On a file without records it divides by zero.\<close>

lemma random_ids_never_end:
  assumes "\<And>k. printed k \<noteq> 0" and "records path = Some rs"
  shows "if rs = [] then 0 < turns \<longrightarrow> random_ids rand printed records [prog, path] turns = Division_by_zero
    else random_ids rand printed records [prog, path] turns = Printing (map (\<lambda>i. osm_id (rs ! (rand i mod length rs))) [0..<turns])"
proof -
  have "ids_loop rand printed rs i out turns = Printing (out @ map (\<lambda>i. osm_id (rs ! (rand i mod length rs))) [i..<i + turns])"
    if "rs \<noteq> []" for i out
    using that assms(1)
  proof (induction turns arbitrary: i out)
    case (Suc turns)
    have "[i..<i + Suc turns] = i # [Suc i..<Suc i + turns]" by (simp add: upt_conv_Cons)
    with Suc show ?case by (simp add: Let_def del: upt_Suc)
  qed simp
  from this[of 0 "[]"] show ?thesis using assms(2) by (cases turns) (auto simp: random_ids_def)
qed

end
