(* ===== verification/JobQueue.thy ===== *)
theory JobQueue
  imports CPrelude
begin

text \<open>
  The bounded queue of A2, \<open>A2/job_queue.c\<close>: the ring buffer as a record, the bodies of its
  critical sections as functions, and the threads that use it as a step relation. A thread is
  where its program counter says; the mutex is the number of the thread that holds it, a condition
  variable is the set of threads that wait at it.
\<close>

subsection \<open>The ring buffer\<close>

record 'a job_queue =
  data :: "'a list"
  capacity :: int
  prod_pointer :: int
  cons_pointer :: int
  queue_count :: int
  queue_to_be_destroyed :: bool
  cons_amount :: int

text \<open>\<open>fresh\<close> is the memory \<open>malloc\<close> returns, \<open>None\<close> if there is none.\<close>

definition EXIT_SUCCESS :: int where "EXIT_SUCCESS = 0"
definition EXIT_FAILURE :: int where "EXIT_FAILURE = 1"

definition job_queue_init :: "'a list option \<Rightarrow> int \<Rightarrow> int \<times> 'a job_queue" where
  "job_queue_init fresh cap =
     (let q = \<lparr>data = (case fresh of None \<Rightarrow> [] | Some m \<Rightarrow> m), capacity = cap, prod_pointer = 0, cons_pointer = 0,
               queue_count = 0, queue_to_be_destroyed = False, cons_amount = 0\<rparr>
      in (if fresh = None then EXIT_FAILURE else EXIT_SUCCESS, q))"

text \<open>The critical section of a push; \<open>None\<close> is a write outside the array.\<close>

definition push_body :: "'a \<Rightarrow> 'a job_queue \<Rightarrow> 'a job_queue option" where
  "push_body d q =
     (if 0 \<le> prod_pointer q \<and> prod_pointer q < int (length (data q))
      then Some (q\<lparr>data := (data q)[nat (prod_pointer q) := d],
                   queue_count := queue_count q + 1,
                   prod_pointer := (if capacity q \<le> prod_pointer q + 1 then 0 else prod_pointer q + 1)\<rparr>)
      else None)"

text \<open>The part the three copies of the consuming code share: read, count down, move on.\<close>

definition pop_body :: "'a job_queue \<Rightarrow> ('a \<times> 'a job_queue) option" where
  "pop_body q =
     (if 0 \<le> cons_pointer q \<and> cons_pointer q < int (length (data q))
      then Some (data q ! nat (cons_pointer q),
                 q\<lparr>queue_count := queue_count q - 1,
                   cons_pointer := (if capacity q \<le> cons_pointer q + 1 then 0 else cons_pointer q + 1),
                   cons_amount := cons_amount q - 1\<rparr>)
      else None)"

definition queue_ok :: "'a job_queue \<Rightarrow> bool" where
  "queue_ok q \<longleftrightarrow> 0 < capacity q \<and> int (length (data q)) = capacity q \<and>
     0 \<le> cons_pointer q \<and> cons_pointer q < capacity q \<and> 0 \<le> queue_count q \<and> queue_count q \<le> capacity q \<and>
     prod_pointer q = (cons_pointer q + queue_count q) mod capacity q"

text \<open>The abstraction: the elements from the consumer's pointer on.\<close>

definition contents :: "'a job_queue \<Rightarrow> 'a list" where
  "contents q = map (\<lambda>i. data q ! nat ((cons_pointer q + int i) mod capacity q)) [0..<nat (queue_count q)]"

definition room :: "'a job_queue \<Rightarrow> bool" where
  "room q \<longleftrightarrow> queue_count q < capacity q"

text \<open>What a bounded queue promises, and what follows for the sequence of elements put and got.\<close>

locale bounded_fifo =
  fixes ok :: "'q \<Rightarrow> bool" and elems :: "'q \<Rightarrow> 'a list" and has_room :: "'q \<Rightarrow> bool"
    and put :: "'a \<Rightarrow> 'q \<Rightarrow> 'q option" and get :: "'q \<Rightarrow> ('a \<times> 'q) option"
  assumes put_law: "ok q \<Longrightarrow> has_room q \<Longrightarrow> \<exists>q'. put d q = Some q' \<and> ok q' \<and> elems q' = elems q @ [d]"
    and get_law: "ok q \<Longrightarrow> elems q \<noteq> [] \<Longrightarrow> \<exists>q'. get q = Some (hd (elems q), q') \<and> ok q' \<and> elems q' = tl (elems q)"
begin

lemma put_history: "ok q \<Longrightarrow> has_room q \<Longrightarrow> put d q = Some q' \<Longrightarrow> pushed = popped @ elems q \<Longrightarrow>
   ok q' \<and> pushed @ [d] = popped @ elems q'"
  using put_law[of q d] by auto

lemma get_history: "ok q \<Longrightarrow> elems q \<noteq> [] \<Longrightarrow> get q = Some (d, q') \<Longrightarrow> pushed = popped @ elems q \<Longrightarrow>
   ok q' \<and> pushed = (popped @ [d]) @ elems q'"
  using get_law[of q] by (cases "elems q") auto

end

lemma wrap_next: "0 \<le> p \<Longrightarrow> p < c \<Longrightarrow> (if c \<le> p + 1 then 0 else p + 1) = (p + 1) mod (c :: int)"
  by (cases "c = p + 1") auto

lemma mod_between: "0 \<le> a \<Longrightarrow> a < b \<Longrightarrow> b < a + c \<Longrightarrow> a mod c \<noteq> b mod (c :: int)"
proof
  assume "0 \<le> a" "a < b" "b < a + c" "a mod c = b mod c"
  then have "c dvd b - a" by (metis mod_eq_dvd_iff)
  then show False using \<open>a < b\<close> \<open>b < a + c\<close> zdvd_imp_le[of c "b - a"] by simp
qed

lemma push_body_law:
  assumes q: "queue_ok q" and r: "room q"
  shows "\<exists>q'. push_body d q = Some q' \<and> queue_ok q' \<and> contents q' = contents q @ [d]"
proof -
  let ?c = "capacity q" and ?s = "cons_pointer q" and ?n = "queue_count q"
  let ?p = "(?s + ?n) mod ?c"
  have ok: "0 < ?c" "int (length (data q)) = ?c" "0 \<le> ?s" "?s < ?c" "0 \<le> ?n" "?n < ?c" "prod_pointer q = ?p"
    using q r by (auto simp: queue_ok_def room_def)
  have p: "0 \<le> ?p" "?p < ?c" using ok(1) by simp_all
  let ?q = "q\<lparr>data := (data q)[nat ?p := d], queue_count := ?n + 1, prod_pointer := (?p + 1) mod ?c\<rparr>"
  have push: "push_body d q = Some ?q" unfolding push_body_def ok(7) wrap_next[OF p] using p ok(2) by simp
  have next_p: "(?p + 1) mod ?c = (?s + (?n + 1)) mod ?c" by (simp add: mod_add_left_eq add.assoc)
  have "queue_ok ?q" using ok next_p by (simp add: queue_ok_def)
  moreover have "contents ?q = contents q @ [d]"
  proof -
    have suc: "[0..<nat (?n + 1)] = [0..<nat ?n] @ [nat ?n]" using ok(5) by (simp add: nat_add_distrib)
    have neq: "nat ?p \<noteq> nat ((?s + int i) mod ?c)" if "i < nat ?n" for i
      using mod_between[of "?s + int i" "?s + ?n" ?c] that ok p pos_mod_sign[OF ok(1)]
      by (auto simp: eq_nat_nat_iff zless_nat_eq_int_zless)
    have "(data q)[nat ?p := d] ! nat ((?s + int i) mod ?c) = data q ! nat ((?s + int i) mod ?c)" if "i < nat ?n" for i
      by (rule nth_list_update_neq) (rule neq[OF that])
    moreover have "(data q)[nat ?p := d] ! nat ?p = d" using p ok(2) by simp
    ultimately show ?thesis using ok(5) by (simp add: contents_def suc)
  qed
  ultimately show ?thesis using push by blast
qed

lemma pop_body_law:
  assumes q: "queue_ok q" and c: "contents q \<noteq> []"
  shows "\<exists>q'. pop_body q = Some (hd (contents q), q') \<and> queue_ok q' \<and> contents q' = tl (contents q)"
proof -
  let ?c = "capacity q" and ?s = "cons_pointer q" and ?n = "queue_count q"
  have n: "0 < ?n" using c by (auto simp: contents_def)
  have ok: "0 < ?c" "int (length (data q)) = ?c" "0 \<le> ?s" "?s < ?c" "?n \<le> ?c" "prod_pointer q = (?s + ?n) mod ?c"
    using q by (auto simp: queue_ok_def)
  let ?q = "q\<lparr>queue_count := ?n - 1, cons_pointer := (?s + 1) mod ?c, cons_amount := cons_amount q - 1\<rparr>"
  have upt: "[0..<nat ?n] = 0 # map Suc [0..<nat (?n - 1)]" using n by (simp add: upt_conv_Cons map_Suc_upt nat_diff_distrib)
  have "pop_body q = Some (data q ! nat ?s, ?q)" unfolding pop_body_def wrap_next[OF ok(3,4)] using ok by simp
  moreover have "hd (contents q) = data q ! nat ?s" using ok by (simp add: contents_def upt)
  moreover have "queue_ok ?q" using ok n by (simp add: queue_ok_def mod_add_left_eq)
  moreover have "contents ?q = tl (contents q)"
  proof -
    have "((?s + 1) mod ?c + int i) mod ?c = (?s + int (Suc i)) mod ?c" for i by (simp add: mod_add_left_eq add.assoc)
    then show ?thesis by (simp add: contents_def upt)
  qed
  ultimately show ?thesis by simp
qed

interpretation fifo: bounded_fifo queue_ok contents room push_body pop_body
  by unfold_locales (rule push_body_law, assumption+, rule pop_body_law, assumption+)

lemma init_ok: "0 < c \<Longrightarrow> int (length m) = c \<Longrightarrow>
   queue_ok (snd (job_queue_init (Some m) c)) \<and> contents (snd (job_queue_init (Some m) c)) = []"
  by (simp add: job_queue_init_def queue_ok_def contents_def)

subsection \<open>The threads\<close>

text \<open>Where a thread is: before taking the mutex, holding it at the test of the while loop, asleep
  at a condition variable, or woken and about to take the mutex again. The test at the start of
  \<open>job_queue_pop\<close> reads three members without the mutex, one after the other: at \<open>Pop_none\<close> it has found no
  consumers, at \<open>Pop_closing\<close> also that the queue is to be destroyed, and at \<open>Pop_last\<close> that it is empty.\<close>

datatype 'a pc =
    Idle
  | Push_lock 'a | Push_test 'a | Push_wait 'a | Push_wake 'a
  | Pop_none | Pop_closing | Pop_last
  | Pop_lock | Pop_test | Pop_wait | Pop_wake
  | Destroy_lock | Destroy_test | Destroy_wait | Destroy_wake

datatype cond = Prod_cond | Cons_cond | Cond_destroy

fun woken :: "cond \<Rightarrow> 'a pc \<Rightarrow> 'a pc option" where
  "woken Prod_cond (Push_wait d) = Some (Push_wake d)"
| "woken Cons_cond Pop_wait = Some Pop_wake"
| "woken Cond_destroy Destroy_wait = Some Destroy_wake"
| "woken c p = None"

text \<open>\<open>pthread_cond_signal\<close>: one of the threads that wait at the variable, if there is one,
  is woken.\<close>

definition signal :: "cond \<Rightarrow> (nat \<Rightarrow> 'a pc) \<Rightarrow> (nat \<Rightarrow> 'a pc) \<Rightarrow> bool" where
  "signal c p p' \<longleftrightarrow> (\<exists>t w. woken c (p t) = Some w \<and> p' = p(t := w)) \<or> ((\<forall>t. woken c (p t) = None) \<and> p' = p)"

text \<open>The whole system; \<open>pushed\<close> and \<open>popped\<close> record the elements in the order of the
  critical sections and exist in the model only. The queue is no longer \<open>alive\<close> once it has
  been destroyed and freed.\<close>

record 'a sys =
  jq :: "'a job_queue"
  mutex :: "nat option"
  pc :: "nat \<Rightarrow> 'a pc"
  alive :: bool
  pushed :: "'a list"
  popped :: "'a list"

definition must_wait :: "'a job_queue \<Rightarrow> bool" where
  "must_wait q \<longleftrightarrow> queue_count q > 0 \<or> cons_amount q > 0"

text \<open>A step is one read of the tests before the mutex, the taking of the mutex, or what a thread does from there or
  from its test under the mutex until it gives the mutex back. The last kind changes each member of the record at most once, so
  a read of one member without the mutex finds the value before or after the step; the other critical sections cannot fall in
  between as long as the mutex excludes them, which \<open>reach_lock\<close> below shows of the runs without a push after
  the beginning of the destruction. Of the runs with such a push only examples are given (\<open>push_and_destroy\<close>).\<close>

inductive jq_step :: "nat \<Rightarrow> 'a sys \<Rightarrow> 'a sys \<Rightarrow> bool" for t where
  push_call: "pc s t = Idle \<Longrightarrow> \<not> queue_to_be_destroyed (jq s) \<Longrightarrow> jq_step t s (s\<lparr>pc := (pc s)(t := Push_lock d)\<rparr>)"
| push_lock: "pc s t = Push_lock d \<or> pc s t = Push_wake d \<Longrightarrow> mutex s = None \<Longrightarrow>
    jq_step t s (s\<lparr>mutex := Some t, pc := (pc s)(t := Push_test d)\<rparr>)"
| push_wait: "pc s t = Push_test d \<Longrightarrow> capacity (jq s) \<le> queue_count (jq s) \<Longrightarrow>
    jq_step t s (s\<lparr>mutex := None, pc := (pc s)(t := Push_wait d)\<rparr>)"
| push_do: "pc s t = Push_test d \<Longrightarrow> \<not> capacity (jq s) \<le> queue_count (jq s) \<Longrightarrow> push_body d (jq s) = Some q \<Longrightarrow>
    signal Cons_cond (pc s) p \<Longrightarrow>
    jq_step t s (s\<lparr>jq := q, mutex := None, pc := p(t := Idle), pushed := pushed s @ [d]\<rparr>)"
| pop_call: "pc s t = Idle \<Longrightarrow> jq_step t s (s\<lparr>pc := (pc s)(t := (if cons_amount (jq s) = 0 then Pop_none else Pop_lock))\<rparr>)"
| pop_read: "pc s t = Pop_none \<Longrightarrow>
    jq_step t s (s\<lparr>pc := (pc s)(t := (if queue_to_be_destroyed (jq s) then Pop_closing else Pop_lock))\<rparr>)"
| pop_count: "pc s t = Pop_closing \<Longrightarrow> jq_step t s (s\<lparr>pc := (pc s)(t := (if queue_count (jq s) = 0 then Pop_last else Pop_lock))\<rparr>)"
| pop_last: "pc s t = Pop_last \<Longrightarrow> signal Cond_destroy (pc s) p \<Longrightarrow> jq_step t s (s\<lparr>pc := p(t := Idle)\<rparr>)"
| pop_lock: "pc s t = Pop_lock \<Longrightarrow> mutex s = None \<Longrightarrow>
    jq_step t s (s\<lparr>jq := (jq s)\<lparr>cons_amount := cons_amount (jq s) + 1\<rparr>, mutex := Some t, pc := (pc s)(t := Pop_test)\<rparr>)"
| pop_relock: "pc s t = Pop_wake \<Longrightarrow> mutex s = None \<Longrightarrow> jq_step t s (s\<lparr>mutex := Some t, pc := (pc s)(t := Pop_test)\<rparr>)"
| pop_wait: "pc s t = Pop_test \<Longrightarrow> queue_count (jq s) \<le> 0 \<Longrightarrow> \<not> queue_to_be_destroyed (jq s) \<Longrightarrow>
    jq_step t s (s\<lparr>mutex := None, pc := (pc s)(t := Pop_wait)\<rparr>)"
| pop_end: "pc s t = Pop_test \<Longrightarrow> queue_count (jq s) \<le> 0 \<Longrightarrow> queue_to_be_destroyed (jq s) \<Longrightarrow>
    signal Cons_cond (pc s) p \<Longrightarrow>
    jq_step t s (s\<lparr>jq := (jq s)\<lparr>cons_amount := cons_amount (jq s) - 1\<rparr>, mutex := None, pc := p(t := Idle)\<rparr>)"
| pop_drain: "pc s t = Pop_test \<Longrightarrow> queue_count (jq s) > 0 \<Longrightarrow> queue_to_be_destroyed (jq s) \<Longrightarrow>
    pop_body (jq s) = Some (d, q) \<Longrightarrow> signal Cons_cond (pc s) p \<Longrightarrow>
    jq_step t s (s\<lparr>jq := q, mutex := None, pc := p(t := Idle), popped := popped s @ [d]\<rparr>)"
| pop_do: "pc s t = Pop_test \<Longrightarrow> queue_count (jq s) > 0 \<Longrightarrow> \<not> queue_to_be_destroyed (jq s) \<Longrightarrow>
    pop_body (jq s) = Some (d, q) \<Longrightarrow> signal Prod_cond (pc s) p \<Longrightarrow>
    jq_step t s (s\<lparr>jq := q, mutex := None, pc := p(t := Idle), popped := popped s @ [d]\<rparr>)"
| destroy_call: "pc s t = Idle \<Longrightarrow> jq_step t s (s\<lparr>pc := (pc s)(t := Destroy_lock)\<rparr>)"
| destroy_lock: "pc s t = Destroy_lock \<Longrightarrow> mutex s = None \<Longrightarrow>
    jq_step t s (s\<lparr>jq := (jq s)\<lparr>queue_to_be_destroyed := True\<rparr>, mutex := Some t, pc := (pc s)(t := Destroy_test)\<rparr>)"
| destroy_relock: "pc s t = Destroy_wake \<Longrightarrow> mutex s = None \<Longrightarrow> jq_step t s (s\<lparr>mutex := Some t, pc := (pc s)(t := Destroy_test)\<rparr>)"
| destroy_wait: "pc s t = Destroy_test \<Longrightarrow> must_wait (jq s) \<Longrightarrow> jq_step t s (s\<lparr>mutex := None, pc := (pc s)(t := Destroy_wait)\<rparr>)"
| destroy_end: "pc s t = Destroy_test \<Longrightarrow> \<not> must_wait (jq s) \<Longrightarrow>
    jq_step t s (s\<lparr>mutex := None, alive := False, pc := (pc s)(t := Idle)\<rparr>)"

text \<open>A push to a queue that is to be destroyed unlocks the mutex, which the thread does not
  hold; a mutex of the default type does not check that.\<close>

definition late_push :: "nat \<Rightarrow> 'a sys \<Rightarrow> 'a sys \<Rightarrow> bool" where
  "late_push t s s' \<longleftrightarrow> pc s t = Idle \<and> queue_to_be_destroyed (jq s) \<and> s' = s\<lparr>mutex := None\<rparr>"

definition start :: "'a list \<Rightarrow> int \<Rightarrow> 'a sys" where
  "start m cap = \<lparr>jq = snd (job_queue_init (Some m) cap), mutex = None, pc = (\<lambda>_. Idle), alive = True, pushed = [], popped = []\<rparr>"

text \<open>The states that threads reach from a new queue; a thread may also wake up without a
  signal. Whether threads push after the destruction has begun is a parameter.\<close>

inductive reach :: "bool \<Rightarrow> 'a list \<Rightarrow> int \<Rightarrow> 'a sys \<Rightarrow> bool" for late m cap where
  init: "0 < cap \<Longrightarrow> int (length m) = cap \<Longrightarrow> reach late m cap (start m cap)"
| step: "reach late m cap s \<Longrightarrow> alive s \<Longrightarrow> jq_step t s s' \<Longrightarrow> reach late m cap s'"
| spurious: "reach late m cap s \<Longrightarrow> alive s \<Longrightarrow> woken c (pc s t) = Some w \<Longrightarrow> reach late m cap (s\<lparr>pc := (pc s)(t := w)\<rparr>)"
| late: "late \<Longrightarrow> reach late m cap s \<Longrightarrow> alive s \<Longrightarrow> late_push t s s' \<Longrightarrow> reach late m cap s'"

subsection \<open>Invariants\<close>

definition holds :: "'a pc \<Rightarrow> bool" where
  "holds p \<longleftrightarrow> (\<exists>d. p = Push_test d) \<or> p = Pop_test \<or> p = Destroy_test"

text \<open>The threads that \<open>cons_amount\<close> counts: those inside \<open>job_queue_pop\<close> that have taken the mutex once. A thread
  before that, at one of the three reads or at \<open>Pop_lock\<close>, is inside the function too and not counted.\<close>

definition counted :: "'a pc \<Rightarrow> bool" where
  "counted p \<longleftrightarrow> p \<in> {Pop_test, Pop_wait, Pop_wake}"

lemma holds_simps [simp]: "\<not> holds Idle" "\<not> holds (Push_lock d)" "holds (Push_test d)" "\<not> holds (Push_wait d)" "\<not> holds (Push_wake d)"
  "\<not> holds Pop_none" "\<not> holds Pop_closing" "\<not> holds Pop_last" "\<not> holds Pop_lock" "holds Pop_test" "\<not> holds Pop_wait" "\<not> holds Pop_wake"
  "\<not> holds Destroy_lock" "holds Destroy_test" "\<not> holds Destroy_wait" "\<not> holds Destroy_wake"
  by (simp_all add: holds_def)

lemma counted_simps [simp]: "\<not> counted Idle" "\<not> counted (Push_lock d)" "\<not> counted (Push_test d)" "\<not> counted (Push_wait d)" "\<not> counted (Push_wake d)"
  "\<not> counted Pop_none" "\<not> counted Pop_closing" "\<not> counted Pop_last" "\<not> counted Pop_lock" "counted Pop_test" "counted Pop_wait" "counted Pop_wake"
  "\<not> counted Destroy_lock" "\<not> counted Destroy_test" "\<not> counted Destroy_wait" "\<not> counted Destroy_wake"
  by (simp_all add: counted_def)

lemma woken_same: "woken c p = Some w \<Longrightarrow> holds w = holds p \<and> counted w = counted p"
  by (induction c p rule: woken.induct) auto

lemma signal_same: "signal c p p' \<Longrightarrow> \<forall>t. holds (p' t) = holds (p t) \<and> counted (p' t) = counted (p t)"
  unfolding signal_def using woken_same by (metis fun_upd_apply)

definition lock_ok :: "'a sys \<Rightarrow> bool" where
  "lock_ok s \<longleftrightarrow> (\<forall>t. holds (pc s t) \<longleftrightarrow> mutex s = Some t)"

lemma lock_okI: "lock_ok s \<Longrightarrow> (\<And>u. u \<noteq> t \<Longrightarrow> holds (pc s' u) = holds (pc s u)) \<Longrightarrow>
   (mutex s' = mutex s \<and> holds (pc s' t) = holds (pc s t)) \<or>
   (mutex s = None \<and> mutex s' = Some t \<and> holds (pc s' t)) \<or>
   (holds (pc s t) \<and> mutex s' = None \<and> \<not> holds (pc s' t)) \<Longrightarrow> lock_ok s'"
  unfolding lock_ok_def by (metis option.inject option.distinct(1))

lemma lock_ok_step: "jq_step t s s' \<Longrightarrow> lock_ok s \<Longrightarrow> lock_ok s'"
  by (erule lock_okI[of s t]; erule jq_step.cases; auto dest!: signal_same)

definition consumers :: "(nat \<Rightarrow> 'a pc) \<Rightarrow> nat set" where
  "consumers p = {t. counted (p t)}"

definition count_ok :: "'a sys \<Rightarrow> bool" where
  "count_ok s \<longleftrightarrow> finite (consumers (pc s)) \<and> cons_amount (jq s) = int (card (consumers (pc s)))"

lemma consumers_upd: "consumers (p(t := x)) = (if counted x then insert t (consumers p) else consumers p - {t})"
  by (auto simp: consumers_def)

lemma consumers_signal: "signal c p p' \<Longrightarrow> consumers p' = consumers p"
  using signal_same[of c p p'] by (simp add: consumers_def)

lemma in_consumers: "t \<in> consumers p \<longleftrightarrow> counted (p t)"
  by (simp add: consumers_def)

lemma push_body_frame: "push_body d q = Some q' \<Longrightarrow> capacity q' = capacity q \<and> cons_amount q' = cons_amount q \<and>
    queue_to_be_destroyed q' = queue_to_be_destroyed q"
  by (auto simp: push_body_def split: if_splits)

lemma pop_body_frame: "pop_body q = Some (d, q') \<Longrightarrow> capacity q' = capacity q \<and> cons_amount q' = cons_amount q - 1 \<and>
    queue_to_be_destroyed q' = queue_to_be_destroyed q"
  by (auto simp: pop_body_def split: if_splits)

lemma count_ok_enter: "consumers (pc s') = insert t (consumers (pc s)) \<Longrightarrow> \<not> counted (pc s t) \<Longrightarrow>
   cons_amount (jq s') = cons_amount (jq s) + 1 \<Longrightarrow> count_ok s \<Longrightarrow> count_ok s'"
  by (simp add: count_ok_def in_consumers)

lemma count_ok_leave: "consumers (pc s') = consumers (pc s) - {t} \<Longrightarrow> counted (pc s t) \<Longrightarrow>
   cons_amount (jq s') = cons_amount (jq s) - 1 \<Longrightarrow> count_ok s \<Longrightarrow> count_ok s'"
  using card_Suc_Diff1[of "consumers (pc s)" t] by (simp add: count_ok_def in_consumers)

lemma consumers_move: "counted x = counted (p t) \<Longrightarrow> consumers (p(t := x)) = consumers p"
  by (auto simp: consumers_def)

lemma consumers_pass: "signal c p p' \<Longrightarrow> counted x = counted (p t) \<Longrightarrow> consumers (p'(t := x)) = consumers p"
  using signal_same[of c p p'] by (auto simp: consumers_def)

lemma count_ok_step:
  assumes "jq_step t s s'" "count_ok s"
  shows "count_ok s'"
  using assms
proof (cases rule: jq_step.cases)
  case pop_lock
  then show ?thesis using assms(2) by (intro count_ok_enter[of s' t s]) (simp_all add: consumers_upd)
next
  case (pop_end p)
  then show ?thesis using assms(2) by (intro count_ok_leave[of s' s t]) (simp_all add: consumers_upd consumers_signal)
next
  case (pop_drain d q p)
  then show ?thesis using assms(2) by (intro count_ok_leave[of s' s t]) (simp_all add: consumers_upd consumers_signal pop_body_frame)
next
  case (pop_do d q p)
  then show ?thesis using assms(2) by (intro count_ok_leave[of s' s t]) (simp_all add: consumers_upd consumers_signal pop_body_frame)
qed (use assms(2) in \<open>auto simp: count_ok_def consumers_move consumers_pass push_body_frame consumers_signal\<close>)

definition history_ok :: "'a sys \<Rightarrow> bool" where
  "history_ok s \<longleftrightarrow> queue_ok (jq s) \<and> pushed s = popped s @ contents (jq s)"

lemma queue_ok_other [simp]:
  "queue_ok (q\<lparr>cons_amount := n\<rparr>) = queue_ok q" "contents (q\<lparr>cons_amount := n\<rparr>) = contents q"
  "queue_ok (q\<lparr>queue_to_be_destroyed := b\<rparr>) = queue_ok q" "contents (q\<lparr>queue_to_be_destroyed := b\<rparr>) = contents q"
  by (simp_all add: queue_ok_def contents_def)

lemma contents_empty: "contents q = [] \<longleftrightarrow> queue_count q \<le> 0"
  by (simp add: contents_def)

lemma history_ok_step:
  assumes "jq_step t s s'" "history_ok s"
  shows "history_ok s'"
  using assms
proof (cases rule: jq_step.cases)
  case (push_do d q p)
  then show ?thesis using fifo.put_history[of "jq s" d q "pushed s" "popped s"] assms(2)
    by (simp add: history_ok_def room_def)
next
  case (pop_drain d q p)
  then show ?thesis using fifo.get_history[of "jq s" d q "pushed s" "popped s"] assms(2)
    by (simp add: history_ok_def contents_empty)
next
  case (pop_do d q p)
  then show ?thesis using fifo.get_history[of "jq s" d q "pushed s" "popped s"] assms(2)
    by (simp add: history_ok_def contents_empty)
qed (use assms(2) in \<open>simp_all add: history_ok_def\<close>)

lemma reach_history: "reach late m cap s \<Longrightarrow> history_ok s"
proof (induction rule: reach.induct)
  case init
  then show ?case using init_ok[of cap m] by (simp add: history_ok_def start_def)
next
  case (late s t s')
  then show ?case by (simp add: late_push_def history_ok_def)
qed (simp_all add: history_ok_step, simp add: history_ok_def)

lemma capacity_step: "jq_step t s s' \<Longrightarrow> capacity (jq s') = capacity (jq s)"
  by (erule jq_step.cases) (auto simp: push_body_frame pop_body_frame)

lemma reach_capacity: "reach late m cap s \<Longrightarrow> capacity (jq s) = cap"
proof (induction rule: reach.induct)
  case init
  then show ?case by (simp add: start_def job_queue_init_def)
next
  case (late s t s')
  then show ?case by (simp add: late_push_def)
qed (simp_all add: capacity_step)

lemma reach_count: "reach late m cap s \<Longrightarrow> count_ok s"
proof (induction rule: reach.induct)
  case init
  then show ?case by (simp add: count_ok_def consumers_def start_def job_queue_init_def)
next
  case (spurious s c t w)
  then show ?case using woken_same[of c "pc s t" w] by (simp add: count_ok_def consumers_move)
next
  case (late s t s')
  then show ?case by (simp add: late_push_def count_ok_def)
qed (simp add: count_ok_step)

lemma reach_lock: "reach False m cap s \<Longrightarrow> lock_ok s"
proof (induction rule: reach.induct)
  case init
  then show ?case by (simp add: lock_ok_def start_def)
next
  case (spurious s c t w)
  then show ?case using woken_same[of c "pc s t" w] by (simp add: lock_ok_def)
qed (simp_all add: lock_ok_step)

subsection \<open>Behaviours of concrete runs\<close>

definition demo_queue :: "'a list \<Rightarrow> int \<Rightarrow> int \<Rightarrow> int \<Rightarrow> bool \<Rightarrow> int \<Rightarrow> 'a job_queue" where
  "demo_queue xs p c n b k = \<lparr>data = xs, capacity = 1, prod_pointer = p, cons_pointer = c, queue_count = n, queue_to_be_destroyed = b, cons_amount = k\<rparr>"

definition demo_sys :: "'a job_queue \<Rightarrow> nat option \<Rightarrow> (nat \<Rightarrow> 'a pc) \<Rightarrow> bool \<Rightarrow> 'a list \<Rightarrow> 'a list \<Rightarrow> 'a sys" where
  "demo_sys q m p a pu po = \<lparr>jq = q, mutex = m, pc = p, alive = a, pushed = pu, popped = po\<rparr>"

lemma start_demo: "start [x] 1 = demo_sys (demo_queue [x] 0 0 0 False 0) None (\<lambda>_. Idle) True [] []"
  by (simp add: start_def demo_sys_def demo_queue_def job_queue_init_def)

lemma reach_eq: "reach late m cap s \<Longrightarrow> alive s \<Longrightarrow> jq_step t s s' \<Longrightarrow> s' = s'' \<Longrightarrow> reach late m cap s''"
  using reach.step by blast

lemma start_reach: "reach late [x] 1 (demo_sys (demo_queue [x] 0 0 0 False 0) None (\<lambda>_. Idle) True [] [])"
  using reach.init[of 1 "[x]" late] by (simp add: start_demo)

lemmas demo_defs = demo_sys_def demo_queue_def must_wait_def push_body_def pop_body_def

lemma signal_none: "\<forall>t. woken c (p t) = None \<Longrightarrow> signal c p p"
  by (simp add: signal_def)

lemma signal_one: "woken c (p t) = Some w \<Longrightarrow> signal c p (p(t := w))"
  unfolding signal_def by blast

lemma demo_full: "reach late [x] 1 (demo_sys (demo_queue [x] 0 0 1 False 0) None (\<lambda>_. Idle) True [x] [])"
proof -
  have "reach late [x] 1 (demo_sys (demo_queue [x] 0 0 0 False 0) None ((\<lambda>_. Idle)(0 := Push_lock x)) True [] [])"
    by (rule reach_eq[OF start_reach _ jq_step.push_call[where t = 0 and d = x]]) (simp_all add: demo_defs)
  then have "reach late [x] 1 (demo_sys (demo_queue [x] 0 0 0 False 0) (Some 0) ((\<lambda>_. Idle)(0 := Push_test x)) True [] [])"
    by (rule reach_eq[OF _ _ jq_step.push_lock[where t = 0 and d = x]]) (simp_all add: demo_defs)
  then show ?thesis
    by (rule reach_eq[OF _ _ jq_step.push_do[where t = 0 and d = x, OF _ _ _ signal_none]]) (simp_all add: demo_defs fun_upd_idem_iff)
qed

lemma start_pops: "reach late [x] 1 (demo_sys (demo_queue [x] 0 0 0 False 0) None ((\<lambda>_. Idle)(t := Pop_lock)) True [] [])"
proof -
  have "reach late [x] 1 (demo_sys (demo_queue [x] 0 0 0 False 0) None ((\<lambda>_. Idle)(t := Pop_none)) True [] [])"
    by (rule reach_eq[OF start_reach _ jq_step.pop_call[where t = t]]) (simp_all add: demo_defs)
  then show ?thesis by (rule reach_eq[OF _ _ jq_step.pop_read[where t = t]]) (simp_all add: demo_defs)
qed

text \<open>A consumer that is past the reads and not yet at the mutex when the destruction ends takes a mutex that was destroyed.\<close>

lemma pop_left_behind: "\<exists>s. reach False [x] 1 s \<and> \<not> alive s \<and> pc s 1 = Pop_lock"
proof -
  let ?s = "\<lambda>b m p a. demo_sys (demo_queue [x] 0 0 0 b 0) m ((\<lambda>_. Idle)(1 := Pop_lock, 0 := p)) a [] []"
  have "reach False [x] 1 (?s False None Destroy_lock True)"
    by (rule reach_eq[OF start_pops _ jq_step.destroy_call[where t = 0]]) (simp_all add: demo_defs)
  then have "reach False [x] 1 (?s True (Some 0) Destroy_test True)"
    by (rule reach_eq[OF _ _ jq_step.destroy_lock[where t = 0]]) (simp_all add: demo_defs)
  then have "reach False [x] 1 (?s True None Idle False)"
    by (rule reach_eq[OF _ _ jq_step.destroy_end[where t = 0]]) (simp_all add: demo_defs)
  then show ?thesis by (intro exI conjI) (assumption, simp_all add: demo_defs)
qed

subsection \<open>What the queue guarantees\<close>

text \<open>C7: in every interleaving of pushes, pops and destructions in which no thread pushes after a destruction has begun,
  with any signals and spurious wake-ups, the elements popped so far followed by the content of the buffer are exactly the
  elements pushed, in order; the count stays between 0 and the capacity, both indexes
  inside the array, and neither critical section ever reaches outside of it. In these runs at most one thread is between
  taking and giving back the mutex (\<open>reach_lock\<close>), so nothing of a run is lost by taking a critical section as one step.\<close>

theorem queue_is_fifo:
  assumes "reach False m cap s"
  shows "pushed s = popped s @ contents (jq s) \<and> 0 \<le> queue_count (jq s) \<and> queue_count (jq s) \<le> cap \<and>
    0 \<le> prod_pointer (jq s) \<and> prod_pointer (jq s) < cap \<and> 0 \<le> cons_pointer (jq s) \<and> cons_pointer (jq s) < cap \<and>
    push_body d (jq s) \<noteq> None \<and> pop_body (jq s) \<noteq> None"
proof -
  have "history_ok s" "capacity (jq s) = cap" using reach_history[OF assms] reach_capacity[OF assms] by auto
  then show ?thesis by (auto simp: history_ok_def queue_ok_def push_body_def pop_body_def)
qed

lemma queue_is_fifo_witness:
  "[7 :: int] = [] @ contents (demo_queue [7] 0 0 1 False 0) \<and> push_body 8 (demo_queue [7 :: int] 0 0 1 False 0) \<noteq> None"
  using queue_is_fifo[OF demo_full[of False "7 :: int"], of 8] by (simp add: demo_sys_def)

text \<open>C30: as long as no thread pushes after the destruction has begun, at most one thread is
  inside a critical section, the one that holds the mutex; and the number of consumers in the record is the number of
  threads in \<open>job_queue_pop\<close> that have taken the mutex and not left yet. When the destruction ends, everything pushed has been
  popped and no such thread is left. A thread in \<open>job_queue_pop\<close> that has not taken the mutex yet is not waited
  for (\<open>pop_left_behind\<close>).\<close>

theorem queue_mutual_exclusion:
  assumes "reach False m cap s"
  shows "(holds (pc s t) \<longrightarrow> holds (pc s u) \<longrightarrow> t = u) \<and> (mutex s = None \<longrightarrow> \<not> holds (pc s t)) \<and>
    cons_amount (jq s) = int (card {t. counted (pc s t)}) \<and>
    (\<forall>s'. jq_step t s s' \<longrightarrow> alive s \<longrightarrow> \<not> alive s' \<longrightarrow> popped s' = pushed s' \<and> (\<forall>u. \<not> counted (pc s' u)))"
proof -
  have l: "lock_ok s" and c: "count_ok s" and h: "history_ok s"
    using reach_lock reach_count reach_history assms by blast+
  have "popped s' = pushed s' \<and> (\<forall>u. \<not> counted (pc s' u))" if "jq_step t s s'" "alive s" "\<not> alive s'" for s'
    using that
  proof (cases rule: jq_step.cases)
    case destroy_end
    then have "queue_count (jq s) \<le> 0" "cons_amount (jq s) \<le> 0" by (auto simp: must_wait_def)
    then have "contents (jq s) = []" "consumers (pc s) = {}" using c by (auto simp: contents_empty count_ok_def)
    then show ?thesis using destroy_end h by (auto simp: history_ok_def consumers_def)
  qed auto
  then show ?thesis using l c by (auto simp: lock_ok_def count_ok_def consumers_def)
qed

lemma queue_mutual_exclusion_witness:
  "cons_amount (demo_queue [7 :: int] 0 0 1 False 0) = int (card {t. counted ((\<lambda>_. Idle :: int pc) (t :: nat))})"
  using queue_mutual_exclusion[OF demo_full[of False "7 :: int"]] by (simp add: demo_sys_def)

text \<open>C31: destroying a queue hangs when a consumer sleeps on it: thread 1 waits for an element,
  thread 0 begins the destruction and waits for the consumer to leave, nobody signals either, and no
  step is left but for threads that make a new call.\<close>

theorem destroy_deadlock:
  "\<exists>s. reach False [x] 1 s \<and> alive s \<and> pc s 0 = Destroy_wait \<and> pc s 1 = Pop_wait \<and>
     (\<forall>t s'. jq_step t s s' \<longrightarrow> pc s t = Idle)"
proof -
  let ?q = "\<lambda>b k. demo_queue [x] 0 0 0 b k" and ?s = "\<lambda>q m p. demo_sys q m p True [] []"
  have "reach False [x] 1 (?s (?q False 0) None ((\<lambda>_. Idle)(1 := Pop_lock)))"
    by (rule start_pops)
  then have "reach False [x] 1 (?s (?q False 1) (Some 1) ((\<lambda>_. Idle)(1 := Pop_test)))"
    by (rule reach_eq[OF _ _ jq_step.pop_lock[where t = 1]]) (simp_all add: demo_defs)
  then have "reach False [x] 1 (?s (?q False 1) None ((\<lambda>_. Idle)(1 := Pop_wait)))"
    by (rule reach_eq[OF _ _ jq_step.pop_wait[where t = 1]]) (simp_all add: demo_defs)
  then have "reach False [x] 1 (?s (?q False 1) None ((\<lambda>_. Idle)(1 := Pop_wait, 0 := Destroy_lock)))"
    by (rule reach_eq[OF _ _ jq_step.destroy_call[where t = 0]]) (simp_all add: demo_defs)
  then have "reach False [x] 1 (?s (?q True 1) (Some 0) ((\<lambda>_. Idle)(1 := Pop_wait, 0 := Destroy_test)))"
    by (rule reach_eq[OF _ _ jq_step.destroy_lock[where t = 0]]) (simp_all add: demo_defs)
  then have r: "reach False [x] 1 (?s (?q True 1) None ((\<lambda>_. Idle)(1 := Pop_wait, 0 := Destroy_wait)))"
    by (rule reach_eq[OF _ _ jq_step.destroy_wait[where t = 0]]) (simp_all add: demo_defs)
  have "pc (?s (?q True 1) None ((\<lambda>_. Idle)(1 := Pop_wait, 0 := Destroy_wait))) t = Idle"
    if "jq_step t (?s (?q True 1) None ((\<lambda>_. Idle)(1 := Pop_wait, 0 := Destroy_wait))) s'" for t s'
    using that by (cases rule: jq_step.cases) (auto simp: demo_defs split: if_splits)
  then show ?thesis using r by (intro exI[of _ "?s (?q True 1) None ((\<lambda>_. Idle)(1 := Pop_wait, 0 := Destroy_wait))"])
      (auto simp: demo_defs)
qed

lemma destroy_deadlock_witness:
  "\<exists>s. reach False [7 :: int] 1 s \<and> pc s 0 = Destroy_wait \<and> \<not> (\<exists>s'. jq_step 0 s s') \<and> \<not> (\<exists>s'. jq_step 1 s s')"
proof -
  obtain s where s: "reach False [7 :: int] 1 s" "pc s 0 = Destroy_wait" "pc s 1 = Pop_wait" "\<forall>t s'. jq_step t s s' \<longrightarrow> pc s t = Idle"
    using destroy_deadlock[of "7 :: int"] by blast
  then have "\<not> jq_step 0 s s'" "\<not> jq_step 1 s s'" for s' by force+
  then show ?thesis using s by blast
qed

text \<open>C32: a push to a queue whose destruction has begun unlocks a mutex it does not hold, and
  two threads can be in their critical sections at once; and a producer that sleeps when
  the destruction begins is not waited for: the queue is freed while it still waits.\<close>

theorem push_and_destroy:
  "(\<exists>s. reach True [x] 1 s \<and> alive s \<and> holds (pc s 0) \<and> holds (pc s 2)) \<and>
   (\<exists>s. reach False [x] 1 s \<and> \<not> alive s \<and> pc s 1 = Push_wait y)"
proof
  let ?s = "\<lambda>q m p po. demo_sys q m p True [x] po"
  note full = demo_full[of _ x]
  show "\<exists>s. reach True [x] 1 s \<and> alive s \<and> holds (pc s 0) \<and> holds (pc s 2)"
  proof -
    have "reach True [x] 1 (?s (demo_queue [x] 0 0 1 False 0) None ((\<lambda>_. Idle)(0 := Destroy_lock)) [])"
      by (rule reach_eq[OF full _ jq_step.destroy_call[where t = 0]]) (simp_all add: demo_defs)
    then have "reach True [x] 1 (?s (demo_queue [x] 0 0 1 True 0) (Some 0) ((\<lambda>_. Idle)(0 := Destroy_test)) [])"
      by (rule reach_eq[OF _ _ jq_step.destroy_lock[where t = 0]]) (simp_all add: demo_defs)
    then have "reach True [x] 1 (?s (demo_queue [x] 0 0 1 True 0) None ((\<lambda>_. Idle)(0 := Destroy_test)) [])"
      by (rule reach.late[where t = 1, rotated]) (simp_all add: demo_defs late_push_def)
    then have "reach True [x] 1 (?s (demo_queue [x] 0 0 1 True 0) None ((\<lambda>_. Idle)(0 := Destroy_test, 2 := Pop_none)) [])"
      by (rule reach_eq[OF _ _ jq_step.pop_call[where t = 2]]) (simp_all add: demo_defs)
    then have "reach True [x] 1 (?s (demo_queue [x] 0 0 1 True 0) None ((\<lambda>_. Idle)(0 := Destroy_test, 2 := Pop_closing)) [])"
      by (rule reach_eq[OF _ _ jq_step.pop_read[where t = 2]]) (simp_all add: demo_defs)
    then have "reach True [x] 1 (?s (demo_queue [x] 0 0 1 True 0) None ((\<lambda>_. Idle)(0 := Destroy_test, 2 := Pop_lock)) [])"
      by (rule reach_eq[OF _ _ jq_step.pop_count[where t = 2]]) (simp_all add: demo_defs)
    then have "reach True [x] 1 (?s (demo_queue [x] 0 0 1 True 1) (Some 2) ((\<lambda>_. Idle)(0 := Destroy_test, 2 := Pop_test)) [])"
      by (rule reach_eq[OF _ _ jq_step.pop_lock[where t = 2]]) (simp_all add: demo_defs)
    then show ?thesis by (intro exI conjI) (assumption, simp_all add: demo_defs)
  qed
  let ?p = "\<lambda>d. (\<lambda>_. Idle)(1 := Push_wait y, 2 := d)"
  have "reach False [x] 1 (?s (demo_queue [x] 0 0 1 False 0) None ((\<lambda>_. Idle)(1 := Push_lock y)) [])"
    by (rule reach_eq[OF full _ jq_step.push_call[where t = 1 and d = y]]) (simp_all add: demo_defs)
  then have "reach False [x] 1 (?s (demo_queue [x] 0 0 1 False 0) (Some 1) ((\<lambda>_. Idle)(1 := Push_test y)) [])"
    by (rule reach_eq[OF _ _ jq_step.push_lock[where t = 1 and d = y]]) (simp_all add: demo_defs)
  then have "reach False [x] 1 (?s (demo_queue [x] 0 0 1 False 0) None ((\<lambda>_. Idle)(1 := Push_wait y)) [])"
    by (rule reach_eq[OF _ _ jq_step.push_wait[where t = 1 and d = y]]) (simp_all add: demo_defs)
  then have "reach False [x] 1 (?s (demo_queue [x] 0 0 1 False 0) None (?p Destroy_lock) [])"
    by (rule reach_eq[OF _ _ jq_step.destroy_call[where t = 2]]) (simp_all add: demo_defs)
  then have "reach False [x] 1 (?s (demo_queue [x] 0 0 1 True 0) (Some 2) (?p Destroy_test) [])"
    by (rule reach_eq[OF _ _ jq_step.destroy_lock[where t = 2]]) (simp_all add: demo_defs)
  then have "reach False [x] 1 (?s (demo_queue [x] 0 0 1 True 0) None (?p Destroy_wait) [])"
    by (rule reach_eq[OF _ _ jq_step.destroy_wait[where t = 2]]) (simp_all add: demo_defs)
  then have "reach False [x] 1 (?s (demo_queue [x] 0 0 1 True 0) None ((?p Destroy_wait)(3 := Pop_none)) [])"
    by (rule reach_eq[OF _ _ jq_step.pop_call[where t = 3]]) (simp_all add: demo_defs)
  then have "reach False [x] 1 (?s (demo_queue [x] 0 0 1 True 0) None ((?p Destroy_wait)(3 := Pop_closing)) [])"
    by (rule reach_eq[OF _ _ jq_step.pop_read[where t = 3]]) (simp_all add: demo_defs)
  then have "reach False [x] 1 (?s (demo_queue [x] 0 0 1 True 0) None ((?p Destroy_wait)(3 := Pop_lock)) [])"
    by (rule reach_eq[OF _ _ jq_step.pop_count[where t = 3]]) (simp_all add: demo_defs)
  then have "reach False [x] 1 (?s (demo_queue [x] 0 0 1 True 1) (Some 3) ((?p Destroy_wait)(3 := Pop_test)) [])"
    by (rule reach_eq[OF _ _ jq_step.pop_lock[where t = 3]]) (simp_all add: demo_defs)
  then have "reach False [x] 1 (?s (demo_queue [x] 0 0 0 True 0) None ((?p Destroy_wait)(3 := Idle)) [x])"
    by (rule reach_eq[OF _ _ jq_step.pop_drain[where t = 3, OF _ _ _ _ signal_none]]) (simp_all add: demo_defs)
  then have "reach False [x] 1 (?s (demo_queue [x] 0 0 0 True 0) None ((?p Destroy_wait)(3 := Pop_none)) [x])"
    by (rule reach_eq[OF _ _ jq_step.pop_call[where t = 3]]) (simp_all add: demo_defs)
  then have "reach False [x] 1 (?s (demo_queue [x] 0 0 0 True 0) None ((?p Destroy_wait)(3 := Pop_closing)) [x])"
    by (rule reach_eq[OF _ _ jq_step.pop_read[where t = 3]]) (simp_all add: demo_defs)
  then have "reach False [x] 1 (?s (demo_queue [x] 0 0 0 True 0) None ((?p Destroy_wait)(3 := Pop_last)) [x])"
    by (rule reach_eq[OF _ _ jq_step.pop_count[where t = 3]]) (simp_all add: demo_defs)
  then have "reach False [x] 1 (?s (demo_queue [x] 0 0 0 True 0) None ((?p Destroy_wait)(3 := Idle, 2 := Destroy_wake)) [x])"
    by (rule reach_eq[OF _ _ jq_step.pop_last[where t = 3, OF _ signal_one[where t = 2]]]) (simp_all add: demo_defs fun_eq_iff)
  then have "reach False [x] 1 (?s (demo_queue [x] 0 0 0 True 0) (Some 2) ((?p Destroy_wait)(3 := Idle, 2 := Destroy_test)) [x])"
    by (rule reach_eq[OF _ _ jq_step.destroy_relock[where t = 2]]) (simp_all add: demo_defs)
  then have "reach False [x] 1 (demo_sys (demo_queue [x] 0 0 0 True 0) None ((?p Destroy_wait)(3 := Idle, 2 := Idle)) False [x] [x])"
    by (rule reach_eq[OF _ _ jq_step.destroy_end[where t = 2]]) (simp_all add: demo_defs)
  then show "\<exists>s. reach False [x] 1 s \<and> \<not> alive s \<and> pc s 1 = Push_wait y"
    by (intro exI conjI) (assumption, simp_all add: demo_defs)
qed

end
