(* ===== verification/Jobs.thy ===== *)
theory Jobs
  imports CStrings "HOL-Library.Multiset"
begin

text \<open>
  The work that the threads of A2 take from the job queue: the Fibonacci numbers of
  \<open>A2/fibs.c\<close>, the search of \<open>A2/fauxgrep.c\<close> and \<open>A2/fauxgrep-mt.c\<close>, and the bit histogram of
  \<open>A2/histogram.h\<close>, \<open>A2/fhistogram.c\<close> and \<open>A2/fhistogram-mt.c\<close>. A file is \<open>None\<close> when
  it cannot be opened. The list of jobs of a worker is what \<open>job_queue_pop\<close> gives it before
  the first non-zero result.
\<close>

subsection \<open>Fibonacci numbers\<close>

lemma sint_minus_small:
  assumes "2 \<le> sint (n :: i32)" "0 \<le> k" "k \<le> 2"
  shows "sint (n - word_of_int k) = sint n - k"
proof -
  have b: "sint n < 2 ^ 31" using sint_lt[of n] by simp
  have "n - word_of_int k = word_of_int (sint n - k)" by (simp add: wi_hom_syms)
  moreover have "sint (word_of_int (sint n - k) :: i32) = signed_take_bit 31 (sint n - k)" unfolding signed_of_int by simp
  moreover have "signed_take_bit 31 (sint n - k) = sint n - k" using assms b by (intro signed_take_bit_int_eq_self) auto
  ultimately show ?thesis by simp
qed

lemma fib_smaller: "\<not> n <s 2 \<Longrightarrow> sint (n - 1) = sint (n :: i32) - 1 \<and> sint (n - 2) = sint n - 2 \<and> 2 \<le> sint n"
  using sint_minus_small[of n 1] sint_minus_small[of n 2] by (auto simp: word_sless_alt)

function fib :: "i32 \<Rightarrow> i32" where
  "fib n = (if n <s 2 then 1 else fib (n - 1) + fib (n - 2))"
  by pat_completeness auto

termination
  by (relation "measure (\<lambda>n. nat (sint n))") (auto dest: fib_smaller)

declare fib.simps [simp del]

text \<open>The reference: the usual loop with two accumulators, over unbounded numbers.\<close>

fun fib_loop :: "nat \<Rightarrow> nat \<Rightarrow> nat \<Rightarrow> nat" where
  "fib_loop a b 0 = a"
| "fib_loop a b (Suc n) = fib_loop b (a + b) n"

lemma fib_loop_numeral: "fib_loop a b (numeral k) = fib_loop b (a + b) (pred_numeral k)"
  by (simp add: numeral_eq_Suc)

lemma fib_loop_45: "fib_loop 1 1 45 = 1836311903"
proof -
  have "fib_loop a b 1 = b" for a b by simp
  then show ?thesis by (simp add: fib_loop_numeral del: One_nat_def)
qed

lemma fib_loop_step: "fib_loop a b (Suc (Suc n)) = fib_loop a b (Suc n) + fib_loop a b n"
proof (induction n arbitrary: a b)
  case (Suc n)
  show ?case using Suc[of b "a + b"] by simp
qed simp

text \<open>\<open>fib_line\<close>: what it prints.\<close>

definition fib_line :: "string \<Rightarrow> i32 \<times> i32" where
  "fib_line buf = (let n = atoi (c_str buf); fibn = fib n in (n, fibn))"

fun fib_worker :: "string list \<Rightarrow> (i32 \<times> i32) list" where
  "fib_worker [] = []"
| "fib_worker (buf # jobs) = fib_line buf # fib_worker jobs"

lemma sint_of_nat: "n < 2 ^ 31 \<Longrightarrow> sint (word_of_nat n :: i32) = int n"
  by (simp add: signed_of_nat signed_take_bit_int_eq_self_iff)

text \<open>For every non-negative \<open>int\<close> the doubly recursive \<open>fib\<close> ends and gives what the linear
  loop gives, cut to 32 bits; up to 45 nothing is cut.\<close>

theorem fib_is_loop:
  assumes "n < 2 ^ 31"
  shows "fib (word_of_nat n) = word_of_nat (fib_loop 1 1 n) \<and> (n \<le> 45 \<longrightarrow> sint (fib (word_of_nat n)) = int (fib_loop 1 1 n))"
proof -
  have loop: "fib (word_of_nat n) = word_of_nat (fib_loop 1 1 n)" using assms
  proof (induction n rule: less_induct)
    case (less n)
    show ?case
    proof (cases "n < 2")
      case True
      then have "n = 0 \<or> n = 1" by auto
      then show ?thesis by (auto simp: fib.simps[of 0] fib.simps[of 1] word_sless_alt)
    next
      case False
      then obtain m where m: "n = Suc (Suc m)" by (metis Suc_1 less_Suc_eq_0_disj not_less_eq not0_implies_Suc One_nat_def)
      have "\<not> (word_of_nat n :: i32) <s 2" using False less.prems by (simp add: word_sless_alt sint_of_nat)
      then have "fib (word_of_nat n) = fib (word_of_nat n - 1) + fib (word_of_nat n - 2)" by (subst fib.simps) (simp only: if_False)
      moreover have "(word_of_nat n - 1 :: i32) = word_of_nat (Suc m)" "(word_of_nat n - 2 :: i32) = word_of_nat m"
        by (simp_all add: m)
      moreover have "fib (word_of_nat (Suc m)) = word_of_nat (fib_loop 1 1 (Suc m))" "fib (word_of_nat m) = word_of_nat (fib_loop 1 1 m)"
        using less.IH[of "Suc m"] less.IH[of m] less.prems m by simp_all
      ultimately have "fib (word_of_nat n) = word_of_nat (fib_loop 1 1 (Suc m)) + word_of_nat (fib_loop 1 1 m)"
        by (simp only:)
      also have "\<dots> = word_of_nat (fib_loop 1 1 n)" unfolding m fib_loop_step by (simp only: of_nat_add)
      finally show ?thesis .
    qed
  qed
  have "fib_loop 1 1 n < 2 ^ 31" if "n \<le> 45"
  proof -
    have "fib_loop 1 1 n \<le> fib_loop 1 1 45" using that
    proof (induction rule: inc_induct)
      case (step k)
      have "fib_loop 1 1 k \<le> fib_loop 1 1 (Suc k)" by (cases k) (simp_all add: fib_loop_step del: fib_loop.simps(2), simp)
      then show ?case using step by simp
    qed simp
    also have "fib_loop 1 1 45 < 2 ^ 31" unfolding fib_loop_45 by simp
    finally show ?thesis .
  qed
  then have "n \<le> 45 \<longrightarrow> sint (word_of_nat (fib_loop 1 1 n) :: i32) = int (fib_loop 1 1 n)" by (intro impI sint_of_nat)
  then show ?thesis unfolding loop by (rule conjI[OF refl])
qed

lemma fib_is_loop_witness: "fib (word_of_nat 10) = word_of_nat (fib_loop 1 1 10)"
  using fib_is_loop[of 10] by simp

subsection \<open>Searching files\<close>

text \<open>\<open>strstr(line, needle) != NULL\<close>.\<close>

fun strstr_found :: "string \<Rightarrow> string \<Rightarrow> bool" where
  "strstr_found [] needle = (needle = [])"
| "strstr_found (c # s) needle = (take (length needle) (c # s) = needle \<or> strstr_found s needle)"

text \<open>The loop over the lines, with the number of the next line; the lines printed.\<close>

function grep_loop :: "string \<Rightarrow> string \<Rightarrow> nat \<Rightarrow> string \<Rightarrow> (string \<times> nat \<times> string) list" where
  "grep_loop needle path lineno f =
     (case getline f of None \<Rightarrow> []
      | Some (buf, rest) \<Rightarrow>
          (if strstr_found (c_str buf) needle then [(path, lineno, c_str buf)] else [])
            @ grep_loop needle path (lineno + 1) rest)"
  by pat_completeness auto
termination
proof (relation "measure (\<lambda>(needle, path, lineno, f). length f)")
  fix needle path :: string and lineno f p buf rest assume "getline f = Some p" "(buf, rest) = p"
  then show "((needle, path, lineno + 1, rest), needle, path, lineno, f) \<in> measure (\<lambda>(needle, path, lineno, f). length f)"
    using line_split_shorter[of f] by (auto simp: getline_def split: if_splits)
qed simp

declare grep_loop.simps [simp del]

definition fauxgrep_file :: "string \<Rightarrow> string \<Rightarrow> string option \<Rightarrow> int \<times> (string \<times> nat \<times> string) list" where
  "fauxgrep_file needle path file = (case file of None \<Rightarrow> (-1, []) | Some f \<Rightarrow> (0, grep_loop needle path 1 f))"

text \<open>The worker of \<open>fauxgrep-mt.c\<close>: what it prints and the jobs it leaves. A file that cannot
  be opened ends the thread.\<close>

fun grep_worker :: "string \<Rightarrow> (string \<Rightarrow> string option) \<Rightarrow> string list \<Rightarrow> (string \<times> nat \<times> string) list \<times> string list" where
  "grep_worker needle files [] = ([], [])"
| "grep_worker needle files (path # jobs) =
     (case files path of None \<Rightarrow> ([], jobs)
      | Some f \<Rightarrow> apfst ((@) (grep_loop needle path 1 f)) (grep_worker needle files jobs))"

lemma strstr_found_iff: "strstr_found s needle \<longleftrightarrow> (\<exists>pre post. s = pre @ needle @ post)"
proof (induction s needle rule: strstr_found.induct)
  case (2 c s needle)
  show ?case
  proof
    assume "strstr_found (c # s) needle"
    then consider "take (length needle) (c # s) = needle" | "strstr_found s needle" by auto
    then show "\<exists>pre post. c # s = pre @ needle @ post"
    proof cases
      case 1
      then have "c # s = [] @ needle @ drop (length needle) (c # s)" by (metis append_Nil append_take_drop_id)
      then show ?thesis by blast
    next
      case 2
      then obtain pre post where "s = pre @ needle @ post" using "2.IH" by blast
      then have "c # s = (c # pre) @ needle @ post" by simp
      then show ?thesis by blast
    qed
  next
    assume "\<exists>pre post. c # s = pre @ needle @ post"
    then obtain pre post where p: "c # s = pre @ needle @ post" by blast
    show "strstr_found (c # s) needle"
    proof (cases pre)
      case Nil
      then have "take (length needle) (c # s) = needle" using p by simp
      then show ?thesis by simp
    next
      case (Cons d pre')
      then have "s = pre' @ needle @ post" using p by simp
      then show ?thesis using "2.IH" by auto
    qed
  qed
qed auto

lemma grep_loop_lines:
  "grep_loop needle path k f =
     map (\<lambda>(i, buf). (path, i, c_str buf))
       (filter (\<lambda>(i, buf). \<exists>pre post. c_str buf = pre @ needle @ post) (zip [k..<k + length (file_lines f)] (file_lines f)))"
proof (induction needle path k f rule: grep_loop.induct)
  case (1 needle path k f)
  show ?case
  proof (cases "getline f")
    case None
    then show ?thesis by (simp add: grep_loop.simps[of _ _ _ f] file_lines.simps[of f])
  next
    case (Some p)
    then obtain buf rest where g: "getline f = Some (buf, rest)" by (cases p) auto
    then have "[k..<k + length (file_lines f)] = k # [k + 1..<k + 1 + length (file_lines rest)]" "file_lines f = buf # file_lines rest"
      by (simp_all add: file_lines.simps[of f] upt_conv_Cons del: upt_Suc)
    then show ?thesis using 1[OF g refl] g by (simp add: grep_loop.simps[of _ _ _ f] strstr_found_iff)
  qed
qed

text \<open>The worker of the parallel search prints, for the jobs up to the first file it cannot
  open, exactly the lines that contain the needle with their path and number, in order; all jobs after that
  file are left undone.\<close>

theorem grep_worker_prints:
  "grep_worker needle files jobs =
     (concat (map (\<lambda>path. map (\<lambda>(i, buf). (path, i, c_str buf))
        (filter (\<lambda>(i, buf). \<exists>pre post. c_str buf = pre @ needle @ post)
           (zip [1..<1 + length (file_lines (the (files path)))] (file_lines (the (files path))))))
        (takeWhile (\<lambda>path. files path \<noteq> None) jobs)),
      drop 1 (dropWhile (\<lambda>path. files path \<noteq> None) jobs))"
  by (induction needle files jobs rule: grep_worker.induct) (auto simp: grep_loop_lines split: option.split)

subsection \<open>The bit histogram\<close>

text \<open>An \<open>int[8]\<close> is a list of words; the loops have the index \<open>i\<close> and the steps left.\<close>

fun update_loop :: "i32 list \<Rightarrow> byte \<Rightarrow> nat \<Rightarrow> nat \<Rightarrow> i32 list" where
  "update_loop histogram b i 0 = histogram"
| "update_loop histogram b i (Suc left) =
     update_loop (if b AND push_bit i 1 \<noteq> 0 then histogram[i := histogram ! i + 1] else histogram) b (i + 1) left"

definition update_histogram :: "i32 list \<Rightarrow> byte \<Rightarrow> i32 list" where
  "update_histogram histogram b = update_loop histogram b 0 8"

fun merge_loop :: "i32 list \<Rightarrow> i32 list \<Rightarrow> nat \<Rightarrow> nat \<Rightarrow> i32 list \<times> i32 list" where
  "merge_loop from_h to_h i 0 = (from_h, to_h)"
| "merge_loop from_h to_h i (Suc left) = merge_loop (from_h[i := 0]) (to_h[i := to_h ! i + from_h ! i]) (i + 1) left"

definition merge_histogram :: "i32 list \<Rightarrow> i32 list \<Rightarrow> i32 list \<times> i32 list" where
  "merge_histogram from_h to_h = merge_loop from_h to_h 0 8"

text \<open>The number of bits \<open>print_histogram\<close> reports; the rest of its output is made of it and of
  the array.\<close>

definition bits_seen :: "i32 list \<Rightarrow> int" where
  "bits_seen histogram = sum_list (map sint (take 8 histogram))"

text \<open>The loop of \<open>fhistogram\<close>: counter, local and global histogram, histograms printed.\<close>

fun fhistogram_loop :: "nat \<Rightarrow> i32 list \<Rightarrow> i32 list \<Rightarrow> i32 list list \<Rightarrow> byte list \<Rightarrow> i32 list \<times> i32 list list" where
  "fhistogram_loop i local_h global_h out [] =
     (let (local_h, global_h) = merge_histogram local_h global_h in (global_h, out @ [global_h]))"
| "fhistogram_loop i local_h global_h out (c # f) =
     (let i = i + 1; local_h = update_histogram local_h c
      in if i mod 100000 = 0
         then let (local_h, global_h) = merge_histogram local_h global_h
              in fhistogram_loop i local_h global_h (out @ [global_h]) f
         else fhistogram_loop i local_h global_h out f)"

definition fhistogram :: "byte list option \<Rightarrow> i32 list \<Rightarrow> int \<times> i32 list \<times> i32 list list" where
  "fhistogram file global_h =
     (case file of None \<Rightarrow> (-1, global_h, [])
      | Some f \<Rightarrow> (0, fhistogram_loop 0 (replicate 8 0) global_h [] f))"

text \<open>The threaded version: the local histograms a thread merges into the global one while it
  holds the mutex, in order. What \<open>merge_histogram\<close> does to the local one does not depend on
  the global one, for which the local one stands in here.\<close>

fun merges_loop :: "nat \<Rightarrow> i32 list \<Rightarrow> byte list \<Rightarrow> i32 list list" where
  "merges_loop i local_h [] = [local_h]"
| "merges_loop i local_h (c # f) =
     (let i = i + 1; local_h = update_histogram local_h c
      in if i mod 100000 = 0 then local_h # merges_loop i (fst (merge_histogram local_h local_h)) f
         else merges_loop i local_h f)"

definition fhistogram_mt :: "byte list option \<Rightarrow> i32 list list" where
  "fhistogram_mt file = (case file of None \<Rightarrow> [] | Some f \<Rightarrow> merges_loop 0 (replicate 8 0) f)"

text \<open>The critical section.\<close>

definition merge_section :: "i32 list \<Rightarrow> i32 list \<Rightarrow> i32 list" where
  "merge_section local_h global_h = snd (merge_histogram local_h global_h)"

lemma merge_loop_nth:
  "length (fst (merge_loop l g i k)) = length l \<and> length (snd (merge_loop l g i k)) = length g \<and>
   (\<forall>j < length l. fst (merge_loop l g i k) ! j = (if i \<le> j \<and> j < i + k then 0 else l ! j)) \<and>
   (\<forall>j < length g. snd (merge_loop l g i k) ! j = (if i \<le> j \<and> j < i + k then g ! j + l ! j else g ! j))"
proof (induction l g i k rule: merge_loop.induct)
  case (2 l g i k)
  then show ?case by (cases "i < length g"; cases "i < length l") (auto simp: nth_list_update)
qed auto

lemma merge_section_length: "length (merge_section l g) = length g"
  using merge_loop_nth[of l g 0 8] by (simp add: merge_section_def merge_histogram_def)

lemma merge_section_nth: "j < length g \<Longrightarrow> merge_section l g ! j = (if j < 8 then g ! j + l ! j else g ! j)"
  using merge_loop_nth[of l g 0 8] by (simp add: merge_section_def merge_histogram_def)

lemma merge_zero: "length l = 8 \<Longrightarrow> fst (merge_histogram l g) = replicate 8 0"
  using merge_loop_nth[of l g 0 8] by (auto intro!: nth_equalityI simp: merge_histogram_def)

lemma merge_section_commute: "merge_section a (merge_section b g) = merge_section b (merge_section a g)"
  by (rule nth_equalityI) (auto simp: merge_section_length merge_section_nth add.commute add.left_commute)

definition bit_count :: "nat \<Rightarrow> byte list \<Rightarrow> i32" where
  "bit_count j f = word_of_nat (length (filter (\<lambda>c. bit c j) f))"

lemma bit_count_simps [simp]: "bit_count j [] = 0" "bit_count j (c # f) = (if bit c j then 1 else 0) + bit_count j f"
  "bit_count j (f @ f') = bit_count j f + bit_count j f'"
  by (simp_all add: bit_count_def)

lemma bit_test: "(b :: byte) AND push_bit i 1 \<noteq> 0 \<longleftrightarrow> bit b i"
  by (metis and_exp_eq_0_iff_not_bit push_bit_of_1)

lemma update_loop_nth:
  "length (update_loop h b i k) = length h \<and>
   (\<forall>j < length h. update_loop h b i k ! j = h ! j + (if i \<le> j \<and> j < i + k \<and> bit b j then 1 else 0))"
proof (induction h b i k rule: update_loop.induct)
  case (2 h b i k)
  let ?h = "if bit b i then h[i := h ! i + 1] else h"
  have IH: "length (update_loop ?h b (i + 1) k) = length ?h \<and>
      (\<forall>j < length ?h. update_loop ?h b (i + 1) k ! j = ?h ! j + (if i + 1 \<le> j \<and> j < i + 1 + k \<and> bit b j then 1 else 0))"
    using 2 unfolding bit_test by simp
  have "?h ! j = h ! j + (if j = i \<and> bit b i then 1 else 0)" if "j < length h" for j
    using that by (simp add: nth_list_update)
  then have "update_loop ?h b (i + 1) k ! j = h ! j + (if i \<le> j \<and> j < i + Suc k \<and> bit b j then 1 else 0)"
    if "j < length h" for j
    using that IH by (cases "j = i"; cases "j < i") auto
  then show ?case using IH unfolding update_loop.simps bit_test by auto
qed simp

lemma update_histogram_nth: "length h = 8 \<Longrightarrow> length (update_histogram h b) = 8 \<and>
   (\<forall>j < 8. update_histogram h b ! j = h ! j + (if bit b j then 1 else 0))"
  using update_loop_nth[of h b 0 8] by (auto simp: update_histogram_def)

lemma fhistogram_loop_nth:
  "length l = 8 \<Longrightarrow> length g = 8 \<Longrightarrow> length (fst (fhistogram_loop i l g out f)) = 8 \<and>
   (\<forall>j < 8. fst (fhistogram_loop i l g out f) ! j = g ! j + l ! j + bit_count j f)"
proof (induction i l g out f rule: fhistogram_loop.induct)
  case (1 i l g out)
  then show ?case using merge_section_length[of l g] merge_section_nth[of _ g l]
    by (simp add: merge_section_def split_beta)
next
  case (2 i l g out c f)
  let ?l = "update_histogram l c"
  have l: "length ?l = 8" "\<And>j. j < 8 \<Longrightarrow> ?l ! j = l ! j + (if bit c j then 1 else 0)"
    using update_histogram_nth[OF 2(3)] by auto
  have m: "length (merge_section ?l g) = 8" "\<And>j. j < 8 \<Longrightarrow> merge_section ?l g ! j = g ! j + ?l ! j"
    using 2(4) by (simp_all add: merge_section_length merge_section_nth)
  show ?case
  proof (cases "(i + 1) mod 100000 = 0")
    case True
    have pair: "(replicate 8 0, merge_section ?l g) = merge_histogram ?l g"
      using merge_zero[OF l(1), of g] by (simp add: merge_section_def prod_eq_iff)
    show ?thesis using 2(1)[OF refl refl True refl pair _ m(1)] l m pair[symmetric] True by (simp add: Let_def add.assoc)
  next
    case False
    then show ?thesis using 2(2)[OF refl refl False l(1) 2(4)] l by (simp add: Let_def add.assoc)
  qed
qed

lemma merges_loop_nth:
  "length l = 8 \<Longrightarrow> length g = 8 \<Longrightarrow> length (fold merge_section (merges_loop i l f) g) = 8 \<and>
   (\<forall>j < 8. fold merge_section (merges_loop i l f) g ! j = g ! j + l ! j + bit_count j f)"
proof (induction i l f arbitrary: g rule: merges_loop.induct)
  case (1 i l)
  then show ?case by (simp add: merge_section_length merge_section_nth)
next
  case (2 i l c f)
  let ?l = "update_histogram l c"
  have l: "length ?l = 8" "\<And>j. j < 8 \<Longrightarrow> ?l ! j = l ! j + (if bit c j then 1 else 0)"
    using update_histogram_nth[OF 2(3)] by auto
  have m: "length (merge_section ?l g) = 8" "\<And>j. j < 8 \<Longrightarrow> merge_section ?l g ! j = g ! j + ?l ! j"
    using 2(4) by (simp_all add: merge_section_length merge_section_nth)
  show ?case
  proof (cases "(i + 1) mod 100000 = 0")
    case True
    then show ?thesis using 2(1)[OF refl refl True _ m(1)] merge_zero[OF l(1), of ?l] l m
      by (simp add: Let_def add.assoc)
  next
    case False
    then show ?thesis using 2(2)[OF refl refl False l(1) 2(4)] l by (simp add: Let_def add.assoc)
  qed
qed

definition files_bytes :: "byte list option list \<Rightarrow> byte list" where
  "files_bytes files = concat (map (\<lambda>f. case f of None \<Rightarrow> [] | Some b \<Rightarrow> b) files)"

lemma fhistogram_sections:
  assumes "length g = 8"
  shows "fold merge_section (fhistogram_mt f) g = fst (snd (fhistogram f g)) \<and> length (fst (snd (fhistogram f g))) = 8 \<and>
     (\<forall>j < 8. fst (snd (fhistogram f g)) ! j = g ! j + bit_count j (case f of None \<Rightarrow> [] | Some b \<Rightarrow> b))"
proof (cases f)
  case None
  then show ?thesis using assms by (simp add: fhistogram_def fhistogram_mt_def)
next
  case (Some b)
  have z: "length (replicate 8 (0 :: i32)) = 8" by simp
  note a = fhistogram_loop_nth[OF z assms, of 0 "[]" b] and m = merges_loop_nth[OF z assms, of 0 b]
  then have "fold merge_section (merges_loop 0 (replicate 8 0) b) g = fst (fhistogram_loop 0 (replicate 8 0) g [] b)"
    by (intro nth_equalityI) auto
  then show ?thesis using a Some by (simp add: fhistogram_def fhistogram_mt_def)
qed

lemma fold_files:
  "length g = 8 \<Longrightarrow> fold merge_section (concat (map fhistogram_mt files)) g = fold (\<lambda>f g. fst (snd (fhistogram f g))) files g \<and>
     length (fold (\<lambda>f g. fst (snd (fhistogram f g))) files g) = 8 \<and>
     (\<forall>j < 8. fold (\<lambda>f g. fst (snd (fhistogram f g))) files g ! j = g ! j + bit_count j (files_bytes files))"
proof (induction files arbitrary: g)
  case (Cons f files)
  note s = fhistogram_sections[OF Cons.prems, of f]
  show ?case using Cons.IH[of "fst (snd (fhistogram f g))"] s by (simp add: files_bytes_def add.assoc)
qed (simp add: files_bytes_def)

text \<open>The threads of the parallel program may merge their local histograms in any order: if
  every thread's critical sections are executed once, however they interleave, the global histogram is
  the one of the sequential program, and each of its counters is the number of bytes of all the
  files that have the bit, modulo 2^32.\<close>

theorem histogram_any_order:
  assumes "length g = 8" "mset sections = mset (concat (map fhistogram_mt files))"
  shows "fold merge_section sections g = fold (\<lambda>f g. fst (snd (fhistogram f g))) files g \<and>
    (\<forall>j < 8. fold merge_section sections g ! j = g ! j + bit_count j (files_bytes files))"
proof -
  have "fold merge_section sections = fold merge_section (concat (map fhistogram_mt files))"
    by (rule fold_multiset_equiv) (auto simp: merge_section_commute fun_eq_iff assms(2))
  then show ?thesis using fold_files[OF assms(1), of files] by simp
qed

lemma histogram_any_order_witness:
  "fold merge_section (rev (concat (map fhistogram_mt [Some [1, 255], None, Some [3]]))) (replicate 8 0) ! 1 = 2"
proof -
  have "bit_count 1 (files_bytes [Some [1, 255], None, Some [3]]) = 2" by code_simp
  moreover have "\<forall>j < 8. fold merge_section (rev (concat (map fhistogram_mt [Some [1, 255], None, Some [3]]))) (replicate 8 0) ! j =
      replicate 8 0 ! j + bit_count j (files_bytes [Some [1, 255], None, Some [3]])"
    by (rule conjunct2[OF histogram_any_order]) (simp_all only: length_replicate mset_rev)
  ultimately show ?thesis by (simp del: concat.simps list.map rev_concat)
qed

end
