(* ===== verification/RobustIO.thy ===== *)
theory RobustIO
  imports CPrelude
begin

text \<open>
  The robust input and output of A3 and A4, \<open>compsys_helpers.c\<close> (the two copies are identical).
  The operating system is the bytes that arrive, the bytes sent, and a list of what the next
  calls of \<open>read\<close> and \<open>write\<close> do: be interrupted, fail, or transfer some bytes, at least one and
  at most what is asked and there; when the list is used up they transfer all they can.
\<close>

datatype event = Interrupt | Failure | Transfer nat

record os =
  incoming :: "byte list"
  outgoing :: "byte list"
  events :: "event list"

datatype 'a result = Interrupted | Failed | Done 'a

definition next_event :: "nat \<Rightarrow> os \<Rightarrow> event \<times> os" where
  "next_event n s = (case events s of [] \<Rightarrow> (Transfer n, s) | e # es \<Rightarrow> (e, s\<lparr>events := es\<rparr>))"

text \<open>\<open>read\<close> and \<open>write\<close>; no bytes from \<open>read\<close> mean the end of the stream.\<close>

definition os_read :: "nat \<Rightarrow> os \<Rightarrow> byte list result \<times> os" where
  "os_read n s =
     (case next_event n s of
        (Interrupt, s) \<Rightarrow> (Interrupted, s)
      | (Failure, s) \<Rightarrow> (Failed, s)
      | (Transfer k, s) \<Rightarrow>
          let bytes = take (min n (max 1 k)) (incoming s)
          in (Done bytes, s\<lparr>incoming := drop (min n (max 1 k)) (incoming s)\<rparr>))"

definition os_write :: "byte list \<Rightarrow> os \<Rightarrow> nat result \<times> os" where
  "os_write bytes s =
     (case next_event (length bytes) s of
        (Interrupt, s) \<Rightarrow> (Interrupted, s)
      | (Failure, s) \<Rightarrow> (Failed, s)
      | (Transfer k, s) \<Rightarrow>
          let n = min (length bytes) (max 1 k)
          in (Done n, s\<lparr>outgoing := outgoing s @ take n bytes\<rparr>))"

lemma os_read_cases:
  "os_read n s = (Interrupted, s') \<Longrightarrow> incoming s' = incoming s \<and> outgoing s' = outgoing s \<and> length (events s') < length (events s)"
  "os_read n s = (Done bytes, s') \<Longrightarrow> incoming s = bytes @ incoming s' \<and> length bytes \<le> n \<and> (bytes = [] \<longrightarrow> n = 0 \<or> incoming s = []) \<and>
     outgoing s' = outgoing s \<and> length (events s') \<le> length (events s)"
  by (auto simp: os_read_def next_event_def Let_def split: list.splits event.splits)

lemma os_write_cases:
  "os_write bytes s = (Interrupted, s') \<Longrightarrow> outgoing s' = outgoing s \<and> incoming s' = incoming s \<and> length (events s') < length (events s)"
  "os_write bytes s = (Done n, s') \<Longrightarrow> outgoing s' = outgoing s @ take n bytes \<and> n \<le> length bytes \<and> (bytes \<noteq> [] \<longrightarrow> 0 < n) \<and>
     incoming s' = incoming s \<and> length (events s') \<le> length (events s)"
  by (auto simp: os_write_def next_event_def Let_def split: list.splits event.splits)

subsection \<open>Unbuffered\<close>

text \<open>The loop of \<open>compsys_helper_readn\<close>, with whether it succeeds and what it has put
  into the buffer.\<close>

function readn_loop :: "nat \<Rightarrow> byte list \<Rightarrow> os \<Rightarrow> (bool \<times> byte list) \<times> os" where
  "readn_loop nleft buf s =
     (if nleft > 0 then
        (case os_read nleft s of
           (Interrupted, s') \<Rightarrow> readn_loop nleft buf s'
         | (Failed, s') \<Rightarrow> ((False, buf), s')
         | (Done bytes, s') \<Rightarrow>
             if bytes = [] then ((True, buf), s') else readn_loop (nleft - length bytes) (buf @ bytes) s')
      else ((True, buf), s))"
  by pat_completeness auto
termination
proof (relation "(\<lambda>(nleft, buf, s). nleft + length (events s)) <*mlex*> {}", goal_cases)
  case 1
  then show ?case by (simp add: wf_mlex)
next
  case (2 nleft buf s x s')
  then show ?case using os_read_cases(1)[of nleft s s'] by (auto intro: mlex_less)
next
  case (3 nleft buf s x s' bytes)
  then have "length bytes \<le> nleft" "length (events s') \<le> length (events s)" "nleft - length bytes < nleft"
    using os_read_cases(2)[of nleft s bytes s'] by auto
  then have "nleft - length bytes + length (events s') < nleft + length (events s)" by linarith
  then show ?case by (intro mlex_less) simp
qed

declare readn_loop.simps [simp del]

definition compsys_helper_readn :: "nat \<Rightarrow> os \<Rightarrow> (bool \<times> byte list) \<times> os" where
  "compsys_helper_readn n s = readn_loop n [] s"

function writen_loop :: "byte list \<Rightarrow> os \<Rightarrow> bool \<times> os" where
  "writen_loop left s =
     (if left \<noteq> [] then
        (case os_write left s of
           (Interrupted, s') \<Rightarrow> writen_loop left s'
         | (Failed, s') \<Rightarrow> (False, s')
         | (Done n, s') \<Rightarrow> writen_loop (drop n left) s')
      else (True, s))"
  by pat_completeness auto
termination
proof (relation "(\<lambda>(left, s). length left + length (events s)) <*mlex*> {}", goal_cases)
  case 1
  then show ?case by (simp add: wf_mlex)
next
  case (2 left s x s')
  then show ?case using os_write_cases(1)[of left s s'] by (auto intro: mlex_less)
next
  case (3 left s x s' n)
  then have "0 < n" "n \<le> length left" "length (events s') \<le> length (events s)"
    using os_write_cases(2)[of left s n s'] by auto
  then show ?case by (intro mlex_less) simp
qed

declare writen_loop.simps [simp del]

text \<open>\<open>compsys_helper_writen\<close>: the number of bytes asked, or -1.\<close>

definition compsys_helper_writen :: "byte list \<Rightarrow> os \<Rightarrow> int \<times> os" where
  "compsys_helper_writen bytes s = (case writen_loop bytes s of (ok, s') \<Rightarrow> (if ok then int (length bytes) else -1, s'))"

subsection \<open>Buffered\<close>

text \<open>The descriptor of a buffer is the one connection of the model.\<close>

definition COMPSYS_BUFSIZE :: nat where "COMPSYS_BUFSIZE = 8192"

record compsys_helper_state =
  cnt :: int
  bufptr :: nat
  buf :: "byte list"

definition compsys_helper_readinitb :: "compsys_helper_state \<Rightarrow> compsys_helper_state" where
  "compsys_helper_readinitb rp = rp\<lparr>cnt := 0, bufptr := 0\<rparr>"

text \<open>The loop of \<open>compsys_helper_read\<close> that fills an empty buffer: \<open>Done True\<close> when there are
  bytes in it, \<open>Done False\<close> at the end of the stream.\<close>

function refill_loop :: "compsys_helper_state \<Rightarrow> os \<Rightarrow> bool result \<times> compsys_helper_state \<times> os" where
  "refill_loop rp s =
     (if cnt rp \<le> 0 then
        (case os_read COMPSYS_BUFSIZE s of
           (Interrupted, s') \<Rightarrow> refill_loop (rp\<lparr>cnt := -1\<rparr>) s'
         | (Failed, s') \<Rightarrow> (Failed, rp\<lparr>cnt := -1\<rparr>, s')
         | (Done bytes, s') \<Rightarrow>
             let rp = rp\<lparr>cnt := int (length bytes), buf := bytes @ drop (length bytes) (buf rp)\<rparr>
             in if bytes = [] then (Done False, rp, s') else refill_loop (rp\<lparr>bufptr := 0\<rparr>) s')
      else (Done True, rp, s))"
  by pat_completeness auto
termination
proof (relation "(\<lambda>(rp, s). (if cnt rp \<le> 0 then 1 else 0) + length (events s)) <*mlex*> {}", goal_cases)
  case 1
  then show ?case by (simp add: wf_mlex)
next
  case (2 rp s x s')
  then show ?case using os_read_cases(1)[of COMPSYS_BUFSIZE s s'] by (auto intro!: mlex_less)
next
  case (3 rp s x s' bytes rp')
  then show ?case using os_read_cases(2)[of COMPSYS_BUFSIZE s bytes s'] by (auto intro!: mlex_less)
qed

declare refill_loop.simps [simp del]

text \<open>The number asked for is a \<open>size_t\<close> and is stored and compared as an \<open>int\<close>, which keeps its lowest 32 bits; \<open>None\<close> is the
  \<open>memcpy\<close> of a negative number of bytes.\<close>

definition size_as_int :: "nat \<Rightarrow> int" where
  "size_as_int n = sint (word_of_nat n :: i32)"

definition compsys_helper_read :: "nat \<Rightarrow> compsys_helper_state \<Rightarrow> os \<Rightarrow> (byte list result \<times> compsys_helper_state \<times> os) option" where
  "compsys_helper_read n rp s =
     (case refill_loop rp s of
        (Done True, rp, s) \<Rightarrow>
          let c = (if cnt rp < size_as_int n then cnt rp else size_as_int n)
          in if c < 0 then None
             else Some (Done (take (nat c) (drop (bufptr rp) (buf rp))), rp\<lparr>bufptr := bufptr rp + nat c, cnt := cnt rp - c\<rparr>, s)
      | (Done False, rp, s) \<Rightarrow> Some (Done [], rp, s)
      | (Interrupted, rp, s) \<Rightarrow> Some (Interrupted, rp, s)
      | (Failed, rp, s) \<Rightarrow> Some (Failed, rp, s))"

lemma size_as_int_small: "n < 2147483648 \<Longrightarrow> size_as_int n = int n"
  by (simp add: size_as_int_def signed_of_nat) (simp add: signed_take_bit_int_eq_self)

text \<open>The abstraction of a buffer and a connection: the bytes in the buffer that were not yet read,
  then the bytes that arrive.\<close>

definition unread :: "compsys_helper_state \<times> os \<Rightarrow> byte list" where
  "unread = (\<lambda>(rp, s). take (nat (cnt rp)) (drop (bufptr rp) (buf rp)) @ incoming s)"

definition buffer_ok :: "compsys_helper_state \<times> os \<Rightarrow> bool" where
  "buffer_ok = (\<lambda>(rp, s). length (buf rp) = COMPSYS_BUFSIZE \<and> bufptr rp + nat (cnt rp) \<le> COMPSYS_BUFSIZE)"

lemma refill_loop_stream:
  "refill_loop rp s = (res, rp', s') \<Longrightarrow> buffer_ok (rp, s) \<Longrightarrow> res \<noteq> Interrupted \<and>
     (res \<noteq> Failed \<longrightarrow> buffer_ok (rp', s') \<and> unread (rp', s') = unread (rp, s) \<and>
        (res = Done True \<longrightarrow> 0 < cnt rp') \<and> (res = Done False \<longrightarrow> unread (rp, s) = []) \<and> outgoing s' = outgoing s)"
proof (induction rp s rule: refill_loop.induct)
  case (1 rp s)
  show ?case
  proof (cases "cnt rp \<le> 0")
    case False
    then have "res = Done True \<and> rp' = rp \<and> s' = s" using 1(3) by (simp add: refill_loop.simps[of rp s])
    then show ?thesis using False 1(4) by simp
  next
    case True
    obtain r s1 where r: "os_read COMPSYS_BUFSIZE s = (r, s1)" by fastforce
    show ?thesis
    proof (cases r)
      case Interrupted
      have "unread (rp\<lparr>cnt := -1\<rparr>, s1) = unread (rp, s)" "buffer_ok (rp\<lparr>cnt := -1\<rparr>, s1)" "outgoing s1 = outgoing s"
        using True 1(4) os_read_cases(1)[of COMPSYS_BUFSIZE s s1] r Interrupted by (simp_all add: unread_def buffer_ok_def)
      then show ?thesis using 1(1)[OF True r[symmetric] Interrupted] 1(3) r Interrupted True
        by (simp add: refill_loop.simps[of rp s])
    next
      case Failed
      then show ?thesis using 1(3) r True by (auto simp: refill_loop.simps[of rp s])
    next
      case (Done bytes)
      note b = os_read_cases(2)[OF r[unfolded Done]]
      let ?rp = "rp\<lparr>cnt := int (length bytes), buf := bytes @ drop (length bytes) (buf rp)\<rparr>"
      show ?thesis
      proof (cases "bytes = []")
        case True
        then show ?thesis using 1(3,4) r Done b \<open>cnt rp \<le> 0\<close>
          by (auto simp: refill_loop.simps[of rp s] Let_def unread_def buffer_ok_def COMPSYS_BUFSIZE_def)
      next
        case False
        then have "buffer_ok (?rp\<lparr>bufptr := 0\<rparr>, s1)" "unread (?rp\<lparr>bufptr := 0\<rparr>, s1) = unread (rp, s)"
          using 1(4) b \<open>cnt rp \<le> 0\<close> by (auto simp: buffer_ok_def unread_def)
        then show ?thesis using 1(2)[OF \<open>cnt rp \<le> 0\<close> r[symmetric] Done refl False] 1(3) r Done b \<open>cnt rp \<le> 0\<close> False
          by (simp add: refill_loop.simps[of rp s] Let_def)
      qed
    qed
  qed
qed

text \<open>What a reader of a byte stream promises for the numbers of bytes it can handle: it never skips or repeats a byte, and
  gives none only when none is asked for or none is left.\<close>

locale stream_reader =
  fixes good :: "'s \<Rightarrow> bool" and stream :: "'s \<Rightarrow> byte list" and handled :: "nat \<Rightarrow> bool"
    and recv :: "nat \<Rightarrow> 's \<Rightarrow> (byte list result \<times> 's) option"
  assumes recv_defined: "good s \<Longrightarrow> handled n \<Longrightarrow> recv n s \<noteq> None"
    and recv_law: "good s \<Longrightarrow> handled n \<Longrightarrow> recv n s = Some (Done bytes, s') \<Longrightarrow>
    good s' \<and> stream s = bytes @ stream s' \<and> length bytes \<le> n \<and> (bytes = [] \<longrightarrow> n = 0 \<or> stream s = [])"
begin

lemma recv_prefix: "good s \<Longrightarrow> handled n \<Longrightarrow> recv n s = Some (Done bytes, s') \<Longrightarrow>
   bytes = take (length bytes) (stream s) \<and> stream s' = drop (length bytes) (stream s)"
  using recv_law by fastforce

lemma recv_end: "good s \<Longrightarrow> handled n \<Longrightarrow> recv n s = Some (Done [], s') \<Longrightarrow> 0 < n \<Longrightarrow> stream s = []"
  using recv_law by fastforce

lemma recv_one: "good s \<Longrightarrow> handled 1 \<Longrightarrow> recv 1 s = Some (Done bytes, s') \<Longrightarrow> bytes \<noteq> [] \<Longrightarrow>
   good s' \<and> bytes = [hd (stream s)] \<and> stream s \<noteq> [] \<and> stream s' = tl (stream s)"
  using recv_law[of s 1 bytes s'] by (cases bytes) auto

end

lemma compsys_helper_read_law:
  assumes "buffer_ok (rp, s)" and small: "n < 2147483648" and "compsys_helper_read n rp s = Some (Done bytes, rp', s')"
  shows "buffer_ok (rp', s') \<and> unread (rp, s) = bytes @ unread (rp', s') \<and> length bytes \<le> n \<and>
    (bytes = [] \<longrightarrow> n = 0 \<or> unread (rp, s) = [])"
proof -
  obtain res rp1 s1 where r: "refill_loop rp s = (res, rp1, s1)" by (metis prod_cases3)
  note l = refill_loop_stream[OF r assms(1)]
  show ?thesis
  proof (cases res)
    case (Done b)
    show ?thesis
    proof (cases b)
      case True
      let ?c = "if cnt rp1 < int n then cnt rp1 else int n"
      have c: "0 < cnt rp1" "nat ?c \<le> nat (cnt rp1)" "nat ?c \<le> n" using l Done True by auto
      have e: "bytes = take (nat ?c) (drop (bufptr rp1) (buf rp1))" "s' = s1"
         "rp' = rp1\<lparr>bufptr := bufptr rp1 + nat ?c, cnt := cnt rp1 - ?c\<rparr>"
        using assms(3) r Done True by (auto simp: compsys_helper_read_def Let_def size_as_int_small[OF small] split: if_splits)
      have ok: "length (buf rp1) = COMPSYS_BUFSIZE" "bufptr rp1 + nat (cnt rp1) \<le> COMPSYS_BUFSIZE"
        using l Done by (auto simp: buffer_ok_def)
      have split: "take (nat (cnt rp1)) xs = take (nat ?c) xs @ take (nat (cnt rp1 - ?c)) (drop (nat ?c) xs)" for xs :: "byte list"
      proof -
        have "nat (cnt rp1) = nat ?c + nat (cnt rp1 - ?c)" using c by (simp add: nat_add_distrib[symmetric])
        then show ?thesis by (metis take_add)
      qed
      have u: "unread (rp1, s1) = bytes @ unread (rp', s')"
        using split[of "drop (bufptr rp1) (buf rp1)"] e by (simp add: unread_def add.commute)
      have "length bytes = nat ?c" using e(1) ok c by auto
      moreover have "nat (cnt rp1 - ?c) = nat (cnt rp1) - nat ?c" using c by (intro nat_diff_distrib) auto
      then have "buffer_ok (rp', s')" using ok c(2) e(3) by (simp add: buffer_ok_def del: nat_minus_as_int)
      moreover have "unread (rp, s) = bytes @ unread (rp', s')" using u l Done by simp
      moreover have "n = 0" if "bytes = []" using that \<open>length bytes = nat ?c\<close> c(1) by (auto split: if_splits)
      moreover have "length bytes \<le> n" using \<open>length bytes = nat ?c\<close> c(3) by simp
      ultimately show ?thesis by blast
    next
      case False
      then show ?thesis using assms r Done l by (auto simp: compsys_helper_read_def)
    qed
  qed (use assms r in \<open>auto simp: compsys_helper_read_def\<close>)
qed

definition reader :: "nat \<Rightarrow> compsys_helper_state \<times> os \<Rightarrow> (byte list result \<times> (compsys_helper_state \<times> os)) option" where
  "reader n = (\<lambda>(rp, s). compsys_helper_read n rp s)"

lemma refill_counts: "refill_loop rp s = (Done True, rp', s') \<Longrightarrow> 0 < cnt rp'"
proof (induction rp s rule: refill_loop.induct)
  case (1 rp s)
  obtain r1 s1 where r1: "os_read COMPSYS_BUFSIZE s = (r1, s1)" by fastforce
  show ?case
  proof (cases "cnt rp \<le> 0")
    case True
    then show ?thesis using 1(1)[OF True r1[symmetric]] 1(2)[OF True r1[symmetric] _ refl] 1(3) r1
      by (cases r1) (auto simp: refill_loop.simps[of rp s] Let_def split: if_splits)
  qed (use 1(3) in \<open>simp add: refill_loop.simps[of rp s]\<close>)
qed

lemma reader_defined: "n < 2147483648 \<Longrightarrow> reader n st \<noteq> None"
  using refill_counts[of "fst st" "snd st"]
  by (cases st) (auto simp: reader_def compsys_helper_read_def Let_def size_as_int_small split: prod.splits result.splits bool.splits)

interpretation buffered: stream_reader buffer_ok unread "\<lambda>n. n < 2147483648" reader
  by unfold_locales (auto simp: reader_defined, auto simp: reader_def dest: compsys_helper_read_law)

interpretation raw: stream_reader "\<lambda>_. True" incoming "\<lambda>_. True" "\<lambda>n s. Some (os_read n s)"
  by unfold_locales (auto dest: os_read_cases)

text \<open>The loop of \<open>compsys_helper_readnb\<close>. The inner read is never interrupted:
  it goes on by itself.\<close>

function readnb_loop :: "nat \<Rightarrow> byte list \<Rightarrow> compsys_helper_state \<times> os \<Rightarrow> ((bool \<times> byte list) \<times> (compsys_helper_state \<times> os)) option" where
  "readnb_loop nleft usrbuf st =
     (if nleft > 0 then
        (case reader nleft st of
           None \<Rightarrow> None
         | Some (Done bytes, st') \<Rightarrow>
             if bytes = [] then Some ((True, usrbuf), st')
             else readnb_loop (nleft - length bytes) (usrbuf @ bytes) st'
         | Some (_, st') \<Rightarrow> Some ((False, usrbuf), st'))
      else Some ((True, usrbuf), st))"
  by pat_completeness auto
termination
  by (relation "measure (\<lambda>(nleft, usrbuf, st). nleft)") auto

declare readnb_loop.simps [simp del]

definition compsys_helper_readnb :: "nat \<Rightarrow> compsys_helper_state \<times> os \<Rightarrow> ((bool \<times> byte list) \<times> (compsys_helper_state \<times> os)) option" where
  "compsys_helper_readnb n st = readnb_loop n [] st"

text \<open>The loop of \<open>compsys_helper_readlineb\<close>, \<open>left\<close> characters before the buffer is full; the
  terminating zero is not modelled.\<close>

fun readlineb_loop :: "nat \<Rightarrow> byte list \<Rightarrow> compsys_helper_state \<times> os \<Rightarrow> ((bool \<times> byte list) \<times> (compsys_helper_state \<times> os)) option" where
  "readlineb_loop 0 usrbuf st = Some ((True, usrbuf), st)"
| "readlineb_loop (Suc left) usrbuf st =
     (case reader 1 st of
        None \<Rightarrow> None
      | Some (Done (c # _), st') \<Rightarrow> if c = 0x0A then Some ((True, usrbuf @ [c]), st') else readlineb_loop left (usrbuf @ [c]) st'
      | Some (Done [], st') \<Rightarrow> Some ((True, usrbuf), st')
      | Some (_, st') \<Rightarrow> Some ((False, usrbuf), st'))"

definition compsys_helper_readlineb :: "nat \<Rightarrow> compsys_helper_state \<times> os \<Rightarrow> ((bool \<times> byte list) \<times> (compsys_helper_state \<times> os)) option" where
  "compsys_helper_readlineb maxlen st = readlineb_loop (maxlen - 1) [] st"

subsection \<open>What arrives\<close>

lemma readn_loop_stream:
  "readn_loop nleft b s = ((True, bytes), s') \<Longrightarrow>
     \<exists>new. bytes = b @ new \<and> incoming s = new @ incoming s' \<and> length new = min nleft (length (incoming s))"
proof (induction nleft b s rule: readn_loop.induct)
  case (1 nleft b s)
  show ?case
  proof (cases "nleft > 0")
    case False
    then show ?thesis using 1(3) by (simp add: readn_loop.simps[of 0 b s])
  next
    case True
    obtain r s1 where r: "os_read nleft s = (r, s1)" by fastforce
    show ?thesis
    proof (cases r)
      case Interrupted
      then show ?thesis using 1(1)[OF True r[symmetric] Interrupted] 1(3) r True os_read_cases(1)[of nleft s s1]
        by (simp add: readn_loop.simps[of nleft b s])
    next
      case Failed
      then show ?thesis using 1(3) r True by (simp add: readn_loop.simps[of nleft b s])
    next
      case (Done new)
      note d = os_read_cases(2)[OF r[unfolded Done]]
      show ?thesis
      proof (cases "new = []")
        case True
        then have "incoming s = []" "incoming s1 = []" using d \<open>nleft > 0\<close> by auto
        then show ?thesis using True 1(3) r Done \<open>nleft > 0\<close> by (simp add: readn_loop.simps[of nleft b s])
      next
        case False
        have "readn_loop (nleft - length new) (b @ new) s1 = ((True, bytes), s')"
          using 1(3) r Done False True by (simp add: readn_loop.simps[of nleft b s])
        from 1(2)[OF True r[symmetric] Done False this] obtain new' where
          n: "bytes = (b @ new) @ new'" "incoming s1 = new' @ incoming s'" "length new' = min (nleft - length new) (length (incoming s1))"
          by blast
        then show ?thesis using d by (intro exI[of _ "new @ new'"]) auto
      qed
    qed
  qed
qed

lemma writen_loop_stream: "writen_loop left s = (True, s') \<Longrightarrow> outgoing s' = outgoing s @ left \<and> incoming s' = incoming s"
proof (induction left s rule: writen_loop.induct)
  case (1 left s)
  show ?case
  proof (cases "left = []")
    case True
    then show ?thesis using 1(3) by (simp add: writen_loop.simps[of "[]" s])
  next
    case False
    obtain r s1 where r: "os_write left s = (r, s1)" by fastforce
    show ?thesis
    proof (cases r)
      case Interrupted
      then show ?thesis using 1(1)[OF False r[symmetric] Interrupted] 1(3) r False os_write_cases(1)[of left s s1]
        by (simp add: writen_loop.simps[of left s])
    next
      case Failed
      then show ?thesis using 1(3) r False by (simp add: writen_loop.simps[of left s])
    next
      case (Done n)
      then show ?thesis using 1(2)[OF False r[symmetric] Done] 1(3) r False os_write_cases(2)[of left s n s1]
        by (simp add: writen_loop.simps[of left s])
    qed
  qed
qed

lemma readnb_loop_stream:
  "buffer_ok st \<Longrightarrow> nleft < 2147483648 \<Longrightarrow> readnb_loop nleft b st = Some ((True, bytes), st') \<Longrightarrow>
     buffer_ok st' \<and> (\<exists>new. bytes = b @ new \<and> unread st = new @ unread st' \<and> length new = min nleft (length (unread st)))"
proof (induction nleft b st rule: readnb_loop.induct)
  case (1 nleft b st)
  show ?case
  proof (cases "nleft > 0")
    case False
    then show ?thesis using 1(2,4) by (simp add: readnb_loop.simps[of 0 b st])
  next
    case True
    obtain r st1 where r: "reader nleft st = Some (r, st1)" using reader_defined[OF 1(3), of st] by auto
    show ?thesis
    proof (cases r)
      case (Done new)
      note d = buffered.recv_law[OF 1(2,3) r[unfolded Done]]
      show ?thesis
      proof (cases "new = []")
        case True
        then have "unread st = []" "unread st1 = []" "buffer_ok st1" using d \<open>nleft > 0\<close> by auto
        then show ?thesis using True 1(4) r Done \<open>nleft > 0\<close> by (simp add: readnb_loop.simps[of nleft b st])
      next
        case False
        have "readnb_loop (nleft - length new) (b @ new) st1 = Some ((True, bytes), st')"
          using 1(4) r Done False True by (simp add: readnb_loop.simps[of nleft b st])
        moreover have "buffer_ok st1" "nleft - length new < 2147483648" using d 1(3) by auto
        ultimately obtain new' where
          "buffer_ok st'" "bytes = (b @ new) @ new'" "unread st1 = new' @ unread st'" "length new' = min (nleft - length new) (length (unread st1))"
          using 1(1)[OF True r refl Done False] by blast
        then show ?thesis using d by (intro conjI exI[of _ "new @ new'"]) auto
      qed
    qed (use 1(4) r True in \<open>simp_all add: readnb_loop.simps[of nleft b st]\<close>)
  qed
qed

lemma readlineb_loop_stream:
  "buffer_ok st \<Longrightarrow> readlineb_loop left b st = Some ((True, bytes), st') \<Longrightarrow>
     buffer_ok st' \<and> (\<exists>new. bytes = b @ new \<and> unread st = new @ unread st' \<and> length new \<le> left \<and> 0x0A \<notin> set (butlast new) \<and>
       (length new = left \<or> unread st' = [] \<or> (new \<noteq> [] \<and> last new = 0x0A)))"
proof (induction left b st rule: readlineb_loop.induct)
  case (2 left b st)
  obtain r st1 where r: "reader 1 st = Some (r, st1)" using reader_defined[of 1 st] by auto
  show ?case
  proof (cases r)
    case (Done new)
    show ?thesis
    proof (cases new)
      case Nil
      then show ?thesis using 2(3) r Done buffered.recv_law[OF 2(2) _ r[unfolded Done]] by auto
    next
      case (Cons c cs)
      note d = buffered.recv_one[OF 2(2) _ r[unfolded Done]]
      then have c: "cs = []" "unread st = c # unread st1" "buffer_ok st1" using Cons by auto
      show ?thesis
      proof (cases "c = 0x0A")
        case True
        then show ?thesis using 2(3) r Done Cons c by auto
      next
        case False
        have "readlineb_loop left (b @ [c]) st1 = Some ((True, bytes), st')" using 2(3) r Done Cons False by simp
        from 2(1)[OF r refl Done Cons False c(3) this] obtain new' where n: "buffer_ok st'"
          "bytes = (b @ [c]) @ new'" "unread st1 = new' @ unread st'" "length new' \<le> left" "0x0A \<notin> set (butlast new')"
          "length new' = left \<or> unread st' = [] \<or> (new' \<noteq> [] \<and> last new' = 0x0A)" by blast
        have "0x0A \<notin> set (butlast (c # new'))" using n(5) False by (cases "new' = []") auto
        moreover have "length (c # new') = Suc left \<or> unread st' = [] \<or> (c # new' \<noteq> [] \<and> last (c # new') = 0x0A)" using n(6) by auto
        ultimately show ?thesis using n(1-4) c(2) by (intro conjI exI[of _ "c # new'"]) auto
      qed
    qed
  qed (use 2(3) r in simp_all)
qed simp

text \<open>The length of the buffer never changes, errors or not.\<close>

lemma refill_loop_length: "refill_loop rp s = (r, rp', s') \<Longrightarrow> length (buf rp) = COMPSYS_BUFSIZE \<Longrightarrow> length (buf rp') = COMPSYS_BUFSIZE"
proof (induction rp s rule: refill_loop.induct)
  case (1 rp s)
  obtain r1 s1 where r1: "os_read COMPSYS_BUFSIZE s = (r1, s1)" by fastforce
  show ?case
  proof (cases "cnt rp \<le> 0")
    case True
    show ?thesis
    proof (cases r1)
      case Interrupted
      then show ?thesis using 1(1)[OF True r1[symmetric] Interrupted] 1(3,4) True r1 by (simp add: refill_loop.simps[of rp s])
    next
      case (Done bytes)
      then have "length bytes \<le> COMPSYS_BUFSIZE" using os_read_cases(2)[of COMPSYS_BUFSIZE s bytes s1] r1 by simp
      then show ?thesis using 1(2)[OF True r1[symmetric] Done refl] 1(3,4) True r1 Done
        by (auto simp: refill_loop.simps[of rp s] Let_def split: if_splits)
    qed (use 1(3,4) True r1 in \<open>auto simp: refill_loop.simps[of rp s]\<close>)
  qed (use 1(3,4) in \<open>simp add: refill_loop.simps[of rp s]\<close>)
qed

lemma reader_length: "reader n st = Some (r, st') \<Longrightarrow> length (buf (fst st)) = COMPSYS_BUFSIZE \<Longrightarrow> length (buf (fst st')) = COMPSYS_BUFSIZE"
  using refill_loop_length[of "fst st" "snd st"]
  by (auto simp: reader_def compsys_helper_read_def Let_def split: prod.splits result.splits bool.splits if_splits)

lemma readnb_length: "readnb_loop n b st = Some (got, st') \<Longrightarrow> length (buf (fst st)) = COMPSYS_BUFSIZE \<Longrightarrow> length (buf (fst st')) = COMPSYS_BUFSIZE"
proof (induction n b st rule: readnb_loop.induct)
  case (1 n b st)
  show ?case
  proof (cases "n > 0")
    case True
    then obtain r st1 where r: "reader n st = Some (r, st1)" using 1(2) by (cases "reader n st") (auto simp: readnb_loop.simps[of n b st])
    have l: "length (buf (fst st1)) = COMPSYS_BUFSIZE" using reader_length[OF r 1(3)] .
    show ?thesis
    proof (cases r)
      case (Done bytes)
      then show ?thesis using 1(1)[OF True r refl Done _ _ l] 1(2) r True l
        by (auto simp: readnb_loop.simps[of n b st] split: if_splits)
    qed (use 1(2) r True l in \<open>auto simp: readnb_loop.simps[of n b st]\<close>)
  qed (use 1(2,3) in \<open>simp add: readnb_loop.simps[of 0 b st]\<close>)
qed

lemma readnb_loop_defined: "n < 2147483648 \<Longrightarrow> readnb_loop n b st \<noteq> None"
proof (induction n b st rule: readnb_loop.induct)
  case (1 n b st)
  obtain r st1 where r: "reader n st = Some (r, st1)" using reader_defined[OF 1(2), of st] by auto
  show ?case
  proof (cases "n > 0")
    case True
    show ?thesis
    proof (cases r)
      case (Done bytes)
      have "n - length bytes < 2147483648" using 1(2) by simp
      then show ?thesis using 1(1)[OF True r refl Done] r True Done by (auto simp: readnb_loop.simps[of n b st])
    qed (use r True in \<open>auto simp: readnb_loop.simps[of n b st]\<close>)
  qed (simp add: readnb_loop.simps[of 0 b st])
qed

lemma readnb_defined: "n < 2147483648 \<Longrightarrow> compsys_helper_readnb n st \<noteq> None"
  by (simp add: compsys_helper_readnb_def readnb_loop_defined)

lemma readlineb_defined: "readlineb_loop left b st \<noteq> None"
proof (induction left b st rule: readlineb_loop.induct)
  case (2 left b st)
  obtain r st1 where r: "reader 1 st = Some (r, st1)" using reader_defined[of 1 st] by auto
  show ?case
  proof (cases r)
    case (Done bytes)
    then show ?thesis using 2[OF r refl Done] r by (cases bytes) auto
  qed (use r in simp_all)
qed simp

text \<open>With bytes in the buffer, a number from \<open>2 ^ 31\<close> on is a negative \<open>int\<close>.\<close>

lemma readnb_too_large:
  assumes "2147483648 \<le> n" "n < 4294967296" "0 < cnt rp"
  shows "compsys_helper_readnb n (rp, s) = None"
proof -
  have "int n div 2147483648 = 1" "take_bit 32 (int n) = int n" using assms(1,2) by (auto simp: take_bit_int_eq_self intro: int_div_pos_eq[of _ _ _ "int n - 2147483648"])
  then have "size_as_int n = int n - 4294967296"
    by (simp add: size_as_int_def signed_of_nat) (simp add: signed_take_bit_eq_take_bit_minus bit_iff_odd)
  then have "size_as_int n < 0" using assms(2) by simp
  then show ?thesis using assms
    by (simp add: compsys_helper_readnb_def readnb_loop.simps[of n] reader_def compsys_helper_read_def refill_loop.simps[of rp s] Let_def)
qed

subsection \<open>A connection without failures\<close>

definition clean :: "os \<Rightarrow> bool" where
  "clean s \<longleftrightarrow> Failure \<notin> set (events s)"

lemma os_read_clean: "clean s \<Longrightarrow> os_read n s = (r, s') \<Longrightarrow> r \<noteq> Failed \<and> clean s'"
  by (auto simp: os_read_def next_event_def clean_def Let_def split: list.splits event.splits)

lemma os_write_clean: "clean s \<Longrightarrow> os_write bytes s = (r, s') \<Longrightarrow> r \<noteq> Failed \<and> clean s'"
  by (auto simp: os_write_def next_event_def clean_def Let_def split: list.splits event.splits)

lemma refill_clean: "refill_loop rp s = (r, rp', s') \<Longrightarrow> clean s \<Longrightarrow> r \<noteq> Failed \<and> clean s'"
proof (induction rp s rule: refill_loop.induct)
  case (1 rp s)
  obtain r1 s1 where r1: "os_read COMPSYS_BUFSIZE s = (r1, s1)" by fastforce
  note c = os_read_clean[OF 1(4) r1]
  show ?case
  proof (cases "cnt rp \<le> 0")
    case True
    show ?thesis
    proof (cases r1)
      case Interrupted
      then show ?thesis using 1(1)[OF True r1[symmetric] Interrupted] 1(3) c True r1 by (simp add: refill_loop.simps[of rp s])
    next
      case (Done bytes)
      then show ?thesis using 1(2)[OF True r1[symmetric] Done refl] 1(3) c True r1 Done
        by (auto simp: refill_loop.simps[of rp s] Let_def split: if_splits)
    qed (use c in simp)
  qed (use 1(3,4) in \<open>auto simp: refill_loop.simps[of rp s]\<close>)
qed

lemma reader_clean: "reader n st = Some (r, st') \<Longrightarrow> clean (snd st) \<Longrightarrow> r \<noteq> Failed \<and> clean (snd st')"
  using refill_clean[of "fst st" "snd st"]
  by (auto simp: reader_def compsys_helper_read_def Let_def split: prod.splits result.splits bool.splits if_splits)

lemma reader_not_interrupted: "reader n st = Some (r, st') \<Longrightarrow> buffer_ok st \<Longrightarrow> r \<noteq> Interrupted"
  using refill_loop_stream[of "fst st" "snd st"]
  by (fastforce simp: reader_def compsys_helper_read_def Let_def split: prod.splits result.splits bool.splits if_splits)

lemma readnb_clean:
  "readnb_loop n b st = Some (got, st') \<Longrightarrow> n < 2147483648 \<Longrightarrow> buffer_ok st \<Longrightarrow> clean (snd st) \<Longrightarrow> fst got \<and> clean (snd st')"
proof (induction n b st rule: readnb_loop.induct)
  case (1 n b st)
  obtain r st1 where r: "reader n st = Some (r, st1)" using reader_defined[OF 1(3), of st] by auto
  note c = reader_clean[OF r 1(5)] reader_not_interrupted[OF r 1(4)]
  show ?case
  proof (cases "n > 0")
    case True
    show ?thesis
    proof (cases r)
      case (Done bytes)
      have "buffer_ok st1" "n - length bytes < 2147483648" using buffered.recv_law[OF 1(4,3) r[unfolded Done]] 1(3) by simp_all
      then show ?thesis using 1(1)[OF True r refl Done] 1(2) r True Done c
        by (auto simp: readnb_loop.simps[of n b st] split: if_splits)
    qed (use c in auto)
  qed (use 1(2,5) in \<open>auto simp: readnb_loop.simps[of 0 b st]\<close>)
qed

lemma readn_clean: "readn_loop n b s = (got, s') \<Longrightarrow> clean s \<Longrightarrow> fst got \<and> clean s'"
proof (induction n b s rule: readn_loop.induct)
  case (1 n b s)
  obtain r s1 where r: "os_read n s = (r, s1)" by fastforce
  note c = os_read_clean[OF 1(4) r]
  show ?case
  proof (cases "n > 0")
    case True
    show ?thesis
    proof (cases r)
      case Interrupted
      then show ?thesis using 1(1)[OF True r[symmetric] Interrupted] 1(3) c r True by (simp add: readn_loop.simps[of n b s])
    next
      case (Done bytes)
      then show ?thesis using 1(2)[OF True r[symmetric] Done] 1(3) c r True
        by (auto simp: readn_loop.simps[of n b s] split: if_splits)
    qed (use c in simp)
  qed (use 1(3,4) in \<open>auto simp: readn_loop.simps[of 0 b s]\<close>)
qed

text \<open>On a connection without failures the unbuffered read gives what is there, up to \<open>n\<close> bytes.\<close>

lemma readn_clean_gets:
  assumes "clean s"
  shows "\<exists>s'. compsys_helper_readn n s = ((True, take n (incoming s)), s') \<and> clean s' \<and> incoming s' = drop n (incoming s)"
proof -
  obtain ok bytes s' where r: "readn_loop n [] s = ((ok, bytes), s')" by (metis prod.exhaust)
  then have ok: ok "clean s'" using readn_clean[OF r assms] by simp_all
  have r': "readn_loop n [] s = ((True, bytes), s')" using r ok(1) by (simp only: simp_thms)
  from readn_loop_stream[OF r'] obtain new where
    new: "bytes = new" "incoming s = new @ incoming s'" "length new = min n (length (incoming s))" by (elim exE conjE) (simp only: append_Nil)
  then have "take n (new @ incoming s') = new \<and> drop n (new @ incoming s') = incoming s'"
    by (cases "n \<le> length (incoming s)") simp_all
  then have "bytes = take n (incoming s) \<and> incoming s' = drop n (incoming s)" unfolding new(1) new(2) by simp
  then show ?thesis using r ok by (simp add: compsys_helper_readn_def)
qed

lemma os_read_outgoing: "os_read n s = (r, s') \<Longrightarrow> outgoing s' = outgoing s"
  by (auto simp: os_read_def next_event_def Let_def split: list.splits event.splits)

lemma readn_loop_outgoing: "readn_loop n b s = (got, s') \<Longrightarrow> outgoing s' = outgoing s"
proof (induction n b s rule: readn_loop.induct)
  case (1 n b s)
  obtain r s1 where r: "os_read n s = (r, s1)" by fastforce
  note o = os_read_outgoing[OF r]
  show ?case
  proof (cases "n > 0")
    case True
    then show ?thesis using 1(1)[OF True r[symmetric]] 1(2)[OF True r[symmetric]] 1(3) o r
      by (cases r) (auto simp: readn_loop.simps[of n b s] split: if_splits)
  qed (use 1(3) in \<open>auto simp: readn_loop.simps[of 0 b s]\<close>)
qed

lemma readn_outgoing: "outgoing (snd (compsys_helper_readn n s)) = outgoing s"
  using readn_loop_outgoing[of n "[]" s] by (simp add: compsys_helper_readn_def) (metis prod.collapse)

lemma writen_clean: "writen_loop left s = (ok, s') \<Longrightarrow> clean s \<Longrightarrow> ok \<and> clean s'"
proof (induction left s rule: writen_loop.induct)
  case (1 left s)
  obtain r s1 where r: "os_write left s = (r, s1)" by fastforce
  note c = os_write_clean[OF 1(4) r]
  show ?case
  proof (cases "left = []")
    case False
    show ?thesis
    proof (cases r)
      case Interrupted
      then show ?thesis using 1(1)[OF False r[symmetric] Interrupted] 1(3) c r False by (simp add: writen_loop.simps[of left s])
    next
      case (Done n)
      then show ?thesis using 1(2)[OF False r[symmetric] Done] 1(3) c r False by (simp add: writen_loop.simps[of left s])
    qed (use c in simp)
  qed (use 1(3,4) in \<open>simp add: writen_loop.simps[of "[]" s]\<close>)
qed

lemma writen_clean_sends:
  assumes "clean s"
  shows "clean (snd (compsys_helper_writen bytes s)) \<and> incoming (snd (compsys_helper_writen bytes s)) = incoming s \<and>
    outgoing (snd (compsys_helper_writen bytes s)) = outgoing s @ bytes"
proof -
  obtain ok s' where w: "writen_loop bytes s = (ok, s')" by fastforce
  with writen_clean[OF w assms] writen_loop_stream[of bytes s s'] show ?thesis by (simp add: compsys_helper_writen_def)
qed

subsection \<open>Delivery\<close>

text \<open>C33: however the operating system cuts the transfers into pieces or interrupts them, the
  robust reads deliver the bytes of the stream in order, without loss or repetition: as many as
  asked for unless the stream ends before, the rest staying for the next read; and the buffered line
  read stops behind the first line end, at the given length or at the end of the stream. The buffered read does so for
  numbers of bytes below \<open>2 ^ 31\<close>, for which it never leaves its buffers either; a number above is negative as an
  \<open>int\<close> (\<open>readnb_too_large\<close>).\<close>

theorem robust_reads:
  "(compsys_helper_readn n s = ((True, bytes), s') \<longrightarrow>
      incoming s = bytes @ incoming s' \<and> length bytes = min n (length (incoming s))) \<and>
   (buffer_ok st \<longrightarrow> n < 2147483648 \<longrightarrow> compsys_helper_readnb n st \<noteq> None \<and> (compsys_helper_readnb n st = Some ((True, bytes), st') \<longrightarrow>
      buffer_ok st' \<and> unread st = bytes @ unread st' \<and> length bytes = min n (length (unread st)))) \<and>
   (buffer_ok st \<longrightarrow> compsys_helper_readlineb n st \<noteq> None \<and> (compsys_helper_readlineb n st = Some ((True, bytes), st') \<longrightarrow>
      buffer_ok st' \<and> unread st = bytes @ unread st' \<and> length bytes \<le> n - 1 \<and> 0x0A \<notin> set (butlast bytes) \<and>
      (length bytes = n - 1 \<or> unread st' = [] \<or> (bytes \<noteq> [] \<and> last bytes = 0x0A))))"
proof (intro conjI impI)
  show "incoming s = bytes @ incoming s'" "length bytes = min n (length (incoming s))"
    if "compsys_helper_readn n s = ((True, bytes), s')"
    using readn_loop_stream[OF that[unfolded compsys_helper_readn_def]] by (auto simp only: append_Nil)
  show "compsys_helper_readnb n st \<noteq> None" if "n < 2147483648" by (rule readnb_defined[OF that])
  show "buffer_ok st'" "unread st = bytes @ unread st'" "length bytes = min n (length (unread st))"
    if "buffer_ok st" "n < 2147483648" "compsys_helper_readnb n st = Some ((True, bytes), st')"
    using readnb_loop_stream[OF that(1,2) that(3)[unfolded compsys_helper_readnb_def]] by (auto simp only: append_Nil)
  show "compsys_helper_readlineb n st \<noteq> None" by (simp add: compsys_helper_readlineb_def readlineb_defined)
  show "buffer_ok st'" "unread st = bytes @ unread st'" "length bytes \<le> n - 1" "0x0A \<notin> set (butlast bytes)"
    "length bytes = n - 1 \<or> unread st' = [] \<or> (bytes \<noteq> [] \<and> last bytes = 0x0A)"
    if "buffer_ok st" "compsys_helper_readlineb n st = Some ((True, bytes), st')"
    using readlineb_loop_stream[OF that(1) that(2)[unfolded compsys_helper_readlineb_def]] by (auto simp only: append_Nil)
qed

text \<open>C34: a robust write that reports success has sent all its bytes, in order, whatever the pieces;
  and a robust read by the other side returns exactly them.\<close>

theorem write_then_read:
  assumes "compsys_helper_writen bytes s = (r, s')" "r \<noteq> -1"
    and "incoming t = drop (length (outgoing s)) (outgoing s')"
    and "compsys_helper_readn (length bytes) t = ((True, got), t')"
  shows "r = int (length bytes) \<and> got = bytes \<and> incoming t' = []"
proof -
  obtain ok where w: "writen_loop bytes s = (ok, s')" "r = (if ok then int (length bytes) else -1)"
    using assms(1) by (auto simp: compsys_helper_writen_def split: prod.splits)
  then have "ok" using assms(2) by (cases ok) simp_all
  then have "incoming t = bytes" using writen_loop_stream[of bytes s s'] w assms(3) by simp
  moreover obtain new where "got = [] @ new" "incoming t = new @ incoming t'" "length new = min (length bytes) (length (incoming t))"
    using readn_loop_stream[OF assms(4)[unfolded compsys_helper_readn_def]] by blast
  ultimately show ?thesis using w(2) \<open>ok\<close> append_eq_append_conv[of new bytes "incoming t'" "[]"] by auto
qed

definition demo_os :: "byte list \<Rightarrow> event list \<Rightarrow> os" where
  "demo_os bytes es = \<lparr>incoming = bytes, outgoing = [], events = es\<rparr>"

lemma demo_readn: "compsys_helper_readn 3 (demo_os [1, 2, 3, 4] [Transfer 1, Interrupt]) = ((True, [1, 2, 3]), demo_os [4] [])"
  by code_simp

lemma demo_writen: "compsys_helper_writen [1, 2, 3] (demo_os [] [Interrupt, Transfer 2]) = (3, demo_os [] [] \<lparr>outgoing := [1, 2, 3]\<rparr>)"
  by code_simp

lemma demo_read_back: "compsys_helper_readn (length [1, 2, 3 :: byte]) (demo_os [1, 2, 3] [Transfer 2, Interrupt]) = ((True, [1, 2, 3]), demo_os [] [])"
  by code_simp

definition demo_buffer :: compsys_helper_state where
  "demo_buffer = \<lparr>cnt = 0, bufptr = 0, buf = replicate COMPSYS_BUFSIZE 0\<rparr>"

lemma robust_reads_witness:
  "incoming (demo_os [1, 2, 3, 4] [Transfer 1, Interrupt]) =
     [1, 2, 3] @ incoming (snd (compsys_helper_readn 3 (demo_os [1, 2, 3, 4] [Transfer 1, Interrupt]))) \<and>
   (\<exists>ok got st'. compsys_helper_readnb 3 (demo_buffer, demo_os [1, 2, 3, 4] [Transfer 1, Interrupt]) = Some ((ok, got), st') \<and>
      (ok \<longrightarrow> got = [1, 2, 3])) \<and>
   (\<exists>ok got st'. compsys_helper_readlineb 9 (demo_buffer, demo_os [1, 0x0A, 3, 4] [Transfer 1, Interrupt]) = Some ((ok, got), st') \<and>
      (ok \<longrightarrow> length got \<le> 8))"
proof (intro conjI)
  have ok: "buffer_ok (demo_buffer, demo_os bs es)" for bs es by (simp add: buffer_ok_def demo_buffer_def)
  show "incoming (demo_os [1, 2, 3, 4] [Transfer 1, Interrupt]) =
     [1, 2, 3] @ incoming (snd (compsys_helper_readn 3 (demo_os [1, 2, 3, 4] [Transfer 1, Interrupt])))"
    using conjunct1[OF robust_reads, rule_format, OF demo_readn] demo_readn by simp
  have u: "unread (demo_buffer, demo_os bs es) = bs" for bs es by (simp add: unread_def demo_buffer_def demo_os_def)
  have "compsys_helper_readnb 3 (demo_buffer, demo_os [1, 2, 3, 4] [Transfer 1, Interrupt]) \<noteq> None"
    using robust_reads[of 3 _ _ _ "(demo_buffer, demo_os [1, 2, 3, 4] [Transfer 1, Interrupt])"] ok by simp
  then obtain a got st' where r: "compsys_helper_readnb 3 (demo_buffer, demo_os [1, 2, 3, 4] [Transfer 1, Interrupt]) = Some ((a, got), st')"
    by (metis not_None_eq prod.exhaust)
  have "got = [1, 2, 3]" if a
  proof -
    have e: "[1, 2, 3, 4] = got @ unread st'" "length got = 3"
      using robust_reads[of 3 _ got _ "(demo_buffer, demo_os [1, 2, 3, 4] [Transfer 1, Interrupt])" st'] r that ok u by auto
    have "take (length got) ([1, 2, 3] @ [4 :: byte]) = got" using e(1) by simp
    then show ?thesis unfolding e(2) by simp
  qed
  with r show "\<exists>ok got st'. compsys_helper_readnb 3 (demo_buffer, demo_os [1, 2, 3, 4] [Transfer 1, Interrupt]) = Some ((ok, got), st') \<and>
      (ok \<longrightarrow> got = [1, 2, 3])" by blast
  have "compsys_helper_readlineb 9 (demo_buffer, demo_os [1, 0x0A, 3, 4] [Transfer 1, Interrupt]) \<noteq> None"
    using robust_reads[of 9 _ _ _ "(demo_buffer, demo_os [1, 0x0A, 3, 4] [Transfer 1, Interrupt])"] ok by simp
  then obtain b line' st'' where l: "compsys_helper_readlineb 9 (demo_buffer, demo_os [1, 0x0A, 3, 4] [Transfer 1, Interrupt]) = Some ((b, line'), st'')"
    by (metis not_None_eq prod.exhaust)
  then have "b \<longrightarrow> length line' \<le> 8"
    using robust_reads[of 9 _ line' _ "(demo_buffer, demo_os [1, 0x0A, 3, 4] [Transfer 1, Interrupt])" st''] ok by auto
  with l show "\<exists>ok got st'. compsys_helper_readlineb 9 (demo_buffer, demo_os [1, 0x0A, 3, 4] [Transfer 1, Interrupt]) = Some ((ok, got), st') \<and>
      (ok \<longrightarrow> length got \<le> 8)" by blast
qed

lemma write_then_read_witness:
  "incoming (snd (compsys_helper_readn (length [1, 2, 3 :: byte]) (demo_os [1, 2, 3] [Transfer 2, Interrupt]))) = []"
  using write_then_read[OF demo_writen _ _ demo_read_back] demo_read_back by (simp add: demo_os_def)

end
