(* ===== verification/Pool.thy ===== *)
theory Pool
  imports JobQueue Jobs
begin

text \<open>
  The three parallel programs of A2 as a whole, \<open>A2/fibs.c\<close>, \<open>A2/fauxgrep-mt.c\<close> and
  \<open>A2/fhistogram-mt.c\<close>: a main thread that puts all jobs into the queue of \<open>JobQueue\<close>, destroys it
  and joins its workers, and workers that take jobs until the queue gives them none. Each step is one of
  the queue or one visible action of a worker - a line printed, a critical section of the histogram.
\<close>

subsection \<open>Arguments and jobs\<close>

text \<open>The number of threads; \<open>None\<close> is the exit with an error. \<open>argv\<close> is the whole argument vector.\<close>

definition thread_option :: "string \<Rightarrow> i32 option" where
  "thread_option arg = (let num_threads = atoi arg in if num_threads <s 1 then None else Some num_threads)"

definition fibs_args :: "string list \<Rightarrow> i32 option" where
  "fibs_args argv = (if length argv = 3 \<and> argv ! 1 = ''-n'' then thread_option (argv ! 2) else Some 1)"

definition grep_args :: "string list \<Rightarrow> (i32 \<times> string \<times> string list) option" where
  "grep_args argv =
     (if length argv < 2 then None
      else if length argv > 3 \<and> argv ! 1 = ''-n'' then map_option (\<lambda>k. (k, argv ! 3, drop 4 argv)) (thread_option (argv ! 2))
      else Some (1, argv ! 1, drop 2 argv))"

definition hist_args :: "string list \<Rightarrow> (i32 \<times> string list) option" where
  "hist_args argv =
     (if length argv < 2 then None
      else if length argv > 3 \<and> argv ! 1 = ''-n'' then map_option (\<lambda>k. (k, drop 3 argv)) (thread_option (argv ! 2))
      else Some (2, drop 1 argv))"

text \<open>What \<open>fts_read\<close> delivers, one entry after the other; the files are the jobs.\<close>

datatype fts_info = FTS_D | FTS_F | FTS_other

fun fts_jobs :: "(fts_info \<times> string) list \<Rightarrow> string list" where
  "fts_jobs [] = []"
| "fts_jobs ((info, path) # entries) =
     (case info of FTS_D \<Rightarrow> fts_jobs entries | FTS_F \<Rightarrow> path # fts_jobs entries | FTS_other \<Rightarrow> fts_jobs entries)"

subsection \<open>The threads\<close>

text \<open>A worker is at its call of \<open>job_queue_pop\<close>, or has actions left of its job - and whether it
  ends after them - or has ended. Thread 0 is main.\<close>

datatype 'b worker = Looping | Working "'b list" bool | Ended

datatype main_phase = Feeding | Destroying | Joined

record ('j, 'b) pool =
  sys :: "'j sys"
  todo :: "'j list"
  phase :: main_phase
  wk :: "nat \<Rightarrow> 'b worker"
  trace :: "'b list"

text \<open>The reads of \<open>job_queue_pop\<close> before the mutex, which a worker can still make after the destruction: the record itself
  is a variable of main.\<close>

definition looks :: "'a pc \<Rightarrow> bool" where
  "looks p \<longleftrightarrow> p \<in> {Pop_none, Pop_closing, Pop_last}"

text \<open>\<open>acts\<close> are the actions of a job, \<open>quits\<close> tells the jobs that end their worker, \<open>n\<close> is the
  number of workers. A call of the queue after its destruction gets no further than the reads and the signal before the
  mutex.\<close>

inductive pool_step :: "('j \<Rightarrow> 'b list) \<Rightarrow> ('j \<Rightarrow> bool) \<Rightarrow> nat \<Rightarrow> ('j, 'b) pool \<Rightarrow> ('j, 'b) pool \<Rightarrow> bool" for acts quits n where
  main_push: "phase p = Feeding \<Longrightarrow> todo p = d # ds \<Longrightarrow> pc (sys p) 0 = Idle \<Longrightarrow> \<not> queue_to_be_destroyed (jq (sys p)) \<Longrightarrow>
    pool_step acts quits n p (p\<lparr>sys := (sys p)\<lparr>pc := (pc (sys p))(0 := Push_lock d)\<rparr>, todo := ds\<rparr>)"
| main_inside: "alive (sys p) \<Longrightarrow> pc (sys p) 0 \<noteq> Idle \<Longrightarrow> jq_step 0 (sys p) s \<Longrightarrow> pool_step acts quits n p (p\<lparr>sys := s\<rparr>)"
| main_destroy: "phase p = Feeding \<Longrightarrow> todo p = [] \<Longrightarrow> pc (sys p) 0 = Idle \<Longrightarrow>
    pool_step acts quits n p (p\<lparr>sys := (sys p)\<lparr>pc := (pc (sys p))(0 := Destroy_lock)\<rparr>, phase := Destroying\<rparr>)"
| main_join: "phase p = Destroying \<Longrightarrow> pc (sys p) 0 = Idle \<Longrightarrow> \<forall>t \<in> {1..n}. wk p t = Ended \<Longrightarrow>
    pool_step acts quits n p (p\<lparr>phase := Joined\<rparr>)"
| worker_call: "t \<in> {1..n} \<Longrightarrow> wk p t = Looping \<Longrightarrow> pc (sys p) t = Idle \<Longrightarrow>
    pool_step acts quits n p (p\<lparr>sys := (sys p)\<lparr>pc := (pc (sys p))(t := (if cons_amount (jq (sys p)) = 0 then Pop_none else Pop_lock))\<rparr>\<rparr>)"
| worker_inside: "t \<in> {1..n} \<Longrightarrow> alive (sys p) \<or> looks (pc (sys p) t) \<Longrightarrow> pc (sys p) t \<noteq> Idle \<Longrightarrow> jq_step t (sys p) s \<Longrightarrow> pc s t \<noteq> Idle \<Longrightarrow>
    pool_step acts quits n p (p\<lparr>sys := s\<rparr>)"
| worker_got: "t \<in> {1..n} \<Longrightarrow> alive (sys p) \<Longrightarrow> pc (sys p) t \<noteq> Idle \<Longrightarrow> jq_step t (sys p) s \<Longrightarrow> pc s t = Idle \<Longrightarrow>
    popped s = popped (sys p) @ [d] \<Longrightarrow>
    pool_step acts quits n p (p\<lparr>sys := s, wk := (wk p)(t := Working (acts d) (quits d))\<rparr>)"
| worker_end: "t \<in> {1..n} \<Longrightarrow> alive (sys p) \<or> looks (pc (sys p) t) \<Longrightarrow> pc (sys p) t \<noteq> Idle \<Longrightarrow> jq_step t (sys p) s \<Longrightarrow> pc s t = Idle \<Longrightarrow>
    popped s = popped (sys p) \<Longrightarrow> pool_step acts quits n p (p\<lparr>sys := s, wk := (wk p)(t := Ended)\<rparr>)"
| worker_act: "t \<in> {1..n} \<Longrightarrow> wk p t = Working (a # as) q \<Longrightarrow>
    pool_step acts quits n p (p\<lparr>wk := (wk p)(t := Working as q), trace := trace p @ [a]\<rparr>)"
| worker_next: "t \<in> {1..n} \<Longrightarrow> wk p t = Working [] q \<Longrightarrow>
    pool_step acts quits n p (p\<lparr>wk := (wk p)(t := (if q then Ended else Looping))\<rparr>)"
| wake: "alive (sys p) \<Longrightarrow> woken c (pc (sys p) t) = Some w \<Longrightarrow>
    pool_step acts quits n p (p\<lparr>sys := (sys p)\<lparr>pc := (pc (sys p))(t := w)\<rparr>\<rparr>)"

definition pool_start :: "'j list \<Rightarrow> int \<Rightarrow> 'j list \<Rightarrow> ('j, 'b) pool" where
  "pool_start m cap jobs = \<lparr>sys = start m cap, todo = jobs, phase = Feeding, wk = (\<lambda>_. Looping), trace = []\<rparr>"

inductive pool_run :: "('j \<Rightarrow> 'b list) \<Rightarrow> ('j \<Rightarrow> bool) \<Rightarrow> nat \<Rightarrow> 'j list \<Rightarrow> 'j list \<Rightarrow> ('j, 'b) pool \<Rightarrow> bool" for acts quits n m jobs where
  start: "0 < length m \<Longrightarrow> pool_run acts quits n m jobs (pool_start m (int (length m)) jobs)"
| step: "pool_run acts quits n m jobs p \<Longrightarrow> pool_step acts quits n p p' \<Longrightarrow> pool_run acts quits n m jobs p'"

subsection \<open>Roles\<close>

text \<open>The element a thread is about to push, and whether it is inside a pop or a destruction.\<close>

fun pushing :: "'a pc \<Rightarrow> 'a list" where
  "pushing (Push_lock d) = [d]"
| "pushing (Push_test d) = [d]"
| "pushing (Push_wait d) = [d]"
| "pushing (Push_wake d) = [d]"
| "pushing _ = []"

definition popping :: "'a pc \<Rightarrow> bool" where
  "popping p \<longleftrightarrow> p \<in> {Pop_none, Pop_closing, Pop_last, Pop_lock, Pop_test, Pop_wait, Pop_wake}"

definition destroying :: "'a pc \<Rightarrow> bool" where
  "destroying p \<longleftrightarrow> p \<in> {Destroy_lock, Destroy_test, Destroy_wait, Destroy_wake}"

lemma popping_simps [simp]: "popping Pop_none" "popping Pop_closing" "popping Pop_last" "popping Pop_lock" "popping Pop_test" "popping Pop_wait" "popping Pop_wake" "\<not> popping Idle"
  "\<not> popping (Push_lock d)" "\<not> popping (Push_test d)" "\<not> popping (Push_wait d)" "\<not> popping (Push_wake d)"
  "\<not> popping Destroy_lock" "\<not> popping Destroy_test" "\<not> popping Destroy_wait" "\<not> popping Destroy_wake"
  by (simp_all add: popping_def)

lemma destroying_simps [simp]: "\<not> destroying Pop_none" "\<not> destroying Pop_closing" "\<not> destroying Pop_last" "\<not> destroying Pop_lock" "\<not> destroying Pop_test" "\<not> destroying Pop_wait" "\<not> destroying Pop_wake" "\<not> destroying Idle"
  "\<not> destroying (Push_lock d)" "\<not> destroying (Push_test d)" "\<not> destroying (Push_wait d)" "\<not> destroying (Push_wake d)"
  "destroying Destroy_lock" "destroying Destroy_test" "destroying Destroy_wait" "destroying Destroy_wake"
  by (simp_all add: destroying_def)

definition role :: "'a pc \<Rightarrow> 'a list \<times> bool \<times> bool" where
  "role p = (pushing p, popping p, destroying p)"

lemma role_Idle: "role p = ([], False, False) \<longleftrightarrow> p = Idle"
  by (cases p) (simp_all add: role_def)

lemma woken_role: "woken c p = Some w \<Longrightarrow> role w = role p"
  by (induction c p rule: woken.induct) (auto simp: role_def)

lemma signal_role: "signal c p p' \<Longrightarrow> role (p' t) = role (p t)"
  unfolding signal_def using woken_role by (metis fun_upd_apply)

lemma step_others: "jq_step t s s' \<Longrightarrow> u \<noteq> t \<Longrightarrow> role (pc s' u) = role (pc s u)"
  by (erule jq_step.cases) (auto simp: signal_role)

lemma step_push:
  "jq_step t s s' \<Longrightarrow> role (pc s t) = ([d], False, False) \<Longrightarrow> popped s' = popped s \<and> alive s' = alive s \<and>
     (role (pc s' t) = role (pc s t) \<and> pushed s' = pushed s \<or> pc s' t = Idle \<and> pushed s' = pushed s @ [d])"
  by (erule jq_step.cases) (auto simp: role_def)

lemma step_pop:
  "jq_step t s s' \<Longrightarrow> popping (pc s t) \<Longrightarrow> pushed s' = pushed s \<and> alive s' = alive s \<and>
     (popping (pc s' t) \<and> popped s' = popped s \<or> pc s' t = Idle)"
  by (erule jq_step.cases) auto

lemma step_destroy:
  "jq_step t s s' \<Longrightarrow> destroying (pc s t) \<Longrightarrow> pushed s' = pushed s \<and> popped s' = popped s \<and>
     (destroying (pc s' t) \<and> alive s' = alive s \<or> pc s' t = Idle \<and> \<not> alive s' \<and> \<not> must_wait (jq s))"
  by (erule jq_step.cases) auto

lemma role_same: "role p = role q \<Longrightarrow> pushing p = pushing q \<and> popping p = popping q \<and> destroying p = destroying q \<and> (p = Idle \<longleftrightarrow> q = Idle)"
  using role_Idle[of p] role_Idle[of q] by (simp add: role_def)

fun left :: "'b worker \<Rightarrow> 'b list" where
  "left (Working as q) = as"
| "left _ = []"

subsection \<open>The invariant\<close>

text \<open>Who does what; where main is; and that no action is lost or done twice.\<close>

definition roles_ok :: "nat \<Rightarrow> ('j, 'b) pool \<Rightarrow> bool" where
  "roles_ok n p \<longleftrightarrow> \<not> popping (pc (sys p) 0) \<and>
     (\<forall>t. t \<noteq> 0 \<longrightarrow> pushing (pc (sys p) t) = [] \<and> \<not> destroying (pc (sys p) t)) \<and>
     (\<forall>t \<in> {1..n}. wk p t \<noteq> Looping \<longrightarrow> pc (sys p) t = Idle)"

definition main_ok :: "'j list \<Rightarrow> nat \<Rightarrow> ('j, 'b) pool \<Rightarrow> bool" where
  "main_ok jobs n p \<longleftrightarrow> jobs = pushed (sys p) @ pushing (pc (sys p) 0) @ todo p \<and>
     (phase p = Feeding \<longrightarrow> \<not> destroying (pc (sys p) 0) \<and> alive (sys p)) \<and>
     (phase p \<noteq> Feeding \<longrightarrow> todo p = [] \<and> pushing (pc (sys p) 0) = []) \<and>
     (phase p = Destroying \<longrightarrow> pc (sys p) 0 = Idle \<longrightarrow> \<not> alive (sys p)) \<and>
     (\<not> alive (sys p) \<longrightarrow> pc (sys p) 0 = Idle \<and> popped (sys p) = pushed (sys p)) \<and>
     (phase p = Joined \<longrightarrow> \<not> alive (sys p) \<and> (\<forall>t \<in> {1..n}. wk p t = Ended))"

definition work_ok :: "('j \<Rightarrow> 'b list) \<Rightarrow> nat \<Rightarrow> ('j, 'b) pool \<Rightarrow> bool" where
  "work_ok acts n p \<longleftrightarrow> mset (trace p) + (\<Sum>t \<in> {1..n}. mset (left (wk p t))) = mset (concat (map acts (popped (sys p))))"

definition queue_reached :: "'j list \<Rightarrow> ('j, 'b) pool \<Rightarrow> bool" where
  "queue_reached m p \<longleftrightarrow> (alive (sys p) \<longrightarrow> reach False m (int (length m)) (sys p))"

lemma push_not_popping: "pushing q \<noteq> [] \<Longrightarrow> \<not> popping q \<and> \<not> destroying q \<and> (\<exists>d. role q = ([d], False, False))"
  by (cases q) (simp_all add: role_def)

lemma step_alive: "jq_step t s s' \<Longrightarrow> alive s' \<Longrightarrow> alive s"
  by (erule jq_step.cases) auto

lemma pool_reached: "pool_step acts quits n p p' \<Longrightarrow> main_ok jobs n p \<Longrightarrow> queue_reached m p \<Longrightarrow> queue_reached m p'"
proof (induction rule: pool_step.induct)
  case (main_push p d ds)
  then show ?case using reach.step[OF _ _ jq_step.push_call[of "sys p" 0 d]] by (simp add: queue_reached_def main_ok_def)
next
  case (main_destroy p)
  then show ?case using reach.step[OF _ _ jq_step.destroy_call[of "sys p" 0]] by (simp add: queue_reached_def main_ok_def)
next
  case (worker_call t p)
  then show ?case using reach.step[OF _ _ jq_step.pop_call[of "sys p" t]] by (simp add: queue_reached_def)
next
  case (wake p c t w)
  then show ?case using reach.spurious[of False m _ "sys p" c t w] by (simp add: queue_reached_def)
qed (auto simp: queue_reached_def dest: step_alive intro: reach.step)

lemma sum_worker:
  assumes "t \<in> {1..n :: nat}"
  shows "(\<Sum>u \<in> {1..n}. mset (left ((w(t := x)) u))) + mset (left (w t)) = (\<Sum>u \<in> {1..n}. mset (left (w u))) + mset (left x)"
proof -
  have fin: "finite {1..n}" by simp
  have "(\<Sum>u \<in> {1..n}. mset (left ((w(t := x)) u))) = mset (left x) + (\<Sum>u \<in> {1..n} - {t}. mset (left ((w(t := x)) u)))"
    using sum.remove[OF fin assms, of "\<lambda>u. mset (left ((w(t := x)) u))"] by simp
  also have "(\<Sum>u \<in> {1..n} - {t}. mset (left ((w(t := x)) u))) = (\<Sum>u \<in> {1..n} - {t}. mset (left (w u)))"
    by (intro sum.cong) auto
  finally show ?thesis using sum.remove[OF fin assms, of "\<lambda>u. mset (left (w u))"] by (simp add: union_ac)
qed

lemma pc_kind: "pushing q = [] \<Longrightarrow> \<not> destroying q \<Longrightarrow> q \<noteq> Idle \<Longrightarrow> popping q"
  by (cases q) simp_all

lemma popping_kind: "popping q \<Longrightarrow> pushing q = [] \<and> \<not> destroying q \<and> q \<noteq> Idle"
  by (cases q) simp_all

lemma worker_pops:
  assumes "roles_ok n p" "t \<in> {1..n}" "pc (sys p) t \<noteq> Idle"
  shows "popping (pc (sys p) t) \<and> wk p t = Looping \<and> t \<noteq> 0"
proof -
  have "t \<noteq> 0" using assms(2) by auto
  then have "pushing (pc (sys p) t) = []" "\<not> destroying (pc (sys p) t)" using assms(1) unfolding roles_ok_def by blast+
  then show ?thesis using pc_kind assms \<open>t \<noteq> 0\<close> unfolding roles_ok_def by blast
qed

lemma main_pushes_or_destroys:
  assumes "roles_ok n p" "pc (sys p) 0 \<noteq> Idle"
  shows "destroying (pc (sys p) 0) \<or> (\<exists>d. role (pc (sys p) 0) = ([d], False, False))"
  using assms pc_kind[of "pc (sys p) 0"] push_not_popping[of "pc (sys p) 0"] unfolding roles_ok_def by blast

lemma main_pops_nothing:
  assumes "roles_ok n p" "pc (sys p) 0 \<noteq> Idle" "jq_step 0 (sys p) s"
  shows "popped s = popped (sys p) \<and> \<not> popping (pc s 0)"
  using main_pushes_or_destroys[OF assms(1,2)]
proof
  assume "destroying (pc (sys p) 0)"
  then show ?thesis using step_destroy[OF assms(3)] by (cases "pc s 0") auto
next
  assume "\<exists>d. role (pc (sys p) 0) = ([d], False, False)"
  then show ?thesis using step_push[OF assms(3)] by (auto simp: role_def)
qed

lemma pool_work:
  assumes "pool_step acts quits n p p'" "roles_ok n p" "work_ok acts n p"
  shows "work_ok acts n p'"
  using assms
proof (induction rule: pool_step.induct)
  case (main_inside p s)
  then show ?case using main_pops_nothing[OF main_inside(4,2,3)] by (simp add: work_ok_def)
next
  case (worker_inside t p s)
  then show ?case using step_pop[OF worker_inside(4)] worker_pops[OF worker_inside(6,1,3)] by (simp add: work_ok_def)
next
  case (worker_got t p s d)
  then show ?case using worker_pops[OF worker_got(7,1,3)] sum_worker[OF worker_got(1), of "wk p" "Working (acts d) (quits d)"]
    by (simp add: work_ok_def union_ac)
next
  case (worker_end t p s)
  then show ?case using worker_pops[OF worker_end(7,1,3)] sum_worker[OF worker_end(1), of "wk p" Ended] by (simp add: work_ok_def)
next
  case (worker_act t p a as q)
  then show ?case using sum_worker[OF worker_act(1), of "wk p" "Working as q"]
    by (simp add: work_ok_def) (metis union_mset_add_mset_right)
next
  case (worker_next t p q)
  then show ?case using sum_worker[OF worker_next(1), of "wk p" "if q then Ended else Looping"] by (simp add: work_ok_def split: if_splits)
qed (simp_all add: work_ok_def)

text \<open>Only thread \<open>t\<close> changes its role.\<close>

lemma roles_frame:
  assumes "roles_ok n p" "\<And>u. u \<noteq> t \<Longrightarrow> role (pc s u) = role (pc (sys p) u)"
    and "if t = 0 then \<not> popping (pc s 0) else pushing (pc s t) = [] \<and> \<not> destroying (pc s t)"
    and "\<And>u. u \<noteq> t \<Longrightarrow> w u = wk p u" "w t = Looping \<or> pc s t = Idle \<or> t = 0"
  shows "roles_ok n (p\<lparr>sys := s, wk := w\<rparr>)"
proof -
  have same: "pushing (pc s u) = pushing (pc (sys p) u)" "popping (pc s u) = popping (pc (sys p) u)"
      "destroying (pc s u) = destroying (pc (sys p) u)" "pc s u = Idle \<longleftrightarrow> pc (sys p) u = Idle" if "u \<noteq> t" for u
    using role_same[OF assms(2)[OF that]] by auto
  have "\<not> popping (pc s 0)" using assms(1,3) same(2)[of 0] by (cases "t = 0") (auto simp: roles_ok_def)
  moreover have "pushing (pc s u) = [] \<and> \<not> destroying (pc s u)" if "u \<noteq> 0" for u
    using assms(1,3) same[of u] that by (cases "u = t") (auto simp: roles_ok_def)
  moreover have "pc s u = Idle" if "u \<in> {1..n}" "w u \<noteq> Looping" for u
    using assms(1,4,5) same(4)[of u] that by (cases "u = t") (auto simp: roles_ok_def)
  ultimately show ?thesis by (simp add: roles_ok_def)
qed

lemma pool_roles:
  assumes "pool_step acts quits n p p'" "roles_ok n p"
  shows "roles_ok n p'"
  using assms
proof (induction rule: pool_step.induct)
  case (main_inside p s)
  then show ?case using roles_frame[OF main_inside(4), of 0 s "wk p"] step_others[OF main_inside(3)] main_pops_nothing[OF main_inside(4,2,3)]
    by simp
next
  case (worker_inside t p s)
  note k = worker_pops[OF worker_inside(6,1,3)]
  then have "popping (pc s t)" using worker_inside(5) step_pop[OF worker_inside(4)] by simp
  then show ?case using roles_frame[OF worker_inside(6), of t s "wk p"] step_others[OF worker_inside(4)] k popping_kind[of "pc s t"] by simp
next
  case (worker_got t p s d)
  note k = worker_pops[OF worker_got(7,1,3)]
  show ?case using roles_frame[OF worker_got(7), of t s "(wk p)(t := Working (acts d) (quits d))"] step_others[OF worker_got(4)] k worker_got(5) by simp
next
  case (worker_end t p s)
  note k = worker_pops[OF worker_end(7,1,3)]
  show ?case using roles_frame[OF worker_end(7), of t s "(wk p)(t := Ended)"] step_others[OF worker_end(4)] k worker_end(5) by simp
next
  case (wake p c t w)
  have "role w = role (pc (sys p) t)" using woken_role[OF wake(2)] .
  then have same: "role (((pc (sys p))(t := w)) u) = role (pc (sys p) u)" for u by simp
  then show ?case using role_same[OF same] wake(3) by (simp add: roles_ok_def del: fun_upd_apply)
qed (auto simp: roles_ok_def)

lemma pool_main:
  assumes "pool_step acts quits n p p'" "roles_ok n p" "queue_reached m p" "main_ok jobs n p"
  shows "main_ok jobs n p'"
  using assms
proof (induction rule: pool_step.induct)
  case (main_inside p s)
  have al: "alive (sys p)" by (rule main_inside(1))
  have r: "reach False m (int (length m)) (sys p)" using main_inside(5) al by (simp add: queue_reached_def)
  show ?case using main_pushes_or_destroys[OF main_inside(4,2)]
  proof
    assume d: "destroying (pc (sys p) 0)"
    note st = step_destroy[OF main_inside(3) d]
    have "pushed s = popped s" if "\<not> must_wait (jq (sys p))"
    proof -
      have "contents (jq (sys p)) = []" using that by (simp add: must_wait_def contents_empty not_less)
      then show ?thesis using reach_history[OF r] st by (simp add: history_ok_def)
    qed
    moreover have "phase p \<noteq> Feeding" using main_inside(6) d by (auto simp: main_ok_def)
    moreover have "pushing q = []" if "destroying q" for q :: "'a pc" using that by (cases q) simp_all
    ultimately show ?thesis using main_inside(6) st d al by (auto simp: main_ok_def)
  next
    assume "\<exists>d. role (pc (sys p) 0) = ([d], False, False)"
    then obtain d where d: "role (pc (sys p) 0) = ([d], False, False)" by blast
    then have "pushing (pc (sys p) 0) = [d]" by (simp add: role_def)
    moreover have "phase p = Feeding" using main_inside(6) calculation by (auto simp: main_ok_def)
    ultimately show ?thesis using main_inside(6) step_push[OF main_inside(3) d] d al by (auto simp: main_ok_def role_def)
  qed
next
  case (worker_inside t p s)
  note k = worker_pops[OF worker_inside(6,1,3)]
  then have "role (pc s 0) = role (pc (sys p) 0)" using step_others[OF worker_inside(4), of 0] by simp
  then show ?case using role_same[of "pc s 0" "pc (sys p) 0"] k step_pop[OF worker_inside(4)] worker_inside(2,5,8) by (auto simp: main_ok_def)
next
  case (worker_got t p s d)
  note k = worker_pops[OF worker_got(7,1,3)]
  then have "role (pc s 0) = role (pc (sys p) 0)" using step_others[OF worker_got(4), of 0] by simp
  then show ?case using role_same[of "pc s 0" "pc (sys p) 0"] k step_pop[OF worker_got(4)] worker_got(2,9) by (auto simp: main_ok_def)
next
  case (worker_end t p s)
  note k = worker_pops[OF worker_end(7,1,3)]
  then have "role (pc s 0) = role (pc (sys p) 0)" using step_others[OF worker_end(4), of 0] by simp
  then show ?case using role_same[of "pc s 0" "pc (sys p) 0"] k step_pop[OF worker_end(4)] worker_end(2,6,9) by (auto simp: main_ok_def)
next
  case (wake p c t w)
  have "role (((pc (sys p))(t := w)) 0) = role (pc (sys p) 0)" using woken_role[OF wake(2)] by simp
  from role_same[OF this] show ?case using wake(1,5) by (simp add: main_ok_def del: fun_upd_apply)
qed (auto simp: main_ok_def)

lemma pool_invariant:
  "pool_run acts quits n m jobs p \<Longrightarrow> roles_ok n p \<and> main_ok jobs n p \<and> work_ok acts n p \<and> queue_reached m p"
proof (induction rule: pool_run.induct)
  case start
  then have "queue_reached m (pool_start m (int (length m)) jobs)"
    using reach.init[of "int (length m)" m False] by (simp add: queue_reached_def pool_start_def)
  then show ?case by (simp add: roles_ok_def main_ok_def work_ok_def pool_start_def start_def)
next
  case (step p p')
  then have inv: "roles_ok n p" "main_ok jobs n p" "work_ok acts n p" "queue_reached m p" by simp_all
  show ?case using pool_roles[OF step(2) inv(1)] pool_main[OF step(2) inv(1,4,2)] pool_work[OF step(2) inv(1,3)] pool_reached[OF step(2) inv(2,4)]
    by simp
qed

lemma pool_trace_jobs:
  assumes "pool_run acts quits n m jobs p" "phase p = Joined"
  shows "mset (trace p) = mset (concat (map acts jobs))"
proof -
  note inv = pool_invariant[OF assms(1)]
  then have m: "\<not> alive (sys p)" "todo p = []" "pushing (pc (sys p) 0) = []" "\<forall>t \<in> {1..n}. wk p t = Ended" "popped (sys p) = pushed (sys p)"
     "jobs = pushed (sys p) @ pushing (pc (sys p) 0) @ todo p"
    using assms(2) by (auto simp: main_ok_def)
  have "(\<Sum>t \<in> {1..n}. mset (left (wk p t))) = {#}" using m(4) by (intro sum.neutral) simp
  then show ?thesis using inv m by (simp add: work_ok_def)
qed


text \<open>C8: whatever the interleaving of main and the workers, a program that ends has done every
  action of every job exactly once: the actions in its trace are those of all jobs, in some
  order.\<close>

theorem pool_does_all:
  assumes "pool_run acts quits n m jobs p" "phase p = Joined"
  shows "mset (trace p) = mset (concat (map acts jobs))"
  using assms by (rule pool_trace_jobs)

subsection \<open>A run\<close>

definition one_pool :: "'j sys \<Rightarrow> 'j list \<Rightarrow> main_phase \<Rightarrow> 'b worker \<Rightarrow> 'b list \<Rightarrow> ('j, 'b) pool" where
  "one_pool s ds ph w tr = \<lparr>sys = s, todo = ds, phase = ph, wk = (\<lambda>_. Looping)(1 := w), trace = tr\<rparr>"

definition one_queue :: "'j list \<Rightarrow> int \<Rightarrow> int \<Rightarrow> int \<Rightarrow> bool \<Rightarrow> int \<Rightarrow> 'j job_queue" where
  "one_queue m i j k b c = \<lparr>data = m, capacity = int (length m), prod_pointer = i, cons_pointer = j, queue_count = k,
     queue_to_be_destroyed = b, cons_amount = c\<rparr>"

lemma run_next: "pool_run acts quits n m jobs p \<Longrightarrow> pool_step acts quits n p p' \<Longrightarrow> p' = p'' \<Longrightarrow> pool_run acts quits n m jobs p''"
  using pool_run.step by blast

lemma run_acts:
  "pool_run acts quits 1 m jobs (one_pool s ds ph (Working as q) tr) \<Longrightarrow> pool_run acts quits 1 m jobs (one_pool s ds ph (Working [] q) (tr @ as))"
proof (induction as arbitrary: tr)
  case (Cons a as)
  have "pool_run acts quits 1 m jobs (one_pool s ds ph (Working as q) (tr @ [a]))"
    by (rule run_next[OF Cons(2) pool_step.worker_act[where t = 1 and a = a and as = as and q = q]]) (simp_all add: one_pool_def)
  from Cons(1)[OF this] show ?case by simp
qed simp

text \<open>One job and one worker: main pushes, the worker pops and works, main destroys, the worker ends.\<close>

lemma one_job_run:
  assumes "1 < length m" "\<not> quits d"
  shows "\<exists>p. pool_run acts quits 1 m [d] p \<and> phase p = Joined"
proof -
  let ?m = "m[0 := d]"
  let ?e = "\<lambda>x. demo_sys (one_queue ?m 1 1 0 True 0) None ((\<lambda>_. Idle)(1 := x)) False [d] [d]" and ?s = "\<lambda>q l p. demo_sys q l p True"
  note defs = one_pool_def one_queue_def demo_sys_def looks_def must_wait_def push_body_def pop_body_def fun_eq_iff
  have m: "m \<noteq> []" using assms(1) by auto
  have "pool_run acts quits 1 m [d] (one_pool (?s (one_queue m 0 0 0 False 0) None (\<lambda>_. Idle) [] []) [d] Feeding Looping [])"
    using pool_run.start[of m acts quits 1 "[d]"] m
    by (simp add: pool_start_def start_def job_queue_init_def one_pool_def demo_sys_def one_queue_def fun_upd_idem)
  then have "pool_run acts quits 1 m [d] (one_pool (?s (one_queue m 0 0 0 False 0) None ((\<lambda>_. Idle)(0 := Push_lock d)) [] []) [] Feeding Looping [])"
    by (rule run_next[OF _ pool_step.main_push[where d = d and ds = "[]"]]) (simp_all add: defs)
  then have "pool_run acts quits 1 m [d] (one_pool (?s (one_queue m 0 0 0 False 0) (Some 0) ((\<lambda>_. Idle)(0 := Push_test d)) [] []) [] Feeding Looping [])"
    by (rule run_next[OF _ pool_step.main_inside[OF _ _ jq_step.push_lock[where d = d]]]) (simp_all add: defs)
  then have "pool_run acts quits 1 m [d] (one_pool (?s (one_queue ?m 1 0 1 False 0) None (\<lambda>_. Idle) [d] []) [] Feeding Looping [])"
    by (rule run_next[OF _ pool_step.main_inside[OF _ _ jq_step.push_do[where d = d, OF _ _ _ signal_none]]]) (use assms m in \<open>simp_all add: defs\<close>)
  then have "pool_run acts quits 1 m [d] (one_pool (?s (one_queue ?m 1 0 1 False 0) None ((\<lambda>_. Idle)(1 := Pop_none)) [d] []) [] Feeding Looping [])"
    by (rule run_next[OF _ pool_step.worker_call[where t = 1]]) (simp_all add: defs)
  then have "pool_run acts quits 1 m [d] (one_pool (?s (one_queue ?m 1 0 1 False 0) None ((\<lambda>_. Idle)(1 := Pop_lock)) [d] []) [] Feeding Looping [])"
    by (rule run_next[OF _ pool_step.worker_inside[where t = 1, OF _ _ _ jq_step.pop_read]]) (simp_all add: defs)
  then have "pool_run acts quits 1 m [d] (one_pool (?s (one_queue ?m 1 0 1 False 1) (Some 1) ((\<lambda>_. Idle)(1 := Pop_test)) [d] []) [] Feeding Looping [])"
    by (rule run_next[OF _ pool_step.worker_inside[where t = 1, OF _ _ _ jq_step.pop_lock]]) (simp_all add: defs)
  then have "pool_run acts quits 1 m [d] (one_pool (?s (one_queue ?m 1 1 0 False 0) None (\<lambda>_. Idle) [d] [d]) [] Feeding (Working (acts d) False) [])"
    by (rule run_next[OF _ pool_step.worker_got[where t = 1 and d = d, OF _ _ _ jq_step.pop_do[where d = d, OF _ _ _ _ signal_none]]])
       (use assms m in \<open>simp_all add: defs\<close>)
  note r = run_acts[OF this]
  have "pool_run acts quits 1 m [d] (one_pool (?s (one_queue ?m 1 1 0 False 0) None (\<lambda>_. Idle) [d] [d]) [] Feeding Looping (acts d))"
    by (rule run_next[OF r pool_step.worker_next[where t = 1 and q = False]]) (simp_all add: defs)
  then have "pool_run acts quits 1 m [d] (one_pool (?s (one_queue ?m 1 1 0 False 0) None ((\<lambda>_. Idle)(0 := Destroy_lock)) [d] [d]) [] Destroying Looping (acts d))"
    by (rule run_next[OF _ pool_step.main_destroy]) (simp_all add: defs)
  then have "pool_run acts quits 1 m [d] (one_pool (?s (one_queue ?m 1 1 0 True 0) (Some 0) ((\<lambda>_. Idle)(0 := Destroy_test)) [d] [d]) [] Destroying Looping (acts d))"
    by (rule run_next[OF _ pool_step.main_inside[OF _ _ jq_step.destroy_lock]]) (simp_all add: defs)
  then have "pool_run acts quits 1 m [d] (one_pool (demo_sys (one_queue ?m 1 1 0 True 0) None (\<lambda>_. Idle) False [d] [d]) [] Destroying Looping (acts d))"
    by (rule run_next[OF _ pool_step.main_inside[OF _ _ jq_step.destroy_end]]) (simp_all add: defs)
  then have "pool_run acts quits 1 m [d] (one_pool (?e Pop_none) [] Destroying Looping (acts d))"
    by (rule run_next[OF _ pool_step.worker_call[where t = 1]]) (simp_all add: defs)
  then have "pool_run acts quits 1 m [d] (one_pool (?e Pop_closing) [] Destroying Looping (acts d))"
    by (rule run_next[OF _ pool_step.worker_inside[where t = 1, OF _ _ _ jq_step.pop_read]]) (simp_all add: defs)
  then have "pool_run acts quits 1 m [d] (one_pool (?e Pop_last) [] Destroying Looping (acts d))"
    by (rule run_next[OF _ pool_step.worker_inside[where t = 1, OF _ _ _ jq_step.pop_count]]) (simp_all add: defs)
  then have "pool_run acts quits 1 m [d] (one_pool (demo_sys (one_queue ?m 1 1 0 True 0) None (\<lambda>_. Idle) False [d] [d]) [] Destroying Ended (acts d))"
    by (rule run_next[OF _ pool_step.worker_end[where t = 1, OF _ _ _ jq_step.pop_last[OF _ signal_none]]]) (simp_all add: defs)
  then have "pool_run acts quits 1 m [d] (one_pool (demo_sys (one_queue ?m 1 1 0 True 0) None (\<lambda>_. Idle) False [d] [d]) [] Joined Ended (acts d))"
    by (rule run_next[OF _ pool_step.main_join]) (simp_all add: defs)
  then show ?thesis by (intro exI conjI) (assumption, simp add: one_pool_def)
qed

lemma pool_does_all_witness:
  "\<exists>p. pool_run (\<lambda>d :: int. [d, d + 1]) (\<lambda>_. False) 1 [0, 0] [7] p \<and> mset (trace p) = {#7, 8#}"
  using one_job_run[of "[0, 0]" "\<lambda>_. False" 7 "\<lambda>d :: int. [d, d + 1]"]
    pool_does_all[of "\<lambda>d :: int. [d, d + 1]" "\<lambda>_. False" 1 "[0, 0]" "[7]"] by auto

subsection \<open>The programs\<close>

text \<open>The actions of a job: a line of \<open>fibs\<close> printed, the lines \<open>fauxgrep-mt\<close> finds in a file,
  the critical sections of \<open>fhistogram-mt\<close> on a file.\<close>

definition fibs_acts :: "string \<Rightarrow> (i32 \<times> i32) list" where
  "fibs_acts line = fib_worker [line]"

definition grep_acts :: "string \<Rightarrow> (string \<Rightarrow> string option) \<Rightarrow> string \<Rightarrow> (string \<times> nat \<times> string) list" where
  "grep_acts needle files path = (case files path of None \<Rightarrow> [] | Some f \<Rightarrow> grep_loop needle path 1 f)"

definition grep_quits :: "(string \<Rightarrow> string option) \<Rightarrow> string \<Rightarrow> bool" where
  "grep_quits files path \<longleftrightarrow> files path = None"

definition hist_acts :: "(string \<Rightarrow> byte list option) \<Rightarrow> string \<Rightarrow> i32 list list" where
  "hist_acts files path = fhistogram_mt (files path)"

definition QUEUE_SIZE :: nat where "QUEUE_SIZE = 64"

text \<open>The runs of the three programs on their arguments; \<open>fts\<close> gives the entries below the paths, \<open>m\<close> is
  the fresh memory of the queue.\<close>

definition fibs_run :: "string list \<Rightarrow> string \<Rightarrow> string list \<Rightarrow> (string, i32 \<times> i32) pool \<Rightarrow> bool" where
  "fibs_run argv stdin m p \<longleftrightarrow> length m = QUEUE_SIZE \<and>
     (case fibs_args argv of None \<Rightarrow> False | Some k \<Rightarrow> pool_run fibs_acts (\<lambda>_. False) (unat k) m (file_lines stdin) p)"

definition grep_run :: "(string list \<Rightarrow> (fts_info \<times> string) list) \<Rightarrow> (string \<Rightarrow> string option) \<Rightarrow> string list \<Rightarrow> string list \<Rightarrow>
    (string, string \<times> nat \<times> string) pool \<Rightarrow> bool" where
  "grep_run fts files argv m p \<longleftrightarrow> length m = QUEUE_SIZE \<and>
     (case grep_args argv of None \<Rightarrow> False
      | Some (k, needle, paths) \<Rightarrow> pool_run (grep_acts needle files) (grep_quits files) (unat k) m (fts_jobs (fts paths)) p)"

definition hist_run :: "(string list \<Rightarrow> (fts_info \<times> string) list) \<Rightarrow> (string \<Rightarrow> byte list option) \<Rightarrow> string list \<Rightarrow> string list \<Rightarrow>
    (string, i32 list) pool \<Rightarrow> bool" where
  "hist_run fts files argv m p \<longleftrightarrow> length m = QUEUE_SIZE \<and>
     (case hist_args argv of None \<Rightarrow> False
      | Some (k, paths) \<Rightarrow> pool_run (hist_acts files) (\<lambda>_. False) (unat k) m (fts_jobs (fts paths)) p)"

text \<open>The global histogram after the critical sections of a trace.\<close>

definition global_histogram :: "i32 list list \<Rightarrow> i32 list" where
  "global_histogram sections = fold merge_section sections (replicate 8 0)"

text \<open>The sequential programs: the lines printed, and the global histogram with the histograms printed.\<close>

fun fauxgrep_files :: "string \<Rightarrow> (string \<Rightarrow> string option) \<Rightarrow> string list \<Rightarrow> (string \<times> nat \<times> string) list" where
  "fauxgrep_files needle files [] = []"
| "fauxgrep_files needle files (path # paths) = snd (fauxgrep_file needle path (files path)) @ fauxgrep_files needle files paths"

definition fauxgrep_main :: "(string list \<Rightarrow> (fts_info \<times> string) list) \<Rightarrow> (string \<Rightarrow> string option) \<Rightarrow> string list \<Rightarrow> (string \<times> nat \<times> string) list option" where
  "fauxgrep_main fts files argv =
     (if length argv < 2 then None else Some (fauxgrep_files (argv ! 1) files (fts_jobs (fts (drop 2 argv)))))"

fun fhistogram_files :: "(string \<Rightarrow> byte list option) \<Rightarrow> i32 list \<Rightarrow> string list \<Rightarrow> i32 list \<times> i32 list list" where
  "fhistogram_files files global_h [] = (global_h, [])"
| "fhistogram_files files global_h (path # paths) =
     (let (_, global_h, printed) = fhistogram (files path) global_h in apsnd ((@) printed) (fhistogram_files files global_h paths))"

definition fhistogram_main :: "(string list \<Rightarrow> (fts_info \<times> string) list) \<Rightarrow> (string \<Rightarrow> byte list option) \<Rightarrow> string list \<Rightarrow> (i32 list \<times> i32 list list) option" where
  "fhistogram_main fts files argv =
     (if length argv < 2 then None else Some (fhistogram_files files (replicate 8 0) (fts_jobs (fts (drop 1 argv)))))"

lemma fhistogram_files_fold: "fst (fhistogram_files files g paths) = fold (\<lambda>f g. fst (snd (fhistogram f g))) (map files paths) g"
  by (induction paths arbitrary: g) (simp_all add: split_beta Let_def)

lemma hist_paths: "hist_args argv = Some (k, paths) \<Longrightarrow> paths \<noteq> []"
  by (auto simp: hist_args_def split: if_splits)

lemma fauxgrep_files_acts: "fauxgrep_files needle files paths = concat (map (grep_acts needle files) paths)"
  by (induction paths) (simp_all add: grep_acts_def fauxgrep_file_def split: option.split)

text \<open>C16: when the parallel histogram program ends, with any number of threads and any interleaving, its
  global histogram is the one of the sequential program on the same paths, and counts the bits of all
  the files.\<close>

theorem histogram_programs_agree:
  assumes "hist_run fts files argv m p" "phase p = Joined" "hist_args argv = Some (k, paths)"
  shows "map_option fst (fhistogram_main fts files (prog # paths)) = Some (global_histogram (trace p)) \<and>
    (\<forall>j < 8. global_histogram (trace p) ! j = bit_count j (files_bytes (map files (fts_jobs (fts paths)))))"
proof -
  let ?jobs = "fts_jobs (fts paths)" and ?g = "replicate 8 (0 :: i32)"
  have "pool_run (hist_acts files) (\<lambda>_. False) (unat k) m ?jobs p" using assms(1,3) by (simp add: hist_run_def)
  from pool_trace_jobs[OF this assms(2)] have "mset (trace p) = mset (concat (map fhistogram_mt (map files ?jobs)))"
    by (simp add: hist_acts_def[abs_def] comp_def)
  note h = histogram_any_order[OF _ this, of ?g]
  have "global_histogram (trace p) = fold (\<lambda>f g. fst (snd (fhistogram f g))) (map files ?jobs) ?g"
    unfolding global_histogram_def by (rule conjunct1[OF h]) simp
  moreover have "\<forall>j < 8. global_histogram (trace p) ! j = ?g ! j + bit_count j (files_bytes (map files ?jobs))"
    unfolding global_histogram_def by (rule conjunct2[OF h]) simp
  ultimately show ?thesis using hist_paths[OF assms(3)] by (simp add: fhistogram_main_def fhistogram_files_fold)
qed

text \<open>C17: when the parallel search ends it has printed exactly the lines of the sequential search with the same
  needle and paths, in some order; and the parallel Fibonacci program a line for every line read. A search
  that meets a file it cannot open can only end if other workers take the jobs left.\<close>

theorem search_programs_agree:
  assumes "grep_run fts files argv m p" "phase p = Joined" "grep_args argv = Some (k, needle, paths)"
  shows "map_option mset (fauxgrep_main fts files (prog # needle # paths)) = Some (mset (trace p))"
proof -
  have "pool_run (grep_acts needle files) (grep_quits files) (unat k) m (fts_jobs (fts paths)) p"
    using assms(1,3) by (simp add: grep_run_def)
  from pool_trace_jobs[OF this assms(2)] show ?thesis by (simp add: fauxgrep_main_def fauxgrep_files_acts)
qed

theorem fibs_prints_all:
  assumes "fibs_run argv stdin m p" "phase p = Joined"
  shows "mset (trace p) = mset (map fib_line (file_lines stdin))"
proof -
  obtain k where "fibs_args argv = Some k" using assms(1) by (cases "fibs_args argv") (simp_all add: fibs_run_def)
  then have "pool_run fibs_acts (\<lambda>_. False) (unat k) m (file_lines stdin) p" using assms(1) by (simp add: fibs_run_def)
  from pool_trace_jobs[OF this assms(2)] show ?thesis by (simp add: fibs_acts_def[abs_def])
qed


lemma histogram_programs_agree_witness:
  "\<exists>p. hist_run (\<lambda>_. [(FTS_F, ''a'')]) (\<lambda>_. Some [1, 255]) [''h'', ''-n'', ''1'', ''d''] (replicate 64 []) p \<and> global_histogram (trace p) ! 0 = 2"
proof -
  have args: "hist_args [''h'', ''-n'', ''1'', ''d''] = Some (1, [''d''])" by code_simp
  obtain p where p: "hist_run (\<lambda>_. [(FTS_F, ''a'')]) (\<lambda>_. Some [1, 255]) [''h'', ''-n'', ''1'', ''d''] (replicate 64 []) p" "phase p = Joined"
    using one_job_run[of "replicate 64 []" "\<lambda>_. False" "''a''" "hist_acts (\<lambda>_. Some [1, 255])"]
    by (auto simp: hist_run_def args QUEUE_SIZE_def)
  have "bit_count 0 (files_bytes [Some [1, 255]]) = 2" by code_simp
  then show ?thesis using histogram_programs_agree[OF p args, of "''h''"] p(1) by auto
qed

lemma search_programs_agree_witness:
  "\<exists>p. grep_run (\<lambda>_. [(FTS_D, ''d''), (FTS_F, ''d/a'')]) (\<lambda>_. Some ''abc'') [''g'', ''b'', ''d''] (replicate 64 []) p \<and>
     mset (trace p) = {#(''d/a'', 1, ''abc'')#}"
proof -
  let ?fts = "\<lambda>_ :: string list. [(FTS_D, ''d''), (FTS_F, ''d/a'')]" and ?files = "\<lambda>_ :: string. Some ''abc''"
  have args: "grep_args [''g'', ''b'', ''d''] = Some (1, ''b'', [''d''])" by code_simp
  obtain p where p: "grep_run ?fts ?files [''g'', ''b'', ''d''] (replicate 64 []) p" "phase p = Joined"
    using one_job_run[of "replicate 64 []" "grep_quits ?files" "''d/a''" "grep_acts ''b'' ?files"]
    by (auto simp: grep_run_def args QUEUE_SIZE_def grep_quits_def)
  have "fauxgrep_main ?fts ?files [''g'', ''b'', ''d''] = Some [(''d/a'', 1, ''abc'')]" by code_simp
  then show ?thesis using search_programs_agree[OF p args, of "''g''"] p(1) by auto
qed

lemma fibs_prints_all_witness:
  "\<exists>p. fibs_run [''f''] ''10'' (replicate 64 []) p \<and> mset (trace p) = {#fib_line ''10''#}"
proof -
  have args: "fibs_args [''f''] = Some 1" by code_simp
  have lines: "file_lines ''10'' = [''10'']" by code_simp
  obtain p where p: "fibs_run [''f''] ''10'' (replicate 64 []) p" "phase p = Joined"
    using one_job_run[of "replicate 64 []" "\<lambda>_. False" "''10''" fibs_acts] by (auto simp: fibs_run_def args lines QUEUE_SIZE_def)
  then show ?thesis using fibs_prints_all[OF p] lines by auto
qed

end
