(* ===== verification/Decimals.thy ===== *)
theory Decimals
  imports CStrings
begin

text \<open>
  Decimal numbers in strings of bytes: the digits \<open>sprintf\<close> writes for \<open>%d\<close>, and that
  the functions that read numbers get back the number that was written.
\<close>

function dec_nat :: "nat \<Rightarrow> byte list" where
  "dec_nat k = (if k < 10 then [0x30 + word_of_nat k] else dec_nat (k div 10) @ [0x30 + word_of_nat (k mod 10)])"
  by pat_completeness auto
termination
  by (relation "measure id") auto

declare dec_nat.simps [simp del]

lemma digit_chars: "list_all (\<lambda>k. let c = char_of (unat (0x30 + word_of_nat k :: byte)) in is_digit c \<and> \<not> is_space c \<and>
     c \<noteq> CHR ''-'' \<and> c \<noteq> CHR ''+'' \<and> (of_char c :: int) = 48 + int k \<and> (0x30 + word_of_nat k :: byte) \<noteq> 0) [0..<10]"
  by code_simp

lemma digit_char:
  assumes "k < 10"
  defines "c \<equiv> char_of (unat (0x30 + word_of_nat k :: byte))"
  shows "is_digit c" "\<not> is_space c" "c \<noteq> CHR ''-''" "c \<noteq> CHR ''+''" "(of_char c :: int) = 48 + int k" "(0x30 + word_of_nat k :: byte) \<noteq> 0"
proof -
  have "k \<in> set [0..<10]" using assms(1) by simp
  then show "is_digit c" "\<not> is_space c" "c \<noteq> CHR ''-''" "c \<noteq> CHR ''+''" "(of_char c :: int) = 48 + int k" "(0x30 + word_of_nat k :: byte) \<noteq> 0"
    using digit_chars unfolding list_all_iff c_def Let_def by blast+
qed

definition byte_chars :: "byte list \<Rightarrow> string" where
  "byte_chars bs = map (\<lambda>b. char_of (unat b)) bs"

lemma dec_nat_nonzero: "0 \<notin> set (dec_nat k)"
proof (induction k rule: dec_nat.induct)
  case (1 k)
  show ?case
  proof (cases "k < 10")
    case True
    then show ?thesis using digit_char(6)[OF True] by (simp add: dec_nat.simps[of k])
  next
    case False
    then show ?thesis using digit_char(6)[of "k mod 10"] 1 by (simp add: dec_nat.simps[of k])
  qed
qed

lemma digits_value_append: "list_all is_digit xs \<Longrightarrow> digits_value v (xs @ ys) = digits_value (digits_value v xs) ys"
  by (induction v xs rule: digits_value.induct) auto

lemma dec_nat_value: "list_all is_digit (byte_chars (dec_nat k)) \<and> digits_value 0 (byte_chars (dec_nat k)) = int k"
proof (induction k rule: dec_nat.induct)
  case (1 k)
  show ?case
  proof (cases "k < 10")
    case True
    then show ?thesis using digit_char(1,5)[OF True] by (simp add: dec_nat.simps[of k] byte_chars_def)
  next
    case False
    have "k mod 10 < 10" by simp
    note d = digit_char(1,5)[OF this]
    have "int k = int (k div 10) * 10 + int (k mod 10)" by presburger
    then show ?thesis using 1[OF False] d False
      by (simp add: dec_nat.simps[of k] byte_chars_def digits_value_append)
  qed
qed

lemma dec_nat_head: "\<exists>d bs. dec_nat k = (0x30 + word_of_nat d) # bs \<and> d < 10"
proof (induction k rule: dec_nat.induct)
  case (1 k)
  show ?case
  proof (cases "k < 10")
    case True
    then show ?thesis by (intro exI[of _ k]) (simp add: dec_nat.simps[of k])
  next
    case False
    then show ?thesis using 1[OF False] by (auto simp: dec_nat.simps[of k])
  qed
qed

lemma signed_value_dec: "signed_value (dropWhile is_space (byte_chars (dec_nat k))) = int k"
proof -
  obtain d bs where d: "dec_nat k = (0x30 + word_of_nat d) # bs" "d < 10" using dec_nat_head by blast
  note c = digit_char[OF d(2)]
  show ?thesis using dec_nat_value[of k] c d by (simp add: signed_value_def byte_chars_def)
qed

lemma dec_nat_length: "k < 10 ^ m \<Longrightarrow> 0 < m \<Longrightarrow> length (dec_nat k) \<le> m"
proof (induction k arbitrary: m rule: dec_nat.induct)
  case (1 k)
  show ?case
  proof (cases "k < 10")
    case True
    then show ?thesis using 1(3) by (simp add: dec_nat.simps[of k])
  next
    case False
    then obtain m' where m: "m = Suc m'" "0 < m'" using 1(2,3) by (cases m; cases "m - 1") auto
    then have "k div 10 < 10 ^ m'" using 1(2) by (simp add: div_less_iff_less_mult mult.commute)
    then show ?thesis using 1(1)[OF False _ m(2)] m False by (simp add: dec_nat.simps[of k])
  qed
qed

lemma dec_nat_long: "10 ^ m \<le> k \<Longrightarrow> m < length (dec_nat k)"
proof (induction k arbitrary: m rule: dec_nat.induct)
  case (1 k)
  show ?case
  proof (cases m)
    case 0
    then show ?thesis using dec_nat_head[of k] by auto
  next
    case (Suc m')
    then have k: "\<not> k < 10" using 1(2) by (auto simp: not_less intro: order_trans[rotated])
    moreover have "10 ^ m' \<le> k div 10" using 1(2) Suc by (simp add: less_eq_div_iff_mult_less_eq mult.commute)
    ultimately show ?thesis using 1(1)[OF k] Suc by (simp add: dec_nat.simps[of k])
  qed
qed

end
