(* ===== verification/Display.thy ===== *)
theory Display
  imports Pool Decimals
begin

text \<open>
  The histogram on the screen, the printing functions of \<open>A2/histogram.h\<close>. What is written to a terminal is a
  list of characters and control sequences; the terminal has a screen without borders. How many turns the loop that
  draws a bar makes is decided by doubles and an argument.
\<close>

datatype tty_out = Put char | Erase_line | Cursor_up nat | Cursor_down nat

definition move_lines :: "int \<Rightarrow> tty_out list" where
  "move_lines n = (if n < 0 then [Cursor_up (nat (- n))] else [Cursor_down (nat n)])"

definition clear_line :: "tty_out list" where
  "clear_line = [Erase_line]"

definition int_string :: "int \<Rightarrow> string" where
  "int_string i = (if i < 0 then CHR ''-'' # byte_chars (dec_nat (nat (- i))) else byte_chars (dec_nat (nat i)))"

definition bar_line :: "(i32 \<Rightarrow> int \<Rightarrow> nat) \<Rightarrow> i32 list \<Rightarrow> nat \<Rightarrow> tty_out list" where
  "bar_line turns histogram i =
     clear_line @ map Put (''Bit '' @ int_string (int i) @ '': '') @
     map Put (replicate (turns (histogram ! i) (bits_seen histogram)) (CHR ''*'')) @ [Put NL]"

definition print_histogram :: "(i32 \<Rightarrow> int \<Rightarrow> nat) \<Rightarrow> i32 list \<Rightarrow> tty_out list" where
  "print_histogram turns histogram =
     concat (map (bar_line turns histogram) [0..<8]) @
     clear_line @ map Put (int_string (bits_seen histogram) @ '' bits processed.'') @ [Put NL] @ move_lines (-9)"

text \<open>What \<open>warn\<close> writes on the same terminal about a file that cannot be opened, after \<open>fflush\<close> has sent
  what was printed before; \<open>prog\<close> is the name of the program and \<open>reason\<close> the text of the error.\<close>

definition warn_line :: "string \<Rightarrow> (string \<Rightarrow> string) \<Rightarrow> string \<Rightarrow> tty_out list" where
  "warn_line prog reason path = map Put (prog @ '': failed to open '' @ path @ '': '' @ reason path) @ [Put NL]"

text \<open>All that \<open>fhistogram\<close> writes about the files, one after the other, and the sequential program in a run with arguments.\<close>

fun files_output :: "(i32 \<Rightarrow> int \<Rightarrow> nat) \<Rightarrow> string \<Rightarrow> (string \<Rightarrow> string) \<Rightarrow> (string \<Rightarrow> byte list option) \<Rightarrow> i32 list \<Rightarrow> string list \<Rightarrow> tty_out list" where
  "files_output turns prog reason files global_h [] = []"
| "files_output turns prog reason files global_h (path # paths) =
     (case fhistogram (files path) global_h of (status, global_h', printed) \<Rightarrow>
        (if files path = None then warn_line prog reason path else concat (map (print_histogram turns) printed)) @
        files_output turns prog reason files global_h' paths)"

definition fhistogram_output ::
    "(i32 \<Rightarrow> int \<Rightarrow> nat) \<Rightarrow> string \<Rightarrow> (string \<Rightarrow> string) \<Rightarrow> (string \<Rightarrow> byte list option) \<Rightarrow> string list \<Rightarrow> tty_out list" where
  "fhistogram_output turns prog reason files paths = files_output turns prog reason files (replicate 8 0) paths @ move_lines 9"

subsection \<open>The terminal\<close>

record tty =
  row :: int
  col :: nat
  screen :: "int \<Rightarrow> string"

definition overwrite :: "nat \<Rightarrow> char \<Rightarrow> string \<Rightarrow> string" where
  "overwrite k c l = take k (l @ replicate (k - length l) (CHR '' '')) @ c # drop (Suc k) l"

fun tty_step :: "tty_out \<Rightarrow> tty \<Rightarrow> tty" where
  "tty_step (Put c) t =
     (if c = NL then t\<lparr>row := row t + 1, col := 0\<rparr>
      else t\<lparr>col := col t + 1, screen := (screen t)(row t := overwrite (col t) c (screen t (row t)))\<rparr>)"
| "tty_step Erase_line t = t\<lparr>screen := (screen t)(row t := take (col t) (screen t (row t)))\<rparr>"
| "tty_step (Cursor_up n) t = t\<lparr>row := row t - int n\<rparr>"
| "tty_step (Cursor_down n) t = t\<lparr>row := row t + int n\<rparr>"

lemma typed_over: "NL \<notin> set s \<Longrightarrow>
   fold tty_step (map Put s) \<lparr>row = r, col = length p, screen = sc(r := p @ q)\<rparr> =
     \<lparr>row = r, col = length p + length s, screen = sc(r := p @ s @ drop (length s) q)\<rparr>"
proof (induction s arbitrary: p q)
  case (Cons a s)
  have "tty_step (Put a) \<lparr>row = r, col = length p, screen = sc(r := p @ q)\<rparr> =
      \<lparr>row = r, col = length (p @ [a]), screen = sc(r := (p @ [a]) @ drop 1 q)\<rparr>"
    using Cons.prems by (auto simp: overwrite_def)
  with Cons.IH[of "p @ [a]" "drop 1 q"] Cons.prems show ?case by (simp del: tty_step.simps fun_upd_apply)
qed simp

lemma typed: "NL \<notin> set s \<Longrightarrow> length l = c \<Longrightarrow>
   fold tty_step (map Put s) \<lparr>row = r, col = c, screen = sc(r := l)\<rparr> = \<lparr>row = r, col = c + length s, screen = sc(r := l @ s)\<rparr>"
  using typed_over[of s r l sc "[]"] by simp

text \<open>A line that is cleared, written and ended.\<close>

lemma line_shown: "NL \<notin> set s \<Longrightarrow>
   fold tty_step (clear_line @ map Put s @ [Put NL]) \<lparr>row = r, col = 0, screen = sc\<rparr> = \<lparr>row = r + 1, col = 0, screen = sc(r := s)\<rparr>"
  using typed[of s "[]" 0 r sc] by (simp add: clear_line_def)

lemma int_string_chars: "NL \<notin> set (int_string i)"
proof -
  have "NL \<notin> set (byte_chars (dec_nat k))" for k
    using dec_nat_value[of k] by (auto simp: list_all_iff is_digit_def NL_def)
  then show ?thesis by (simp add: int_string_def NL_def)
qed

definition bar_text :: "(i32 \<Rightarrow> int \<Rightarrow> nat) \<Rightarrow> i32 list \<Rightarrow> nat \<Rightarrow> string" where
  "bar_text turns h i = ''Bit '' @ int_string (int i) @ '': '' @ replicate (turns (h ! i) (bits_seen h)) (CHR ''*'')"

definition histogram_text :: "(i32 \<Rightarrow> int \<Rightarrow> nat) \<Rightarrow> i32 list \<Rightarrow> int \<Rightarrow> string" where
  "histogram_text turns h k =
     (if k < 8 then bar_text turns h (nat k) else int_string (bits_seen h) @ '' bits processed.'')"

definition on_screen :: "(int \<Rightarrow> string) \<Rightarrow> int \<Rightarrow> int \<Rightarrow> (int \<Rightarrow> string) \<Rightarrow> (int \<Rightarrow> string)" where
  "on_screen sc r n f = (\<lambda>k. if r \<le> k \<and> k < r + n then f (k - r) else sc k)"

lemma bar_shown:
  "fold tty_step (bar_line turns h i) \<lparr>row = r, col = 0, screen = sc\<rparr> = \<lparr>row = r + 1, col = 0, screen = sc(r := bar_text turns h i)\<rparr>"
proof -
  have "bar_line turns h i = clear_line @ map Put (bar_text turns h i) @ [Put NL]" by (simp add: bar_line_def bar_text_def)
  moreover have "NL \<notin> set (bar_text turns h i)" using int_string_chars[of "int i"] by (auto simp: bar_text_def NL_def)
  ultimately show ?thesis using line_shown by simp
qed

lemma bars_shown:
  "n \<le> 8 \<Longrightarrow> fold tty_step (concat (map (bar_line turns h) [0..<n])) \<lparr>row = r, col = 0, screen = sc\<rparr> =
     \<lparr>row = r + int n, col = 0, screen = on_screen sc r (int n) (histogram_text turns h)\<rparr>"
proof (induction n)
  case 0
  then show ?case by (auto simp: on_screen_def fun_eq_iff)
next
  case (Suc n)
  have "(on_screen sc r (int n) (histogram_text turns h))(r + int n := bar_text turns h n) = on_screen sc r (int (Suc n)) (histogram_text turns h)"
    using Suc.prems by (auto simp: on_screen_def histogram_text_def fun_eq_iff)
  with Suc show ?case by (simp add: bar_shown)
qed

lemma histogram_shown:
  "fold tty_step (print_histogram turns h) \<lparr>row = r, col = 0, screen = sc\<rparr> = \<lparr>row = r, col = 0, screen = on_screen sc r 9 (histogram_text turns h)\<rparr>"
proof -
  let ?s = "int_string (bits_seen h) @ '' bits processed.''" and ?sc = "on_screen sc r 8 (histogram_text turns h)"
  have "NL \<notin> set ?s" using int_string_chars by (simp add: NL_def)
  moreover have "r + 8 + 1 = r + 9" by simp
  ultimately have "fold tty_step (clear_line @ map Put ?s @ [Put NL]) \<lparr>row = r + 8, col = 0, screen = ?sc\<rparr> = \<lparr>row = r + 9, col = 0, screen = ?sc(r + 8 := ?s)\<rparr>"
    using line_shown by metis
  moreover have "?sc(r + 8 := ?s) = on_screen sc r 9 (histogram_text turns h)"
    by (auto simp: on_screen_def histogram_text_def fun_eq_iff)
  moreover have "fold tty_step (concat (map (bar_line turns h) [0..<8])) \<lparr>row = r, col = 0, screen = sc\<rparr> = \<lparr>row = r + 8, col = 0, screen = ?sc\<rparr>"
    using bars_shown[OF order_refl, of turns h r sc] by (simp only: of_nat_numeral)
  moreover have "fold tty_step (move_lines (-9)) \<lparr>row = r + 9, col = 0, screen = sc'\<rparr> = \<lparr>row = r, col = 0, screen = sc'\<rparr>" for sc'
    by (simp add: move_lines_def)
  moreover have "print_histogram turns h = concat (map (bar_line turns h) [0..<8]) @ (clear_line @ map Put ?s @ [Put NL]) @ move_lines (-9)"
    by (simp only: print_histogram_def append_assoc)
  ultimately show ?thesis by (simp only: fold_append comp_def)
qed

lemma shows_again: "on_screen (on_screen sc r n f) r n g = on_screen sc r n g"
  by (auto simp: on_screen_def)

lemma prints_overwrite:
  "fold tty_step (concat (map (print_histogram turns) hs)) \<lparr>row = r, col = 0, screen = sc\<rparr> =
     \<lparr>row = r, col = 0, screen = (if hs = [] then sc else on_screen sc r 9 (histogram_text turns (last hs)))\<rparr>"
  by (induction hs arbitrary: sc) (simp_all add: histogram_shown shows_again)

lemma fhistogram_loop_last: "snd (fhistogram_loop i l g out f) \<noteq> [] \<and> last (snd (fhistogram_loop i l g out f)) = fst (fhistogram_loop i l g out f)"
  by (induction i l g out f rule: fhistogram_loop.induct) (simp_all add: Let_def split: prod.split)

lemma fhistogram_files_last:
  "case fhistogram_files files g paths of (g', printed) \<Rightarrow> if printed = [] then g' = g else last printed = g'"
proof (induction paths arbitrary: g)
  case (Cons p paths)
  obtain r g1 out where f: "fhistogram (files p) g = (r, g1, out)" by (cases "fhistogram (files p) g")
  have "if out = [] then g1 = g else last out = g1"
    using f fhistogram_loop_last by (auto simp: fhistogram_def split: option.splits) (metis fst_conv snd_conv)+
  then show ?case using f Cons.IH[of g1] by (auto split: prod.splits if_splits)
qed simp

lemma files_output_prints:
  "\<forall>path \<in> set paths. files path \<noteq> None \<Longrightarrow>
     files_output turns prog reason files g paths = concat (map (print_histogram turns) (snd (fhistogram_files files g paths)))"
  by (induction paths arbitrary: g) (auto simp: split_beta Let_def)

text \<open>C18: printing a histogram overwrites the one printed before, as its comment says: whatever the screen shows and however often the
  sequential program prints, when every file it comes to can be opened, then in the end the nine lines from where the cursor was show
  the histogram of the whole run (if there was a file at all), the lines around them are as they were, and the cursor is behind
  them. A file that cannot be opened is left out: its warning ends with a new line, and the next histogram is one line further
  down (\<open>warning_leaves_line\<close>).\<close>

theorem histogram_on_screen:
  assumes "fhistogram_main fts files argv = Some (global_h, printed)" and "\<forall>path \<in> set (fts_jobs (fts (drop 1 argv))). files path \<noteq> None"
  shows "fold tty_step (fhistogram_output turns prog reason files (fts_jobs (fts (drop 1 argv)))) \<lparr>row = r, col = 0, screen = sc\<rparr> =
    \<lparr>row = r + 9, col = 0, screen = (if printed = [] then sc else on_screen sc r 9 (histogram_text turns global_h))\<rparr>"
proof -
  have f: "fhistogram_files files (replicate 8 0) (fts_jobs (fts (drop 1 argv))) = (global_h, printed)"
    using assms(1) by (simp add: fhistogram_main_def split: if_splits)
  then have "printed = [] \<or> last printed = global_h"
    using fhistogram_files_last[where files = files and g = "replicate 8 0" and paths = "fts_jobs (fts (drop 1 argv))"] by (simp split: if_splits)
  then show ?thesis using files_output_prints[OF assms(2)] f by (auto simp: fhistogram_output_def prints_overwrite move_lines_def)
qed

lemma empty_file_histogram: "length g = 8 \<Longrightarrow> fhistogram (Some []) g = (0, g, [g])"
  using merge_section_length[of "replicate 8 0" g] merge_section_nth[of _ g "replicate 8 0"]
  by (auto simp: fhistogram_def merge_section_def split_beta intro!: nth_equalityI)

lemma histogram_on_screen_witness:
  "screen (fold tty_step (fhistogram_output (\<lambda>_ _. 0) ''p'' (\<lambda>_. []) (\<lambda>_. Some []) [''f'']) \<lparr>row = 0, col = 0, screen = (\<lambda>_. ''old'')\<rparr>) 8 =
     ''0 bits processed.''"
proof -
  let ?fts = "map (\<lambda>p. (FTS_F, p)) :: string list \<Rightarrow> (fts_info \<times> string) list"
  have r: "fhistogram_main ?fts (\<lambda>_. Some []) [''p'', ''f''] = Some (replicate 8 0, [replicate 8 0])"
    by (simp add: fhistogram_main_def empty_file_histogram)
  have b: "int_string (bits_seen (replicate 8 0)) = ''0''" by code_simp
  show ?thesis using histogram_on_screen[OF r, of "\<lambda>_ _. 0" "''p''" "\<lambda>_. []" 0 "\<lambda>_. ''old''"] b
    by (simp add: on_screen_def histogram_text_def)
qed

text \<open>With a warning between two histograms the first line of the old one stays, under the warning, and the new one begins below it.\<close>

lemma warning_leaves_line:
  assumes "NL \<notin> set w" "w = prog @ '': failed to open '' @ path @ '': '' @ reason path"
  shows "fold tty_step (print_histogram turns h @ warn_line prog reason path @ print_histogram turns h') \<lparr>row = r, col = 0, screen = sc\<rparr> =
    \<lparr>row = r + 1, col = 0,
     screen = on_screen ((on_screen sc r 9 (histogram_text turns h))(r := w @ drop (length w) (bar_text turns h 0))) (r + 1) 9 (histogram_text turns h')\<rparr>"
proof -
  let ?sc = "on_screen sc r 9 (histogram_text turns h)"
  have "?sc = ?sc(r := [] @ bar_text turns h 0)" by (auto simp: on_screen_def histogram_text_def fun_eq_iff)
  then have "fold tty_step (map Put w) \<lparr>row = r, col = 0, screen = ?sc\<rparr> =
      \<lparr>row = r, col = length w, screen = ?sc(r := w @ drop (length w) (bar_text turns h 0))\<rparr>"
    using typed_over[OF assms(1), of r "[]" ?sc "bar_text turns h 0"] by simp
  then show ?thesis unfolding warn_line_def assms(2)[symmetric] by (simp add: histogram_shown)
qed

end
