(* ===== verification/Wire.thy ===== *)
theory Wire
  imports RobustIO
begin

text \<open>
  Bytes on the wire and in buffers, shared by the clients and servers of A3 and A4.
\<close>

text \<open>A word in memory, most significant byte first (network order) and last (the host).\<close>

definition net_bytes :: "u32 \<Rightarrow> byte list" where
  "net_bytes w = [ucast (drop_bit 24 w), ucast (drop_bit 16 w), ucast (drop_bit 8 w), ucast w]"

definition host_bytes :: "u32 \<Rightarrow> byte list" where
  "host_bytes w = rev (net_bytes w)"

definition net_word :: "byte list \<Rightarrow> u32" where
  "net_word bs = le32 (bs ! 3) (bs ! 2) (bs ! 1) (bs ! 0)"

definition take_at :: "nat \<Rightarrow> nat \<Rightarrow> byte list \<Rightarrow> byte list" where
  "take_at i n bs = take n (drop i bs)"

text \<open>\<open>htonl\<close>, \<open>ntohl\<close> and \<open>htobe32\<close> of a little-endian host.\<close>

definition htonl :: "u32 \<Rightarrow> u32" where
  "htonl w = le32 (ucast (drop_bit 24 w)) (ucast (drop_bit 16 w)) (ucast (drop_bit 8 w)) (ucast w)"

text \<open>Memory that was never written.\<close>

definition uninit :: "(nat \<Rightarrow> byte) \<Rightarrow> nat \<Rightarrow> byte list" where
  "uninit junk k = map junk [0..<k]"

text \<open>\<open>memcpy\<close> or a read over the start of a buffer.\<close>

definition over :: "byte list \<Rightarrow> byte list \<Rightarrow> byte list" where
  "over bytes old = bytes @ drop (length bytes) old"

lemma host_bytes_htonl: "host_bytes (htonl w) = net_bytes w"
  unfolding host_bytes_def net_bytes_def htonl_def le32_def by (auto intro!: bit_word_eqI simp: bit_simps)

lemma net_word_bytes: "net_word (net_bytes w @ rest) = w"
  unfolding net_word_def net_bytes_def le32_def word32_bits by (simp add: bit_simps)

lemma length_net_bytes [simp]: "length (net_bytes w) = 4" "length (host_bytes w) = 4"
  by (simp_all add: host_bytes_def net_bytes_def)

lemma net_word_htonl [simp]: "net_word (host_bytes (htonl w)) = w"
  using net_word_bytes[of w "[]"] by (simp add: host_bytes_htonl)

end
