(* ===== verification/PeerServer.thy ===== *)
theory PeerServer
  imports Wire Decimals Sha256
begin

text \<open>
  The server side of the peer of A4, \<open>A4/peer.c\<close>: the messages, the list of known peers and the
  handlers of the three requests. Memory that was never written is an argument \<open>junk\<close>, so that
  what a handler sends or stores of it is visible; \<open>None\<close> is a read or write outside an
  object. The locks around the list are not modelled: a request is handled at a time.
\<close>

subsection \<open>Messages\<close>

definition COMMAND_REGISTER :: u32 where "COMMAND_REGISTER = 1"
definition COMMAND_RETREIVE :: u32 where "COMMAND_RETREIVE = 2"
definition COMMAND_INFORM :: u32 where "COMMAND_INFORM = 3"
definition STATUS_OK :: u32 where "STATUS_OK = 1"
definition STATUS_PEER_EXISTS :: u32 where "STATUS_PEER_EXISTS = 2"
definition STATUS_BAD_REQUEST :: u32 where "STATUS_BAD_REQUEST = 3"
definition IP_LEN :: nat where "IP_LEN = 16"
definition PORT_LEN :: nat where "PORT_LEN = 8"
definition REQUEST_HEADER_LEN :: nat where "REQUEST_HEADER_LEN = 28"
definition REPLY_HEADER_LEN :: nat where "REPLY_HEADER_LEN = 80"
definition MAX_MSG_LEN :: nat where "MAX_MSG_LEN = 8196"

record PeerAddress =
  ip :: "byte list"
  port :: "byte list"

record NetworkAddress =
  net_ip :: "byte list"
  net_port :: u32

record RequestHeader =
  rq_ip :: "byte list"
  rq_port :: u32
  rq_command :: u32
  rq_length :: u32

record ReplyHeader =
  rp_length :: u32
  rp_status :: u32
  rp_this_block :: u32
  rp_block_count :: u32
  rp_block_hash :: "byte list"
  rp_total_hash :: "byte list"

text \<open>The layout of the structures in memory; the fields hold host values.\<close>

definition NetworkAddress_bytes :: "NetworkAddress \<Rightarrow> byte list" where
  "NetworkAddress_bytes a = net_ip a @ host_bytes (net_port a)"

definition RequestHeader_bytes :: "RequestHeader \<Rightarrow> byte list" where
  "RequestHeader_bytes h = rq_ip h @ host_bytes (rq_port h) @ host_bytes (rq_command h) @ host_bytes (rq_length h)"

definition ReplyHeader_bytes :: "ReplyHeader \<Rightarrow> byte list" where
  "ReplyHeader_bytes h = host_bytes (rp_length h) @ host_bytes (rp_status h) @ host_bytes (rp_this_block h) @
     host_bytes (rp_block_count h) @ rp_block_hash h @ rp_total_hash h"

subsection \<open>Strings in fields\<close>

definition chars :: "byte list \<Rightarrow> string" where
  "chars bs = map (\<lambda>b. char_of (unat b)) (takeWhile (\<lambda>b. b \<noteq> 0) bs)"

definition strncpy :: "nat \<Rightarrow> byte list \<Rightarrow> byte list" where
  "strncpy n s = take n (takeWhile (\<lambda>b. b \<noteq> 0) s @ replicate n 0)"

text \<open>What \<open>sprintf\<close> writes for \<open>%d\<close>, without its terminating zero.\<close>

definition sprintf_d :: "i32 \<Rightarrow> byte list" where
  "sprintf_d w = (let v = sint w in if v < 0 then 0x2D # dec_nat (nat (- v)) else dec_nat (nat v))"

subsection \<open>The known peers\<close>

text \<open>\<open>network\<close> is the array of \<open>slots\<close> pointers; its first \<open>peer_count\<close> entries are set.\<close>

record peer_state =
  my_address :: PeerAddress
  network :: "PeerAddress list"
  slots :: nat

abbreviation peer_count :: "peer_state \<Rightarrow> nat" where
  "peer_count st \<equiv> length (network st)"

text \<open>\<open>sprintf(new_peer.port, "%d", ...)\<close> into a field that holds \<open>old\<close>.\<close>

definition put_port :: "i32 \<Rightarrow> byte list \<Rightarrow> byte list option" where
  "put_port p old =
     (let s = sprintf_d p @ [0] in if length s \<le> PORT_LEN then Some (s @ drop (length s) old) else None)"

text \<open>The end of the handlers: \<open>network[peer_count++] = new_peer\<close>.\<close>

definition add_peer :: "PeerAddress \<Rightarrow> peer_state \<Rightarrow> peer_state option" where
  "add_peer p st = (if peer_count st < slots st then Some (st\<lparr>network := network st @ [p]\<rparr>) else None)"

subsection \<open>Register\<close>

definition reply_entry :: "PeerAddress \<Rightarrow> NetworkAddress" where
  "reply_entry p = \<lparr>net_ip = ip p, net_port = htonl (ucast (atol (chars (port p))))\<rparr>"

fun register_body :: "PeerAddress list \<Rightarrow> byte list" where
  "register_body [] = []"
| "register_body (p # ps) = NetworkAddress_bytes (reply_entry p) @ register_body ps"

definition register_header :: "nat \<Rightarrow> byte list \<Rightarrow> ReplyHeader" where
  "register_header count digest =
     (let len = htonl (word_of_nat (count * 20))
      in \<lparr>rp_length = len, rp_status = htonl 1, rp_this_block = 1,
          rp_block_count = (if len < word_of_nat (MAX_MSG_LEN - REPLY_HEADER_LEN) then 1 else 2),
          rp_block_hash = digest, rp_total_hash = digest\<rparr>)"

text \<open>\<open>total_reply\<close> is an array of pointers of 8 bytes: the body is copied to pointer number
  \<open>REPLY_HEADER_LEN\<close>.\<close>

definition total_reply :: "(nat \<Rightarrow> byte) \<Rightarrow> byte list \<Rightarrow> byte list \<Rightarrow> byte list" where
  "total_reply junk header body =
     (let memory = uninit junk (8 * (REPLY_HEADER_LEN + length body));
          memory = header @ drop (length header) memory;
          at = 8 * REPLY_HEADER_LEN
      in take at memory @ body @ drop (at + length body) memory)"

definition handle_register :: "(nat \<Rightarrow> byte) \<Rightarrow> sha_ctx \<Rightarrow> byte list \<Rightarrow> i32 \<Rightarrow> peer_state \<Rightarrow> os \<Rightarrow> (peer_state \<times> os) option" where
  "handle_register junk ctx client_ip client_port_int st s =
     (let body = register_body (network st)
      in Option.bind (get_data_sha ctx body 32) (\<lambda>digest.
         let total = total_reply junk (ReplyHeader_bytes (register_header (peer_count st) digest)) body;
             (_, s) = compsys_helper_writen (take (length body + REPLY_HEADER_LEN) total) s
         in Option.bind (put_port client_port_int (uninit junk PORT_LEN)) (\<lambda>p.
            map_option (\<lambda>st. (st, s)) (add_peer \<lparr>ip = take IP_LEN client_ip, port = p\<rparr> (st\<lparr>slots := peer_count st + 1\<rparr>)))))"

subsection \<open>Inform\<close>

definition handle_inform :: "byte list \<Rightarrow> peer_state \<Rightarrow> peer_state option" where
  "handle_inform request st =
     (let tmp = net_word (take_at IP_LEN 4 request)
      in Option.bind (put_port tmp (replicate PORT_LEN 0)) (\<lambda>p.
         add_peer \<lparr>ip = take IP_LEN request, port = p\<rparr> (st\<lparr>slots := peer_count st + 1\<rparr>)))"

subsection \<open>Retrieve\<close>

definition SIZEOF_POINTER :: nat where "SIZEOF_POINTER = 8"

text \<open>Block \<open>i\<close> of a response: the code never looks at the length of the data, only at the size
  of the pointer to it, and sends from the start of the data.\<close>

definition response_length :: "nat \<Rightarrow> nat" where
  "response_length i =
     (let from_index = i * MAX_MSG_LEN;
          to_index = (if unat (word_of_nat SIZEOF_POINTER - word_of_nat from_index :: 64 word) < MAX_MSG_LEN
                      then SIZEOF_POINTER mod MAX_MSG_LEN else (i + 1) * MAX_MSG_LEN)
      in to_index - from_index)"

fun response_loop :: "byte list \<Rightarrow> nat \<Rightarrow> nat \<Rightarrow> os \<Rightarrow> os" where
  "response_loop memory i 0 s = s"
| "response_loop memory i (Suc left) s =
     response_loop memory (i + 1) left (snd (compsys_helper_writen (take (REQUEST_HEADER_LEN + response_length i) memory) s))"

text \<open>\<open>memory\<close> is the data and what lies behind it.\<close>

definition send_message_reponse :: "(nat \<Rightarrow> byte) \<Rightarrow> u32 \<Rightarrow> byte list \<Rightarrow> os \<Rightarrow> os" where
  "send_message_reponse junk status data s =
     (let block_count = SIZEOF_POINTER div MAX_MSG_LEN + 1
      in response_loop (data @ uninit junk MAX_MSG_LEN) 0 block_count s)"

definition could_not :: "byte list" where
  "could_not = map (\<lambda>c. word_of_nat (of_char c)) ''Could not retrive file'' @ [0]"

definition handle_retreive :: "(nat \<Rightarrow> byte) \<Rightarrow> (string \<Rightarrow> byte list option) \<Rightarrow> byte list \<Rightarrow> os \<Rightarrow> os" where
  "handle_retreive junk files request s =
     (case files (chars request) of
        None \<Rightarrow> send_message_reponse junk STATUS_BAD_REQUEST could_not s
      | Some content \<Rightarrow> send_message_reponse junk STATUS_OK content s)"

subsection \<open>Requests\<close>

text \<open>The header is read from the buffer the connection filled; what belongs to the request is then
  taken from the internal buffer behind it, whatever has arrived there. \<open>buf0\<close> and \<open>msg0\<close> are
  the two buffers before.\<close>

definition parse_request :: "byte list \<Rightarrow> RequestHeader" where
  "parse_request header = \<lparr>rq_ip = take IP_LEN header, rq_port = net_word (take_at 16 4 header),
     rq_command = net_word (take_at 20 4 header), rq_length = net_word (take_at 24 4 header)\<rparr>"

definition handle_server_request ::
  "(nat \<Rightarrow> byte) \<Rightarrow> sha_ctx \<Rightarrow> (string \<Rightarrow> byte list option) \<Rightarrow> byte list \<Rightarrow> byte list \<Rightarrow> peer_state \<Rightarrow> os \<Rightarrow> (peer_state \<times> os) option" where
  "handle_server_request junk ctx files buf0 msg0 st s =
     (let state = compsys_helper_readinitb \<lparr>cnt = 0, bufptr = 0, buf = buf0\<rparr>
      in Option.bind (compsys_helper_readnb REQUEST_HEADER_LEN (state, s)) (\<lambda>(got, (state, s)).
         let bytes = snd got;
             msg_buf = bytes @ drop (length bytes) msg0;
             h = parse_request (take REQUEST_HEADER_LEN msg_buf);
             request = (\<lambda>k. if REQUEST_HEADER_LEN + k \<le> COMPSYS_BUFSIZE then Some (take_at REQUEST_HEADER_LEN k (buf state)) else None)
         in if rq_command h = COMMAND_REGISTER then handle_register junk ctx (rq_ip h) (rq_port h) st s
            else if rq_command h = COMMAND_RETREIVE then
              map_option (\<lambda>r. (st, handle_retreive junk files (r @ uninit junk MAX_MSG_LEN) s)) (request (unat (rq_length h)))
            else if rq_command h = COMMAND_INFORM then
              map_option (\<lambda>st. (st, s)) (Option.bind (request (IP_LEN + PORT_LEN)) (\<lambda>r. handle_inform r st))
            else Some (st, s)))"

text \<open>\<open>main\<close> starts with the peer itself as the only entry. The server thread accepts one
  connection after the other; of each its stream is given, and what the two buffers happen to hold.
  The call of \<open>accept\<close> itself is not modelled: the source passes it two pointers that were never
  set, where it would store the address of the client, so that it may fail or store anywhere.\<close>

definition initial_network :: "PeerAddress \<Rightarrow> peer_state" where
  "initial_network me = \<lparr>my_address = me, network = [me], slots = 1\<rparr>"

record connection =
  old_buf :: "byte list"
  old_msg :: "byte list"
  stream_of :: os

fun server_thread ::
  "(nat \<Rightarrow> byte) \<Rightarrow> sha_ctx \<Rightarrow> (string \<Rightarrow> byte list option) \<Rightarrow> connection list \<Rightarrow> peer_state \<Rightarrow> (peer_state \<times> os list) option" where
  "server_thread junk ctx files [] st = Some (st, [])"
| "server_thread junk ctx files (c # cs) st =
     Option.bind (handle_server_request junk ctx files (old_buf c) (old_msg c) st (stream_of c)) (\<lambda>(st, s).
     map_option (\<lambda>(st, ss). (st, s # ss)) (server_thread junk ctx files cs st))"

subsection \<open>Choosing a peer\<close>

text \<open>\<open>r\<close> is the number \<open>rand\<close> returns; the remainder by zero is \<open>None\<close>.\<close>

fun potential_peers :: "PeerAddress \<Rightarrow> PeerAddress list \<Rightarrow> PeerAddress list" where
  "potential_peers me [] = []"
| "potential_peers me (p # ps) =
     (if chars (ip p) \<noteq> chars (ip me) \<or> chars (port p) \<noteq> chars (port me) then p # potential_peers me ps
      else potential_peers me ps)"

definition get_random_peer :: "nat \<Rightarrow> peer_state \<Rightarrow> PeerAddress option" where
  "get_random_peer r st =
     (let potential = potential_peers (my_address st) (network st); potential_count = length potential
      in if potential_count = 0 then None else Some (potential ! (r mod potential_count)))"

subsection \<open>Words and numbers in messages\<close>

lemma chars_terminated: "0 \<notin> set s \<Longrightarrow> chars (s @ 0 # rest) = byte_chars s"
  unfolding chars_def byte_chars_def by (subst takeWhile_append2) auto

subsection \<open>The handlers\<close>

lemma put_port_small:
  assumes "0 \<le> sint p"
  shows "put_port p old = (if nat (sint p) < 10000000
     then Some (dec_nat (nat (sint p)) @ 0 # drop (Suc (length (dec_nat (nat (sint p))))) old) else None)"
proof (cases "nat (sint p) < 10000000")
  case True
  then have "length (dec_nat (nat (sint p))) \<le> 7" by (intro dec_nat_length) simp_all
  then show ?thesis using True assms by (simp add: put_port_def sprintf_d_def Let_def PORT_LEN_def)
next
  case False
  have "7 < length (dec_nat (nat (sint p)))" by (rule dec_nat_long) (use False in simp)
  then show ?thesis using False assms by (simp add: put_port_def sprintf_d_def Let_def PORT_LEN_def)
qed

lemma put_port_length: "length old = PORT_LEN \<Longrightarrow> put_port p old = Some s \<Longrightarrow> length s = PORT_LEN \<and> 0 \<in> set s"
  by (auto simp: put_port_def Let_def split: if_splits)

lemma port_value:
  assumes "0 \<le> sint (p :: i32)"
  shows "(ucast (atol (chars (dec_nat (nat (sint p)) @ 0 # rest))) :: u32) = p"
proof -
  have v: "sint p < 2 ^ 31" using sint_lt[of p] by simp
  have "signed_value (dropWhile is_space (chars (dec_nat (nat (sint p)) @ 0 # rest))) = sint p"
    using assms signed_value_dec[of "nat (sint p)"] by (simp add: chars_terminated dec_nat_nonzero)
  then have "atol (chars (dec_nat (nat (sint p)) @ 0 # rest)) = scast p"
    using assms v by (simp add: atol_def)
  moreover have "(ucast (scast p :: i64) :: u32) = p" by (rule bit_word_eqI) (simp add: bit_simps)
  ultimately show ?thesis by simp
qed

lemma body_of_network: "register_body (ps @ [q]) = register_body ps @ NetworkAddress_bytes (reply_entry q)"
  by (induction ps) simp_all

text \<open>An inform message with an address of 16 bytes and a port number in network order adds exactly one
  peer, at the end of the list, and the list that the next register request prepares has this very address and
  port in it (it is not what is sent, by \<open>register_sends_junk\<close> below); a
  port of eight digits or more is written behind its field instead.\<close>

theorem inform_then_listed:
  assumes "length addr = IP_LEN" "0 \<le> sint p"
  shows "case handle_inform (addr @ net_bytes p @ rest) st of
      None \<Rightarrow> 10000000 \<le> sint p
    | Some st' \<Rightarrow> sint p < 10000000 \<and> my_address st' = my_address st \<and>
        (\<exists>q. network st' = network st @ [q] \<and> ip q = addr \<and> length (port q) = PORT_LEN) \<and>
        register_body (network st') = register_body (network st) @ addr @ net_bytes p"
proof -
  note body = body_of_network
  have t: "net_word (take_at IP_LEN 4 (addr @ net_bytes p @ rest)) = p" "take IP_LEN (addr @ net_bytes p @ rest) = addr"
    using assms(1) net_word_bytes[of p "[]"] by (simp_all add: take_at_def)
  let ?s = "dec_nat (nat (sint p)) @ 0 # drop (Suc (length (dec_nat (nat (sint p))))) (replicate PORT_LEN 0)"
  show ?thesis
  proof (cases "nat (sint p) < 10000000")
    case True
    then have s: "put_port p (replicate PORT_LEN 0) = Some ?s" using put_port_small[OF assms(2)] by simp
    then have "length ?s = PORT_LEN" using put_port_length[OF _ s] by simp
    moreover have "NetworkAddress_bytes (reply_entry \<lparr>ip = addr, port = ?s\<rparr>) = addr @ net_bytes p"
      using port_value[OF assms(2)] by (simp add: NetworkAddress_bytes_def reply_entry_def host_bytes_htonl)
    moreover have "handle_inform (addr @ net_bytes p @ rest) st =
        Some (st\<lparr>slots := peer_count st + 1, network := network st @ [\<lparr>ip = addr, port = ?s\<rparr>]\<rparr>)"
      unfolding handle_inform_def Let_def t s by (simp add: add_peer_def)
    ultimately show ?thesis using True assms(2) by (simp add: body nat_less_iff)
  next
    case False
    then have "handle_inform (addr @ net_bytes p @ rest) st = None"
      unfolding handle_inform_def Let_def t using put_port_small[OF assms(2)] by simp
    then show ?thesis using False assms(2) by simp
  qed
qed

lemma inform_then_listed_witness:
  "case handle_inform (replicate 16 0x31 @ net_bytes 5000 @ []) \<lparr>my_address = \<lparr>ip = [], port = []\<rparr>, network = [], slots = 0\<rparr> of
      None \<Rightarrow> 10000000 \<le> sint (5000 :: i32)
    | Some st' \<Rightarrow> register_body (network st') = replicate 16 0x31 @ net_bytes 5000"
  using inform_then_listed[where addr = "replicate 16 0x31" and p = 5000 and rest = "[]" and
      st = "\<lparr>my_address = \<lparr>ip = [], port = []\<rparr>, network = [], slots = 0\<rparr>"]
  by (simp add: IP_LEN_def split: option.splits)

text \<open>What a retrieve request is answered, file or not: 36 bytes from the start of the file, or
  of the error text - without a reply header, without status or length, and with what lies in memory
  behind the data where that is shorter.\<close>

theorem retrieve_sends_36:
  "handle_retreive junk files request s =
     snd (compsys_helper_writen
       (take 36 ((case files (chars request) of None \<Rightarrow> could_not | Some content \<Rightarrow> content) @ uninit junk MAX_MSG_LEN)) s)"
  by (simp add: handle_retreive_def send_message_reponse_def SIZEOF_POINTER_def MAX_MSG_LEN_def response_length_def
      REQUEST_HEADER_LEN_def split: option.split)


lemma total_reply_prefix:
  assumes "length h = REPLY_HEADER_LEN" "length body \<le> 560"
  shows "take (length body + REPLY_HEADER_LEN) (total_reply junk h body) = h @ map junk [80..<80 + length body]"
proof -
  let ?n = "length body"
  have cut: "drop 80 (uninit junk (8 * (80 + ?n))) = map junk [80..<8 * (80 + ?n)]"
    unfolding uninit_def by (simp only: drop_map drop_upt add_0)
  have front: "take 560 (map junk [80..<8 * (80 + ?n)]) = map junk [80..<80 + 560]"
    by (simp only: take_map) (subst take_upt; simp)
  have "take ?n (map junk [80..<80 + 560]) = map junk [80..<80 + ?n]"
    using assms(2) by (simp only: take_map) (subst take_upt; simp)
  moreover have "take (?n + 80) (take (8 * 80) (h @ m) @ rest) = h @ take ?n (take 560 m)" if "560 \<le> length m" for m rest
    using assms that by (simp add: REPLY_HEADER_LEN_def)
  from this[of "map junk [80..<8 * (80 + ?n)]"]
  have "take (?n + 80) (total_reply junk h body) = h @ take ?n (map junk [80..<80 + 560])"
    unfolding total_reply_def Let_def assms(1) unfolding REPLY_HEADER_LEN_def cut front by (simp del: upt_Suc upt_rec_numeral)
  ultimately show ?thesis by (simp only: REPLY_HEADER_LEN_def)
qed

text \<open>The answer to a register request begins with a header with the right length, status and
  digest of the peer list; but of the list itself, up to 28 peers, nothing is sent: the bytes behind the
  header are those the memory happened to hold. The client is added to the list unless its port does not
  fit its field.\<close>

theorem register_sends_junk:
  assumes "length (buffer_bytes ctx) = 64" "peer_count st \<le> 28" "\<forall>p \<in> set (network st). length (ip p) = IP_LEN"
  shows "handle_register junk ctx client_ip client_port st s =
    map_option (\<lambda>port. (st\<lparr>slots := peer_count st + 1, network := network st @ [\<lparr>ip = take IP_LEN client_ip, port = port\<rparr>]\<rparr>,
       snd (compsys_helper_writen
         (ReplyHeader_bytes (register_header (peer_count st) (sha256_spec (register_body (network st)))) @
          map junk [80..<80 + 20 * peer_count st]) s)))
      (put_port client_port (uninit junk PORT_LEN))"
proof -
  have len: "length (register_body ps) = 20 * length ps" if "\<forall>p \<in> set ps. length (ip p) = IP_LEN" for ps
    using that by (induction ps) (simp_all add: NetworkAddress_bytes_def reply_entry_def IP_LEN_def)
  note body = len[OF assms(3)]
  let ?h = "ReplyHeader_bytes (register_header (peer_count st) (sha256_spec (register_body (network st))))"
  have "length ?h = 80" by (simp add: ReplyHeader_bytes_def register_header_def Let_def length_spec)
  then have "take (length (register_body (network st)) + REPLY_HEADER_LEN) (total_reply junk ?h (register_body (network st))) =
      ?h @ map junk [80..<80 + 20 * peer_count st]"
    using total_reply_prefix[of ?h "register_body (network st)" junk] assms(2) body unfolding REPLY_HEADER_LEN_def by (simp only:)
  then show ?thesis using get_data_sha_spec[OF assms(1)]
    by (cases "put_port client_port (uninit junk PORT_LEN)") (simp_all add: handle_register_def add_peer_def split_beta)
qed

definition demo_state :: "PeerAddress list \<Rightarrow> peer_state" where
  "demo_state ps = \<lparr>my_address = \<lparr>ip = replicate 16 0x31, port = replicate 8 0\<rparr>, network = ps, slots = length ps\<rparr>"

lemma register_sends_junk_witness:
  "map_option fst (handle_register (\<lambda>_. 7) any_ctx (replicate 16 0x32) 5000 (demo_state [\<lparr>ip = replicate 16 0x33, port = [0x38, 0]\<rparr>])
      \<lparr>incoming = [], outgoing = [], events = []\<rparr>) =
    map_option (\<lambda>port. (demo_state [\<lparr>ip = replicate 16 0x33, port = [0x38, 0]\<rparr>])
      \<lparr>slots := 2, network := [\<lparr>ip = replicate 16 0x33, port = [0x38, 0]\<rparr>, \<lparr>ip = replicate 16 0x32, port = port\<rparr>]\<rparr>)
      (put_port 5000 (uninit (\<lambda>_. 7) PORT_LEN))"
  by (subst register_sends_junk) (simp_all add: any_ctx_def demo_state_def IP_LEN_def option.map_comp comp_def numeral_2_eq_2)

definition peer_ok :: "PeerAddress \<Rightarrow> bool" where
  "peer_ok p \<longleftrightarrow> length (ip p) = IP_LEN \<and> length (port p) = PORT_LEN \<and> 0 \<in> set (port p)"

lemma add_peer_grows: "add_peer p st = Some st' \<Longrightarrow> network st' = network st @ [p] \<and> slots st' = slots st \<and> my_address st' = my_address st"
  by (auto simp: add_peer_def split: if_splits)

lemma handle_inform_grows:
  assumes "IP_LEN \<le> length request" "handle_inform request st = Some st'"
  shows "\<exists>p. network st' = network st @ [p] \<and> peer_ok p \<and> slots st' = peer_count st' \<and> my_address st' = my_address st"
proof -
  obtain p where p: "put_port (net_word (take_at IP_LEN 4 request)) (replicate PORT_LEN 0) = Some p"
      "add_peer \<lparr>ip = take IP_LEN request, port = p\<rparr> (st\<lparr>slots := peer_count st + 1\<rparr>) = Some st'"
    using assms(2) by (auto simp: handle_inform_def Let_def bind_eq_Some_conv)
  then show ?thesis using add_peer_grows[OF p(2)] put_port_length[OF _ p(1)] assms(1) by (simp add: peer_ok_def)
qed

lemma handle_register_grows:
  assumes "IP_LEN \<le> length client_ip" "handle_register junk ctx client_ip client_port st s = Some (st', s')"
  shows "\<exists>p. network st' = network st @ [p] \<and> peer_ok p \<and> slots st' = peer_count st' \<and> my_address st' = my_address st"
proof -
  obtain p where p: "put_port client_port (uninit junk PORT_LEN) = Some p"
      "add_peer \<lparr>ip = take IP_LEN client_ip, port = p\<rparr> (st\<lparr>slots := peer_count st + 1\<rparr>) = Some st'"
    using assms(2) by (auto simp: handle_register_def Let_def bind_eq_Some_conv split_beta)
  then show ?thesis using add_peer_grows[OF p(2)] put_port_length[OF _ p(1)] assms(1) by (simp add: peer_ok_def uninit_def)
qed

lemma handle_server_request_grows:
  assumes "length msg0 = MAX_MSG_LEN" "length buf0 = COMPSYS_BUFSIZE"
    and "handle_server_request junk ctx files buf0 msg0 st s = Some (st', s')"
  shows "st' = st \<or> (\<exists>p. network st' = network st @ [p] \<and> peer_ok p \<and> slots st' = peer_count st' \<and> my_address st' = my_address st)"
proof -
  obtain ok bytes state s1 where r: "compsys_helper_readnb REQUEST_HEADER_LEN
      (compsys_helper_readinitb \<lparr>cnt = 0, bufptr = 0, buf = buf0\<rparr>, s) = Some ((ok, bytes), state, s1)"
    using assms(3) by (auto simp: handle_server_request_def bind_eq_Some_conv)
  let ?h = "parse_request (take REQUEST_HEADER_LEN (bytes @ drop (length bytes) msg0))"
  have "IP_LEN \<le> length (rq_ip ?h)" using assms(1)
    by (simp add: parse_request_def IP_LEN_def REQUEST_HEADER_LEN_def MAX_MSG_LEN_def)
  moreover have "length (buf state) = COMPSYS_BUFSIZE"
    using readnb_length[OF r[unfolded compsys_helper_readnb_def]] assms(2) by (simp add: compsys_helper_readinitb_def)
  then have "IP_LEN \<le> length (take_at REQUEST_HEADER_LEN (IP_LEN + PORT_LEN) (buf state))"
    by (simp add: take_at_def IP_LEN_def PORT_LEN_def REQUEST_HEADER_LEN_def COMPSYS_BUFSIZE_def)
  ultimately show ?thesis
    using assms(3) handle_register_grows[of "rq_ip ?h"] handle_inform_grows[of _ st st']
    by (auto simp: handle_server_request_def Let_def r bind_eq_Some_conv split: if_splits)
qed

definition connection_ok :: "connection \<Rightarrow> bool" where
  "connection_ok c \<longleftrightarrow> length (old_buf c) = COMPSYS_BUFSIZE \<and> length (old_msg c) = MAX_MSG_LEN"

text \<open>C9: the list of peers is well formed in every state of the server: whatever bytes the
  connections send, every entry has an address of 16 bytes and a port of 8 with its terminating zero; the
  requests only add entries at the end, one each at most, so that this peer stays the first; and the
  array always has a slot for every entry.\<close>

theorem network_typed:
  assumes "list_all connection_ok cs" "peer_ok me"
    and "server_thread junk ctx files cs (initial_network me) = Some (st, ss)"
  shows "my_address st = me \<and> (\<exists>ps. network st = me # ps \<and> list_all peer_ok ps \<and> length ps \<le> length cs) \<and>
    slots st = peer_count st"
proof -
  have "my_address st' = my_address st \<and> (\<exists>ps. network st' = network st @ ps \<and> list_all peer_ok ps \<and> length ps \<le> length cs) \<and>
      slots st' = peer_count st'"
    if "list_all connection_ok cs" "server_thread junk ctx files cs st = Some (st', ss)" "slots st = peer_count st" for cs st st' ss
    using that
  proof (induction cs arbitrary: st ss)
    case (Cons c cs)
    obtain st1 s1 ss1 where c: "handle_server_request junk ctx files (old_buf c) (old_msg c) st (stream_of c) = Some (st1, s1)"
        "server_thread junk ctx files cs st1 = Some (st', ss1)"
      using Cons(3) by (auto simp: bind_eq_Some_conv)
    have g: "st1 = st \<or> (\<exists>p. network st1 = network st @ [p] \<and> peer_ok p \<and> slots st1 = peer_count st1 \<and> my_address st1 = my_address st)"
      using handle_server_request_grows[OF _ _ c(1)] Cons(2) by (simp add: connection_ok_def)
    then have "slots st1 = peer_count st1" using Cons(4) by auto
    from Cons(1)[OF _ c(2) this] Cons(2) obtain ps where
      "my_address st' = my_address st1" "network st' = network st1 @ ps" "list_all peer_ok ps" "length ps \<le> length cs"
      "slots st' = peer_count st'" by auto
    then show ?case using g by auto
  qed simp
  from this[OF assms(1,3)] show ?thesis by (auto simp: initial_network_def)
qed

definition demo_inform :: "byte list" where
  "demo_inform = replicate 16 0x31 @ [0, 0, 0, 1, 0, 0, 0, 3, 0, 0, 0, 24] @ replicate 16 0x32 @ [0, 0, 0, 80] @ replicate 4 0"

lemma demo_inform_read:
  "compsys_helper_readnb REQUEST_HEADER_LEN (compsys_helper_readinitb \<lparr>cnt = 0, bufptr = 0, buf = replicate COMPSYS_BUFSIZE 0\<rparr>,
      \<lparr>incoming = demo_inform, outgoing = [], events = []\<rparr>) =
    Some ((True, take 28 demo_inform), \<lparr>cnt = 24, bufptr = 28, buf = demo_inform @ replicate 8140 0\<rparr>,
      \<lparr>incoming = [], outgoing = [], events = []\<rparr>)"
proof -
  have l: "length demo_inform = 52" "demo_inform \<noteq> []" by (simp_all add: demo_inform_def)
  have refill: "refill_loop \<lparr>cnt = 0, bufptr = 0, buf = replicate 8192 0\<rparr> \<lparr>incoming = demo_inform, outgoing = [], events = []\<rparr> =
      (Done True, \<lparr>cnt = 52, bufptr = 0, buf = demo_inform @ replicate 8140 0\<rparr>, \<lparr>incoming = [], outgoing = [], events = []\<rparr>)"
    by (subst refill_loop.simps, subst (2) refill_loop.simps) (simp add: os_read_def next_event_def l COMPSYS_BUFSIZE_def)
  then have "reader 28 (\<lparr>cnt = 0, bufptr = 0, buf = replicate 8192 0\<rparr>, \<lparr>incoming = demo_inform, outgoing = [], events = []\<rparr>) =
      Some (Done (take 28 demo_inform), \<lparr>cnt = 24, bufptr = 28, buf = demo_inform @ replicate 8140 0\<rparr>,
        \<lparr>incoming = [], outgoing = [], events = []\<rparr>)"
    by (simp add: reader_def compsys_helper_read_def size_as_int_small l)
  then show ?thesis
    by (simp add: compsys_helper_readnb_def readnb_loop.simps[of 28] readnb_loop.simps[of 0] compsys_helper_readinitb_def l REQUEST_HEADER_LEN_def COMPSYS_BUFSIZE_def)
qed

definition demo_me :: PeerAddress where
  "demo_me = \<lparr>ip = replicate 16 0x31, port = [0x38, 0x30, 0, 0, 0, 0, 0, 0]\<rparr>"

definition demo_informed :: "PeerAddress list \<Rightarrow> peer_state" where
  "demo_informed ps = \<lparr>my_address = demo_me, network = demo_me # ps, slots = length ps + 1\<rparr>"

definition demo_connection :: connection where
  "demo_connection = \<lparr>old_buf = replicate COMPSYS_BUFSIZE 0, old_msg = replicate MAX_MSG_LEN 0,
     stream_of = \<lparr>incoming = demo_inform, outgoing = [], events = []\<rparr>\<rparr>"

lemma network_typed_witness:
  "\<exists>st ss p. server_thread (\<lambda>_. 7) any_ctx (\<lambda>_. None) [demo_connection] (initial_network demo_me) = Some (st, ss) \<and>
     network st = [demo_me, p] \<and> peer_ok p"
proof -
  have "length demo_inform = 52" by (simp add: demo_inform_def)
  then have t: "take REQUEST_HEADER_LEN (take 28 demo_inform @ rest) = take 28 demo_inform" for rest
    by (simp add: REQUEST_HEADER_LEN_def)
  have h: "parse_request (take 28 demo_inform) = \<lparr>rq_ip = replicate 16 0x31, rq_port = 1, rq_command = 3, rq_length = 24\<rparr>"
    by code_simp
  have r: "take_at REQUEST_HEADER_LEN (IP_LEN + PORT_LEN) (demo_inform @ replicate 8140 0) = drop 28 demo_inform"
    by (simp add: take_at_def REQUEST_HEADER_LEN_def IP_LEN_def PORT_LEN_def demo_inform_def)
  have i [simp]: "handle_inform (drop 28 demo_inform) (initial_network demo_me) =
      Some (demo_informed [\<lparr>ip = replicate 16 0x32, port = [0x38, 0x30, 0, 0, 0, 0, 0, 0]\<rparr>])"
    by code_simp
  have "handle_server_request (\<lambda>_. 7) any_ctx (\<lambda>_. None) (replicate COMPSYS_BUFSIZE 0) (replicate MAX_MSG_LEN 0)
       (initial_network demo_me) \<lparr>incoming = demo_inform, outgoing = [], events = []\<rparr> =
     Some (demo_informed [\<lparr>ip = replicate 16 0x32, port = [0x38, 0x30, 0, 0, 0, 0, 0, 0]\<rparr>], \<lparr>incoming = [], outgoing = [], events = []\<rparr>)"
    unfolding handle_server_request_def Let_def demo_inform_read Option.bind.simps prod.case snd_conv t h
    by (simp add: r i COMMAND_REGISTER_def COMMAND_RETREIVE_def COMMAND_INFORM_def REQUEST_HEADER_LEN_def[symmetric])
       (simp add: REQUEST_HEADER_LEN_def IP_LEN_def PORT_LEN_def COMPSYS_BUFSIZE_def)
  then have "server_thread (\<lambda>_. 7) any_ctx (\<lambda>_. None) [demo_connection] (initial_network demo_me) =
      Some (demo_informed [\<lparr>ip = replicate 16 0x32, port = [0x38, 0x30, 0, 0, 0, 0, 0, 0]\<rparr>], [\<lparr>incoming = [], outgoing = [], events = []\<rparr>])"
    by (simp add: demo_connection_def)
  moreover have "peer_ok demo_me" by (simp add: peer_ok_def demo_me_def IP_LEN_def PORT_LEN_def)
  ultimately show ?thesis
    using network_typed[of "[demo_connection]" demo_me "\<lambda>_. 7" any_ctx "\<lambda>_. None"]
    by (simp add: connection_ok_def demo_connection_def demo_informed_def)
qed

lemma potential_peers_filter:
  "potential_peers me ps = filter (\<lambda>p. \<not> (chars (ip p) = chars (ip me) \<and> chars (port p) = chars (port me))) ps"
  by (induction ps) auto

text \<open>The peer that is chosen is in the list and is not the one that chooses, every other peer
  is chosen for some random number, and with no other peer in the list there is a division by zero.\<close>

theorem random_peer_is_other:
  "(get_random_peer r st = None \<longleftrightarrow> potential_peers (my_address st) (network st) = []) \<and>
   {p. \<exists>r. get_random_peer r st = Some p} =
     {p \<in> set (network st). \<not> (chars (ip p) = chars (ip (my_address st)) \<and> chars (port p) = chars (port (my_address st)))}"
proof -
  let ?ps = "potential_peers (my_address st) (network st)"
  have "p \<in> set ?ps" if "get_random_peer r st = Some p" for p r
    using that by (auto simp: get_random_peer_def Let_def split: if_splits)
  moreover have "\<exists>r. get_random_peer r st = Some p" if "p \<in> set ?ps" for p
  proof -
    from that obtain i where "i < length ?ps" "p = ?ps ! i" by (metis in_set_conv_nth)
    then show ?thesis by (intro exI[of _ i]) (auto simp: get_random_peer_def Let_def)
  qed
  ultimately have "{p. \<exists>r. get_random_peer r st = Some p} = set ?ps" by blast
  then show ?thesis by (auto simp: get_random_peer_def Let_def potential_peers_filter)
qed

end
