(* ===== verification/PeerClient.thy ===== *)
theory PeerClient
  imports PeerServer
begin

text \<open>
  The client side of the peer of A4, \<open>send_message\<close> and \<open>client_thread\<close> of \<open>A4/peer.c\<close>: a request is
  built and sent, and the reply, which may come in several blocks, is checked and used. The files are a
  map from names to contents, on which an open only fails when there is no such file; what
  was never written in a buffer is an argument; \<open>None\<close> is a read or write outside an object.
\<close>

type_synonym file_system = "string \<Rightarrow> byte list option"

datatype message_outcome =
    Sent
  | Inconsistent_block_counts
  | Inconsistent_total_hashes
  | Unexpected_status u32
  | Payload_hash_mismatch
  | File_hash_mismatch
  | Response_code u32
  | Finished

subsection \<open>The request\<close>

definition request_header :: "PeerAddress \<Rightarrow> u32 \<Rightarrow> string \<Rightarrow> RequestHeader" where
  "request_header me command request_body =
     \<lparr>rq_ip = strncpy IP_LEN (ip me), rq_port = htonl (atoi (chars (port me))), rq_command = htonl command,
      rq_length = htonl (word_of_nat (length request_body))\<rparr>"

definition string_bytes :: "string \<Rightarrow> byte list" where
  "string_bytes t = map (\<lambda>c. word_of_nat (of_char c)) t"

definition request_message :: "PeerAddress \<Rightarrow> u32 \<Rightarrow> string \<Rightarrow> byte list" where
  "request_message me command request_body =
     RequestHeader_bytes (request_header me command request_body) @ string_bytes request_body"

subsection \<open>The reply\<close>

definition parse_reply :: "byte list \<Rightarrow> ReplyHeader" where
  "parse_reply reply_header =
     \<lparr>rp_length = net_word (take_at 0 4 reply_header), rp_status = net_word (take_at 4 4 reply_header),
      rp_this_block = net_word (take_at 8 4 reply_header), rp_block_count = net_word (take_at 12 4 reply_header),
      rp_block_hash = take_at 16 32 reply_header, rp_total_hash = take_at 48 32 reply_header\<rparr>"

text \<open>\<open>fseek\<close> from the start and \<open>fputs\<close>, on a file that is not truncated: \<open>fputs\<close> writes the bytes
  before the first zero.\<close>

definition write_at :: "nat \<Rightarrow> byte list \<Rightarrow> byte list \<Rightarrow> byte list" where
  "write_at offset bytes content =
     (if bytes = [] then content
      else take offset (content @ replicate (offset - length content) 0) @ bytes @ drop (offset + length bytes) content)"

definition fputs :: "nat \<Rightarrow> byte list \<Rightarrow> byte list \<Rightarrow> byte list" where
  "fputs offset payload content = write_at offset (takeWhile (\<lambda>b. b \<noteq> 0) payload) content"

definition block_offset :: "u32 \<Rightarrow> u32" where
  "block_offset this_block = this_block * word_of_nat (MAX_MSG_LEN - REPLY_HEADER_LEN)"

record client =
  conn :: "compsys_helper_state \<times> os"
  msg_buf :: "byte list"
  header :: ReplyHeader
  files :: file_system

definition read_into :: "nat \<Rightarrow> client \<Rightarrow> client option" where
  "read_into n c = map_option (\<lambda>(got, s). c\<lparr>conn := s, msg_buf := over (snd got) (msg_buf c)\<rparr>) (compsys_helper_readnb n (conn c))"

definition read_header :: "client \<Rightarrow> client option" where
  "read_header c = map_option (\<lambda>c. c\<lparr>header := parse_reply (take REPLY_HEADER_LEN (msg_buf c))\<rparr>) (read_into REPLY_HEADER_LEN c)"

text \<open>The status of a block: \<open>Some\<close> is the early return.\<close>

definition check_status :: "u32 \<Rightarrow> u32 \<Rightarrow> message_outcome option" where
  "check_status command reply_status =
     (if reply_status \<noteq> STATUS_OK then
        if command = COMMAND_REGISTER \<and> reply_status = STATUS_PEER_EXISTS then None else Some (Unexpected_status reply_status)
      else None)"

text \<open>The payload of a block. It goes through \<open>msg_buf\<close>, whatever its length: a longer one leaves the
  buffer.\<close>

definition block_payload :: "sha_ctx \<Rightarrow> u32 \<Rightarrow> string \<Rightarrow> client \<Rightarrow> (message_outcome option \<times> client) option" where
  "block_payload ctx command output_file_path c =
     (let n = unat (rp_length (header c))
      in if MAX_MSG_LEN < n then None else
         Option.bind (read_into n c) (\<lambda>c. let payload = take n (msg_buf c)
         in Option.bind (get_data_sha ctx payload 32) (\<lambda>payload_hash.
            if payload_hash \<noteq> rp_block_hash (header c) then Some (Some Payload_hash_mismatch, c)
            else if command = COMMAND_RETREIVE then
              (case files c output_file_path of
                 None \<Rightarrow> None
               | Some content \<Rightarrow> Some (None, c\<lparr>files := (files c)(output_file_path \<mapsto>
                   fputs (unat (block_offset (rp_this_block (header c)))) payload content)\<rparr>))
            else Some (None, c))))"

fun block_loop :: "sha_ctx \<Rightarrow> u32 \<Rightarrow> string \<Rightarrow> u32 \<Rightarrow> byte list \<Rightarrow> bool \<Rightarrow> nat \<Rightarrow> client \<Rightarrow> (message_outcome option \<times> client) option" where
  "block_loop ctx command path ref_count ref_hash first 0 c = Some (None, c)"
| "block_loop ctx command path ref_count ref_hash first (Suc left) c =
     Option.bind (if first then Some c else read_header c) (\<lambda>c.
         if \<not> first \<and> ref_count \<noteq> rp_block_count (header c) then Some (Some Inconsistent_block_counts, c)
         else if \<not> first \<and> ref_hash \<noteq> rp_total_hash (header c) then Some (Some Inconsistent_total_hashes, c)
         else
           (case check_status command (rp_status (header c)) of
              Some out \<Rightarrow> Some (Some out, c)
            | None \<Rightarrow> Option.bind (block_payload ctx command path c) (\<lambda>(out, c).
                case out of Some e \<Rightarrow> Some (Some e, c) | None \<Rightarrow> block_loop ctx command path ref_count ref_hash False left c)))"

text \<open>\<open>get_file_sha\<close>; without the file the hash is not written, and comparing it reads what was
  never written. The length of the file is stored in an \<open>int\<close>, so that of a file of 4 GB and more only the
  beginning may be read, and an array of a negative size is \<open>None\<close>. The stack is taken to hold the array.\<close>

definition get_file_sha :: "sha_ctx \<Rightarrow> file_system \<Rightarrow> string \<Rightarrow> byte list option" where
  "get_file_sha ctx fs sourcefile = Option.bind (fs sourcefile) (\<lambda>content.
     let casc_file_size = sint (word_of_nat (length content) :: i32)
     in if casc_file_size < 0 then None else get_data_sha ctx (take (nat casc_file_size) content) 32)"

text \<open>The end of a register command: only the first peer of the reply is added, into an array that is
  cut or grown to the peers of the reply and one.\<close>

definition register_reply :: "byte list \<Rightarrow> u32 \<Rightarrow> peer_state \<Rightarrow> peer_state option" where
  "register_reply reply_body reply_length st =
     (if length reply_body < IP_LEN + 4 then None else
        let peers_in_network = 1 + unat reply_length div 20
        in Option.bind (put_port (net_word (take_at IP_LEN 4 reply_body)) (replicate PORT_LEN 0)) (\<lambda>p.
           add_peer \<lparr>ip = take IP_LEN reply_body, port = p\<rparr> (st\<lparr>slots := peers_in_network\<rparr>)))"

definition finish :: "sha_ctx \<Rightarrow> u32 \<Rightarrow> string \<Rightarrow> peer_state \<Rightarrow> client \<Rightarrow> (message_outcome \<times> peer_state \<times> client) option" where
  "finish ctx command path st c =
     Option.bind (if command = COMMAND_RETREIVE then map_option (\<lambda>h. h = rp_total_hash (header c)) (get_file_sha ctx (files c) path)
                  else Some True) (\<lambda>same.
     if \<not> same then Some (File_hash_mismatch, st, c)
     else if MAX_MSG_LEN < unat (rp_length (header c)) then None
     else let reply_body = take (unat (rp_length (header c))) (msg_buf c) @ [0]
          in if rp_status (header c) = STATUS_OK then
               if command = COMMAND_REGISTER then
                 map_option (\<lambda>st. (Finished, st, c)) (register_reply reply_body (rp_length (header c)) st)
               else Some (Finished, st, c)
             else Some (Response_code (rp_status (header c)), st, c))"

text \<open>\<open>send_message\<close>: \<open>buf0\<close> and \<open>msg0\<close> are the buffers before, \<open>s\<close> the connection that was opened.\<close>

definition touch :: "string \<Rightarrow> file_system \<Rightarrow> file_system" where
  "touch path fs = (if fs path = None then fs(path \<mapsto> []) else fs)"

definition send_message ::
  "sha_ctx \<Rightarrow> byte list \<Rightarrow> byte list \<Rightarrow> u32 \<Rightarrow> string \<Rightarrow> peer_state \<Rightarrow> file_system \<Rightarrow> os \<Rightarrow> (message_outcome \<times> peer_state \<times> file_system \<times> os) option" where
  "send_message ctx buf0 msg0 command request_body st fs s =
     (let fs = (if command = COMMAND_RETREIVE then touch request_body fs else fs);
          state = compsys_helper_readinitb \<lparr>cnt = 0, bufptr = 0, buf = buf0\<rparr>;
          request = request_message (my_address st) command request_body
      in if length msg0 < length request then None else
         let (_, s) = compsys_helper_writen request s
         in if command = COMMAND_INFORM then Some (Sent, st, fs, s) else
            Option.bind (read_header \<lparr>conn = (state, s), msg_buf = over request msg0, header = parse_reply msg0, files = fs\<rparr>) (\<lambda>c.
            let ref_count = rp_block_count (header c)
            in Option.bind (block_loop ctx command request_body ref_count (rp_total_hash (header c)) True (unat ref_count) c) (\<lambda>(out, c).
               case out of
                 Some e \<Rightarrow> Some (e, st, files c, snd (conn c))
               | None \<Rightarrow> map_option (\<lambda>(e, st, c). (e, st, files c, snd (conn c))) (finish ctx command request_body st c))))"

text \<open>\<open>client_thread\<close>: register with the peer of the configuration, then retrieve two files, each from a
  peer chosen with a random number.\<close>

definition client_thread ::
  "sha_ctx \<Rightarrow> connection \<Rightarrow> connection \<Rightarrow> connection \<Rightarrow> nat \<Rightarrow> nat \<Rightarrow> peer_state \<Rightarrow> file_system \<Rightarrow>
     (peer_state \<times> file_system \<times> PeerAddress list) option" where
  "client_thread ctx c1 c2 c3 r1 r2 st fs =
     Option.bind (send_message ctx (old_buf c1) (old_msg c1) COMMAND_REGISTER [] st fs (stream_of c1)) (\<lambda>(_, st, fs, _).
     Option.bind (get_random_peer r1 st) (\<lambda>p1.
     Option.bind (send_message ctx (old_buf c2) (old_msg c2) COMMAND_RETREIVE ''tiny.txt'' st fs (stream_of c2)) (\<lambda>(_, st, fs, _).
     Option.bind (get_random_peer r2 st) (\<lambda>p2.
     Option.bind (send_message ctx (old_buf c3) (old_msg c3) COMMAND_RETREIVE ''hamlet.txt'' st fs (stream_of c3)) (\<lambda>(_, st, fs, _).
     Some (st, fs, [p1, p2]))))))"

subsection \<open>Reading\<close>

text \<open>A read of less than 2 GB has a result; it is named here, and the operations are restated over it.\<close>

definition got_into :: "nat \<Rightarrow> client \<Rightarrow> client" where
  "got_into n c = the (read_into n c)"

definition next_header :: "client \<Rightarrow> client" where
  "next_header c = (got_into REPLY_HEADER_LEN c)\<lparr>header := parse_reply (take REPLY_HEADER_LEN (msg_buf (got_into REPLY_HEADER_LEN c)))\<rparr>"

lemma read_into_eq: "n < 2147483648 \<Longrightarrow> read_into n c = Some (got_into n c)"
  using readnb_defined[of n "conn c"] by (auto simp: got_into_def read_into_def)

lemma read_header_eq: "read_header c = Some (next_header c)"
  by (simp add: read_header_def next_header_def read_into_eq REPLY_HEADER_LEN_def)

lemma block_payload_eq:
  "block_payload ctx command output_file_path c =
     (let n = unat (rp_length (header c))
      in if MAX_MSG_LEN < n then None else
         let c = got_into n c; payload = take n (msg_buf c)
         in Option.bind (get_data_sha ctx payload 32) (\<lambda>payload_hash.
            if payload_hash \<noteq> rp_block_hash (header c) then Some (Some Payload_hash_mismatch, c)
            else if command = COMMAND_RETREIVE then
              (case files c output_file_path of
                 None \<Rightarrow> None
               | Some content \<Rightarrow> Some (None, c\<lparr>files := (files c)(output_file_path \<mapsto>
                   fputs (unat (block_offset (rp_this_block (header c)))) payload content)\<rparr>))
            else Some (None, c)))"
  by (simp add: block_payload_def Let_def MAX_MSG_LEN_def read_into_eq)

lemma block_loop_eq [simp]:
  "block_loop ctx command path ref_count ref_hash first (Suc left) c =
     (let c = (if first then c else next_header c)
      in if \<not> first \<and> ref_count \<noteq> rp_block_count (header c) then Some (Some Inconsistent_block_counts, c)
         else if \<not> first \<and> ref_hash \<noteq> rp_total_hash (header c) then Some (Some Inconsistent_total_hashes, c)
         else
           (case check_status command (rp_status (header c)) of
              Some out \<Rightarrow> Some (Some out, c)
            | None \<Rightarrow> Option.bind (block_payload ctx command path c) (\<lambda>(out, c).
                case out of Some e \<Rightarrow> Some (Some e, c) | None \<Rightarrow> block_loop ctx command path ref_count ref_hash False left c)))"
  by (simp add: read_header_eq Let_def)

declare block_loop.simps(2) [simp del]

lemma send_message_eq:
  "send_message ctx buf0 msg0 command request_body st fs s =
     (let fs = (if command = COMMAND_RETREIVE then touch request_body fs else fs);
          state = compsys_helper_readinitb \<lparr>cnt = 0, bufptr = 0, buf = buf0\<rparr>;
          request = request_message (my_address st) command request_body
      in if length msg0 < length request then None else
         let (_, s) = compsys_helper_writen request s
         in if command = COMMAND_INFORM then Some (Sent, st, fs, s) else
            let c = next_header \<lparr>conn = (state, s), msg_buf = over request msg0, header = parse_reply msg0, files = fs\<rparr>;
                ref_count = rp_block_count (header c)
            in Option.bind (block_loop ctx command request_body ref_count (rp_total_hash (header c)) True (unat ref_count) c) (\<lambda>(out, c).
               case out of
                 Some e \<Rightarrow> Some (e, st, files c, snd (conn c))
               | None \<Rightarrow> map_option (\<lambda>(e, st, c). (e, st, files c, snd (conn c))) (finish ctx command request_body st c)))"
  by (simp add: send_message_def read_header_eq Let_def split_beta)

lemma file_sha_small:
  assumes "length (buffer_bytes ctx) = 64" "length content < 2147483648" "fs path = Some content"
  shows "get_file_sha ctx fs path = Some (sha256_spec content)"
  using assms get_data_sha_spec[OF assms(1)] size_as_int_small[of "length content"]
  by (simp add: get_file_sha_def size_as_int_def Let_def)

subsection \<open>Requests and replies\<close>

lemma length_strncpy [simp]: "length (strncpy n t) = n"
  by (simp add: strncpy_def)

lemma length_string_bytes [simp]: "length (string_bytes t) = length t"
  by (simp add: string_bytes_def)

text \<open>The server understands the client: the header of a request is read back as the
  address, the port number, the command and the length that were put into it, and what follows
  is the body without its terminating zero.\<close>

theorem request_understood:
  "parse_request (take REQUEST_HEADER_LEN (request_message me command body)) =
     \<lparr>rq_ip = strncpy IP_LEN (ip me), rq_port = atoi (chars (port me)), rq_command = command,
      rq_length = word_of_nat (length body)\<rparr> \<and>
   drop REQUEST_HEADER_LEN (request_message me command body) = string_bytes body"
  by (simp add: request_message_def RequestHeader_bytes_def request_header_def parse_request_def take_at_def
      REQUEST_HEADER_LEN_def IP_LEN_def)

lemma parse_reply_bytes:
  assumes "length (rp_block_hash h) = 32" "length (rp_total_hash h) = 32"
  shows "parse_reply (ReplyHeader_bytes (h\<lparr>rp_length := htonl (rp_length h), rp_status := htonl (rp_status h),
      rp_this_block := htonl (rp_this_block h), rp_block_count := htonl (rp_block_count h)\<rparr>)) = h"
  using assms by (simp add: parse_reply_def ReplyHeader_bytes_def take_at_def)

subsection \<open>What a retrieval leaves\<close>

lemma read_into_keeps: "read_into n c = Some c' \<Longrightarrow> header c' = header c \<and> files c' = files c"
  by (auto simp: read_into_def)

lemma got_into_keeps [simp]: "n < 2147483648 \<Longrightarrow> header (got_into n c) = header c" "n < 2147483648 \<Longrightarrow> files (got_into n c) = files c"
  using read_into_keeps[OF read_into_eq] by simp_all

lemma next_header_keeps [simp]: "files (next_header c) = files c"
  by (simp add: next_header_def REPLY_HEADER_LEN_def)

lemma block_payload_keeps:
  assumes "block_payload ctx command path c = Some (out, c')"
  shows "header c' = header c \<and> (q \<noteq> path \<longrightarrow> files c' q = files c q)"
  using assms by (auto simp: block_payload_def Let_def bind_eq_Some_conv dest!: read_into_keeps split: if_splits option.splits)

lemma block_loop_keeps:
  "block_loop ctx command path ref_count ref_hash first left c = Some (out, c') \<Longrightarrow>
     (q \<noteq> path \<longrightarrow> files c' q = files c q) \<and> ((first \<longrightarrow> rp_total_hash (header c) = ref_hash) \<longrightarrow> left \<noteq> 0 \<longrightarrow> out = None \<longrightarrow> rp_total_hash (header c') = ref_hash)"
proof (induction left arbitrary: first c)
  case (Suc left)
  let ?c = "if first then c else next_header c"
  show ?case
  proof (cases "(\<not> first \<and> ref_count \<noteq> rp_block_count (header ?c)) \<or> (\<not> first \<and> ref_hash \<noteq> rp_total_hash (header ?c)) \<or>
      check_status command (rp_status (header ?c)) \<noteq> None")
    case True
    then show ?thesis using Suc(2) by (auto simp: Let_def split: if_splits option.splits)
  next
    case False
    then obtain out1 c1 where p: "block_payload ctx command path ?c = Some (out1, c1)"
        "(case out1 of Some e \<Rightarrow> Some (Some e, c1) | None \<Rightarrow> block_loop ctx command path ref_count ref_hash False left c1) = Some (out, c')"
      using Suc(2) by (auto simp: Let_def bind_eq_Some_conv split: if_splits)
    note k = block_payload_keeps[OF p(1)]
    have f: "files ?c = files c" by simp
    have h: "rp_total_hash (header c1) = ref_hash" if "first \<longrightarrow> rp_total_hash (header c) = ref_hash"
      using that False k by auto
    show ?thesis
    proof (cases out1)
      case None
      then have "block_loop ctx command path ref_count ref_hash False left c1 = Some (out, c')" using p(2) by simp
      from Suc(1)[OF this] show ?thesis using h k f \<open>block_loop ctx command path ref_count ref_hash False left c1 = Some (out, c')\<close>
        by (cases "left = 0") auto
    qed (use p(2) k f in auto)
  qed
qed simp

lemma block_loop_error:
  "block_loop ctx command path ref_count ref_hash first left c = Some (Some e, c') \<Longrightarrow> e \<noteq> Finished \<and> e \<noteq> Response_code status"
proof (induction left arbitrary: first c)
  case (Suc left)
  then show ?case
    by (auto simp: Let_def bind_eq_Some_conv check_status_def block_payload_eq split: if_splits option.splits)
qed simp

lemma commands [simp]: "COMMAND_RETREIVE \<noteq> COMMAND_INFORM" "COMMAND_RETREIVE \<noteq> COMMAND_REGISTER"
    "COMMAND_REGISTER \<noteq> COMMAND_INFORM" "COMMAND_REGISTER \<noteq> COMMAND_RETREIVE"
  by (simp_all add: COMMAND_RETREIVE_def COMMAND_INFORM_def COMMAND_REGISTER_def)

text \<open>The total hash that the first header of the reply announces.\<close>

definition announced_hash :: "byte list \<Rightarrow> byte list \<Rightarrow> u32 \<Rightarrow> string \<Rightarrow> peer_state \<Rightarrow> os \<Rightarrow> byte list" where
  "announced_hash buf0 msg0 command body st s =
     (let request = request_message (my_address st) command body;
          (got, _) = the (compsys_helper_readnb REPLY_HEADER_LEN
            (compsys_helper_readinitb \<lparr>cnt = 0, bufptr = 0, buf = buf0\<rparr>, snd (compsys_helper_writen request s)))
      in take_at 48 32 (over (snd got) (over request msg0)))"

lemma first_total_hash:
  "rp_total_hash (header (next_header \<lparr>conn = (compsys_helper_readinitb \<lparr>cnt = 0, bufptr = 0, buf = buf0\<rparr>,
      snd (compsys_helper_writen (request_message (my_address st) command body) s)),
      msg_buf = over (request_message (my_address st) command body) msg0, header = h, files = fs\<rparr>)) =
    announced_hash buf0 msg0 command body st s"
  using readnb_defined[of REPLY_HEADER_LEN "(compsys_helper_readinitb \<lparr>cnt = 0, bufptr = 0, buf = buf0\<rparr>,
      snd (compsys_helper_writen (request_message (my_address st) command body) s))"]
  by (auto simp: announced_hash_def next_header_def got_into_def read_into_def parse_reply_def REPLY_HEADER_LEN_def take_at_def
      drop_take split_beta Let_def)

lemma file_sha_reads:
  assumes "length (buffer_bytes ctx) = 64" "get_file_sha ctx fs path = Some h"
  shows "\<exists>content. fs path = Some content \<and> h = sha256_spec (take (length content mod 2 ^ 32) content)"
proof -
  obtain content where c: "fs path = Some content" "\<not> sint (word_of_nat (length content) :: i32) < 0"
      "h = sha256_spec (take (nat (sint (word_of_nat (length content) :: i32))) content)"
    using assms get_data_sha_spec[OF assms(1)] by (auto simp: get_file_sha_def bind_eq_Some_conv Let_def split: if_splits)
  let ?w = "word_of_nat (length content) :: i32"
  have "uint ?w = sint ?w" using uint_sint[of ?w] sint_lt[of ?w] c(2) by (simp add: take_bit_int_eq_self)
  then have "nat (sint ?w) = unat ?w" unfolding unat_eq_nat_uint by (rule arg_cong[OF sym])
  then have "nat (sint ?w) = length content mod 2 ^ 32" by (simp only: unat_of_nat) simp
  then show ?thesis using c(1,3) by (simp only: ex_simps) blast
qed

text \<open>C38: retrieving a file changes no other file and no peer, and when the client does not report an
  error, the digest that the first header of the reply announced is the SHA-256 digest of the
  data in the file - of all of it when the file is shorter than 4 GB, otherwise of as many bytes from its
  start as its length is modulo 4 GB, which is how much of it the client reads back - whatever the server sent and however it was cut into pieces.\<close>

theorem retrieval_checked:
  assumes "length (buffer_bytes ctx) = 64"
    and "send_message ctx buf0 msg0 COMMAND_RETREIVE path st fs s = Some (out, st', fs', s')"
  shows "st' = st \<and> (\<forall>q. q \<noteq> path \<longrightarrow> fs' q = fs q) \<and>
    (out \<in> {Finished, Response_code e} \<longrightarrow> (\<exists>content. fs' path = Some content \<and>
       announced_hash buf0 msg0 COMMAND_RETREIVE path st s = sha256_spec (take (length content mod 2 ^ 32) content) \<and>
       (length content < 2 ^ 32 \<longrightarrow> announced_hash buf0 msg0 COMMAND_RETREIVE path st s = sha256_spec content)))"
proof -
  let ?r = "request_message (my_address st) COMMAND_RETREIVE path"
  let ?c = "next_header \<lparr>conn = (compsys_helper_readinitb \<lparr>cnt = 0, bufptr = 0, buf = buf0\<rparr>, snd (compsys_helper_writen ?r s)),
      msg_buf = over ?r msg0, header = parse_reply msg0, files = touch path fs\<rparr>"
  let ?n = "rp_block_count (header ?c)"
  have "Option.bind (block_loop ctx COMMAND_RETREIVE path ?n (rp_total_hash (header ?c)) True (unat ?n) ?c) (\<lambda>(o1, c). case o1 of
      Some e \<Rightarrow> Some (e, st, files c, snd (conn c))
    | None \<Rightarrow> map_option (\<lambda>(e, st, c). (e, st, files c, snd (conn c))) (finish ctx COMMAND_RETREIVE path st c)) = Some (out, st', fs', s')"
    using assms(2) by (simp add: send_message_eq Let_def split_beta split: if_splits)
  then obtain o1 c where b: "block_loop ctx COMMAND_RETREIVE path ?n (rp_total_hash (header ?c)) True (unat ?n) ?c = Some (o1, c)"
      "(case o1 of Some e \<Rightarrow> Some (e, st, files c, snd (conn c))
        | None \<Rightarrow> map_option (\<lambda>(e, st, c). (e, st, files c, snd (conn c))) (finish ctx COMMAND_RETREIVE path st c)) = Some (out, st', fs', s')"
    unfolding bind_eq_Some_conv by (metis (no_types, lifting) prod.case prod.exhaust)
  have other: "files c q = fs q" if "q \<noteq> path" for q
    using block_loop_keeps[OF b(1), of q] that by (simp add: touch_def)
  have total: "rp_total_hash (header c) = announced_hash buf0 msg0 COMMAND_RETREIVE path st s" if "o1 = None"
    using block_loop_keeps[OF b(1)] that b(1) first_total_hash[of buf0 st COMMAND_RETREIVE path s msg0]
    by (cases "unat ?n = 0") auto
  show ?thesis
  proof (cases o1)
    case (Some e)
    then show ?thesis using b block_loop_error[of ctx COMMAND_RETREIVE path] other by auto
  next
    case None
    then have "finish ctx COMMAND_RETREIVE path st c = Some (out, st', c) \<and> fs' = files c"
      using b(2) by (auto simp: finish_def bind_eq_Some_conv Let_def split: if_splits)
    moreover obtain same where "get_file_sha ctx (files c) path = Some same"
      using calculation by (auto simp: finish_def bind_eq_Some_conv)
    moreover obtain content where "files c path = Some content" "same = sha256_spec (take (length content mod 2 ^ 32) content)"
      using file_sha_reads[OF assms(1) calculation(2)] by blast
    ultimately show ?thesis using other total[OF None]
      by (auto simp: finish_def bind_eq_Some_conv Let_def split: if_splits)
  qed
qed

text \<open>A client that can still read \<open>bytes\<close>.\<close>

definition can_read :: "byte list \<Rightarrow> client \<Rightarrow> bool" where
  "can_read bytes c \<longleftrightarrow> buffer_ok (conn c) \<and> clean (snd (conn c)) \<and> unread (conn c) = bytes"

lemma got_into_gets:
  assumes "can_read (bytes @ rest) c" "length bytes < 2147483648"
  shows "can_read rest (got_into (length bytes) c)" "msg_buf (got_into (length bytes) c) = over bytes (msg_buf c)"
proof -
  obtain ok got s where r: "compsys_helper_readnb (length bytes) (conn c) = Some ((ok, got), s)"
    using readnb_defined[OF assms(2), of "conn c"] by auto
  then have "ok" "clean (snd s)"
    using readnb_clean[of "length bytes" "[]" "conn c" "(ok, got)" s] assms by (simp_all add: compsys_helper_readnb_def can_read_def)
  moreover obtain new where new: "buffer_ok s" "got = [] @ new" "unread (conn c) = new @ unread s"
      "length new = min (length bytes) (length (unread (conn c)))"
    using readnb_loop_stream[of "conn c" "length bytes" "[]" got s] r calculation(1) assms
    by (auto simp: compsys_helper_readnb_def can_read_def)
  moreover have "new = bytes \<and> unread s = rest"
    using new(3,4) assms append_eq_append_conv[of new bytes "unread s" rest] unfolding can_read_def by simp
  ultimately show "can_read rest (got_into (length bytes) c)" "msg_buf (got_into (length bytes) c) = over bytes (msg_buf c)"
    using r by (simp_all add: got_into_def read_into_def can_read_def)
qed

subsection \<open>Downloads\<close>

text \<open>What a server that follows the protocol sends for chunk \<open>i\<close> of \<open>n\<close>.\<close>

definition block_header :: "byte list \<Rightarrow> nat \<Rightarrow> nat \<Rightarrow> byte list \<Rightarrow> ReplyHeader" where
  "block_header content n i chunk = \<lparr>rp_length = word_of_nat (length chunk), rp_status = STATUS_OK,
     rp_this_block = word_of_nat i, rp_block_count = word_of_nat n,
     rp_block_hash = sha256_spec chunk, rp_total_hash = sha256_spec content\<rparr>"

definition network_order :: "ReplyHeader \<Rightarrow> ReplyHeader" where
  "network_order h = h\<lparr>rp_length := htonl (rp_length h), rp_status := htonl (rp_status h),
      rp_this_block := htonl (rp_this_block h), rp_block_count := htonl (rp_block_count h)\<rparr>"

definition block_message :: "byte list \<Rightarrow> nat \<Rightarrow> nat \<Rightarrow> byte list \<Rightarrow> byte list" where
  "block_message content n i chunk = ReplyHeader_bytes (network_order (block_header content n i chunk)) @ chunk"

fun messages :: "byte list \<Rightarrow> nat \<Rightarrow> nat \<Rightarrow> byte list list \<Rightarrow> byte list" where
  "messages content n i [] = []"
| "messages content n i (chunk # chunks) = block_message content n i chunk @ messages content n (i + 1) chunks"

definition BLOCK :: nat where "BLOCK = 8116"

lemma length_header: "length (ReplyHeader_bytes (network_order (block_header content n i chunk))) = 80"
  by (simp add: ReplyHeader_bytes_def network_order_def block_header_def length_spec)

lemma parse_header: "parse_reply (ReplyHeader_bytes (network_order (block_header content n i chunk))) = block_header content n i chunk"
  using parse_reply_bytes[of "block_header content n i chunk"] by (simp add: network_order_def block_header_def length_spec)

lemma next_header_gets:
  assumes "can_read (block_message content n i chunk @ rest) c"
  shows "can_read (chunk @ rest) (next_header c)" "header (next_header c) = block_header content n i chunk"
  using got_into_gets[of "ReplyHeader_bytes (network_order (block_header content n i chunk))" "chunk @ rest" c] assms
  by (simp_all add: next_header_def Let_def can_read_def block_message_def length_header REPLY_HEADER_LEN_def over_def parse_header)

lemma block_word: "k \<le> BLOCK \<Longrightarrow> unat (word_of_nat k :: u32) = k"
  by (simp add: BLOCK_def unsigned_of_nat take_bit_nat_eq_self)

lemma payload_gets:
  assumes "can_read (chunk @ rest) c" "length chunk \<le> BLOCK"
  shows "can_read rest (got_into (length chunk) c)" "msg_buf (got_into (length chunk) c) = over chunk (msg_buf c)"
    "take (length chunk) (msg_buf (got_into (length chunk) c)) = chunk"
proof -
  have "length chunk < 2147483648" using assms(2) by (simp add: BLOCK_def)
  note g = got_into_gets[OF assms(1) this]
  show "can_read rest (got_into (length chunk) c)" "msg_buf (got_into (length chunk) c) = over chunk (msg_buf c)" by (fact g)+
  show "take (length chunk) (msg_buf (got_into (length chunk) c)) = chunk" unfolding g by (simp add: over_def)
qed

lemma append_at_end: "0 \<notin> set bytes \<Longrightarrow> fputs (length content) bytes content = content @ bytes"
proof -
  assume "0 \<notin> set bytes"
  then have t: "takeWhile (\<lambda>b. b \<noteq> 0) bytes = bytes" unfolding takeWhile_eq_all_conv by blast
  show ?thesis unfolding fputs_def t by (simp add: write_at_def)
qed

lemma payload_step:
  assumes "length (buffer_bytes ctx) = 64" "can_read (chunk @ rest) c" "header c = block_header content n i chunk"
    and "length chunk \<le> BLOCK" "0 \<notin> set chunk" "files c path = Some old" "length old = i * BLOCK" "i * BLOCK < 2 ^ 32"
  shows "\<exists>c'. block_payload ctx COMMAND_RETREIVE path c = Some (None, c') \<and> can_read rest c' \<and>
    files c' = (files c)(path \<mapsto> old @ chunk) \<and> header c' = header c"
proof -
  note n = block_word[OF assms(4)]
  have "block_offset (word_of_nat i) = word_of_nat (i * BLOCK)"
    by (simp add: block_offset_def MAX_MSG_LEN_def REPLY_HEADER_LEN_def BLOCK_def)
  moreover have "take_bit 32 (i * BLOCK) = i * BLOCK" by (rule take_bit_nat_eq_self) (rule assms(8))
  ultimately have "unat (block_offset (word_of_nat i)) = i * BLOCK" by (simp only: unsigned_of_nat of_nat_id) simp
  then have "fputs (unat (block_offset (rp_this_block (header c)))) chunk old = old @ chunk"
    using append_at_end[OF assms(5), of old] assms(3,7) by (simp add: block_header_def)
  then show ?thesis
    using payload_gets[OF assms(2,4)] get_data_sha_spec[OF assms(1)] n assms(3,4,6)
    by (simp add: block_payload_eq Let_def block_header_def MAX_MSG_LEN_def BLOCK_def can_read_def)
qed

text \<open>All chunks but the last are full, and none has a zero byte.\<close>

fun well_cut :: "byte list list \<Rightarrow> bool" where
  "well_cut [] = True"
| "well_cut [chunk] = (length chunk \<le> BLOCK \<and> 0 \<notin> set chunk)"
| "well_cut (chunk # chunks) = (length chunk = BLOCK \<and> 0 \<notin> set chunk \<and> well_cut chunks)"

definition ready :: "byte list \<Rightarrow> nat \<Rightarrow> nat \<Rightarrow> byte list list \<Rightarrow> byte list \<Rightarrow> client \<Rightarrow> bool" where
  "ready content n i chunks rest c = (case chunks of [] \<Rightarrow> can_read rest c
     | chunk # chunks' \<Rightarrow> header c = block_header content n i chunk \<and> can_read (chunk @ messages content n (i + 1) chunks' @ rest) c)"

lemma block_loop_downloads:
  assumes "length (buffer_bytes ctx) = 64"
  shows "well_cut chunks \<Longrightarrow> files c path = Some old \<Longrightarrow> chunks \<noteq> [] \<Longrightarrow> length old = i * BLOCK \<Longrightarrow> (i + length chunks) * BLOCK \<le> 2 ^ 32 \<Longrightarrow>
    (if first then ready content n i chunks rest c else can_read (messages content n i chunks @ rest) c) \<Longrightarrow>
    \<exists>c'. block_loop ctx COMMAND_RETREIVE path (word_of_nat n) (sha256_spec content) first (length chunks) c = Some (None, c') \<and>
      can_read rest c' \<and> files c' = (files c)(path \<mapsto> old @ concat chunks) \<and>
      header c' = block_header content n (i + length chunks - 1) (last chunks)"
proof (induction chunks arbitrary: i first c old)
  case (Cons chunk chunks)
  let ?c = "if first then c else next_header c"
  have h: "header ?c = block_header content n i chunk" "can_read (chunk @ messages content n (i + 1) chunks @ rest) ?c" "files ?c = files c"
    using Cons(7) next_header_gets[of content n i chunk "messages content n (i + 1) chunks @ rest" c]
    by (auto simp: ready_def split: if_splits)
  have w: "length chunk \<le> BLOCK" "0 \<notin> set chunk" "well_cut chunks" "chunks \<noteq> [] \<longrightarrow> length chunk = BLOCK"
    using Cons(2) by (cases chunks; simp)+
  have "i * BLOCK < 2 ^ 32" using Cons(6) by (simp add: BLOCK_def)
  with payload_step[OF assms h(2) h(1) w(1,2) _ Cons(5)] h(3) Cons(3) obtain c1 where
    c1: "block_payload ctx COMMAND_RETREIVE path ?c = Some (None, c1)" "can_read (messages content n (i + 1) chunks @ rest) c1"
      "files c1 = (files c)(path \<mapsto> old @ chunk)" "header c1 = header ?c" by auto
  have "check_status COMMAND_RETREIVE (rp_status (header ?c)) = None"
    unfolding h by (simp add: check_status_def block_header_def)
  moreover have "rp_block_count (header ?c) = word_of_nat n" "rp_total_hash (header ?c) = sha256_spec content"
    unfolding h by (simp_all add: block_header_def)
  ultimately have step: "block_loop ctx COMMAND_RETREIVE path (word_of_nat n) (sha256_spec content) first (length (chunk # chunks)) c =
      block_loop ctx COMMAND_RETREIVE path (word_of_nat n) (sha256_spec content) False (length chunks) c1"
    using c1(1) by (simp add: Let_def)
  show ?case
  proof (cases "chunks = []")
    case True
    have "block_loop ctx COMMAND_RETREIVE path (word_of_nat n) (sha256_spec content) first (length (chunk # chunks)) c = Some (None, c1)"
      by (rule trans[OF step]) (simp add: True)
    then show ?thesis by (intro exI[of _ c1] conjI) (use True c1 h in \<open>simp_all del: block_loop.simps\<close>)
  next
    case False
    have "files c1 path = Some (old @ chunk)" "length (old @ chunk) = (i + 1) * BLOCK" "((i + 1) + length chunks) * BLOCK \<le> 2 ^ 32"
      using c1(3) w(4) False Cons(5,6) by simp_all
    from Cons(1)[OF w(3) this(1) False this(2,3), of False] c1(2) obtain c' where
      c': "block_loop ctx COMMAND_RETREIVE path (word_of_nat n) (sha256_spec content) False (length chunks) c1 = Some (None, c')"
        "can_read rest c'" "files c' = (files c1)(path \<mapsto> (old @ chunk) @ concat chunks)"
        "header c' = block_header content n (i + 1 + length chunks - 1) (last chunks)" by (auto simp del: append_assoc fun_upd_apply)
    show ?thesis by (intro exI[of _ c'] conjI) (use trans[OF step c'(1)] c' c1(3) False in \<open>simp_all del: block_loop.simps\<close>)
  qed
qed simp

lemma download:
  assumes "length (buffer_bytes ctx) = 64" "length buf0 = COMPSYS_BUFSIZE" "REQUEST_HEADER_LEN + length path \<le> length msg0"
    and "well_cut chunks" "chunks \<noteq> []" "length chunks * BLOCK < 2 ^ 31" "fs path \<in> {None, Some []}" "clean s"
    and "incoming s = messages (concat chunks) (length chunks) 0 chunks"
  shows "\<exists>s'. send_message ctx buf0 msg0 COMMAND_RETREIVE path st fs s = Some (Finished, st, fs(path \<mapsto> concat chunks), s')"
proof -
  let ?n = "length chunks" and ?content = "concat chunks" and ?r = "request_message (my_address st) COMMAND_RETREIVE path"
  let ?s = "snd (compsys_helper_writen ?r s)" and ?state = "compsys_helper_readinitb \<lparr>cnt = 0, bufptr = 0, buf = buf0\<rparr>"
  let ?start = "\<lparr>conn = (?state, ?s), msg_buf = over ?r msg0, header = parse_reply msg0, files = touch path fs\<rparr>"
  let ?c = "next_header ?start"
  note sent = writen_clean_sends[OF assms(8), of ?r]
  obtain chunk chunks' where ch: "chunks = chunk # chunks'" using assms(5) by (cases chunks) auto
  have "can_read (block_message ?content ?n 0 chunk @ messages ?content ?n (0 + 1) chunks') ?start"
    using sent assms(2,9) ch by (simp add: can_read_def buffer_ok_def unread_def compsys_helper_readinitb_def)
  note rd = next_header_gets[OF this]
  then have ready: "ready ?content ?n 0 chunks [] ?c" using ch by (simp add: ready_def)
  have n: "unat (word_of_nat ?n :: u32) = ?n" using assms(6)
    by (simp add: BLOCK_def unsigned_of_nat take_bit_nat_eq_self)
  have t: "files ?c path = Some []" "(files ?c)(path \<mapsto> ?content) = fs(path \<mapsto> ?content)"
    using assms(7) by (auto simp: touch_def)
  obtain c' where c': "block_loop ctx COMMAND_RETREIVE path (word_of_nat ?n) (sha256_spec ?content) True ?n ?c = Some (None, c')"
      "files c' = fs(path \<mapsto> ?content)" "header c' = block_header ?content ?n (?n - 1) (last chunks)"
    using block_loop_downloads[OF assms(1,4) t(1) assms(5), of 0 True ?content ?n "[]"] assms(6) ready t(2) by auto
  have "length (last chunks) \<le> BLOCK" using assms(4,5)
    by (induction chunks rule: well_cut.induct) auto
  then have len: "unat (word_of_nat (length (last chunks)) :: u32) = length (last chunks)" "length (last chunks) \<le> MAX_MSG_LEN"
    by (simp_all add: BLOCK_def MAX_MSG_LEN_def unsigned_of_nat take_bit_nat_eq_self)
  have "length ?content \<le> ?n * BLOCK" using assms(4)
    by (induction chunks rule: well_cut.induct) auto
  then have "get_file_sha ctx (files c') path = Some (sha256_spec ?content)"
    using assms(1,6) c'(2) by (intro file_sha_small) simp_all
  then have fin: "finish ctx COMMAND_RETREIVE path st c' = Some (Finished, st, c')"
    using c'(3) len by (simp add: finish_def block_header_def Let_def)
  have "length ?r \<le> length msg0" using assms(3)
    by (simp add: request_message_def RequestHeader_bytes_def request_header_def REQUEST_HEADER_LEN_def IP_LEN_def)
  moreover have "rp_block_count (header ?c) = word_of_nat ?n" "rp_total_hash (header ?c) = sha256_spec ?content"
    unfolding rd(2) by (simp_all add: block_header_def)
  ultimately have "send_message ctx buf0 msg0 COMMAND_RETREIVE path st fs s = Some (Finished, st, files c', snd (conn c'))"
    using c'(1) fin n by (simp add: send_message_eq Let_def split_beta)
  then show ?thesis using c'(2) by auto
qed

text \<open>C6: a text file (one without zero bytes) of less than 2 GB that a server sends in blocks that follow the
  protocol - each with its number, the
  number of blocks, its digest and that of the file - is downloaded: if the target file is absent or empty, the client has
  its buffers of the sizes of the source, the request fits the message buffer and no read or write fails, the client finishes with exactly this file, however the transfers are cut or
  interrupted, and changes nothing else.\<close>

theorem download_complete:
  assumes "length (buffer_bytes ctx) = 64" "length buf0 = COMPSYS_BUFSIZE" "REQUEST_HEADER_LEN + length path \<le> length msg0"
    and "well_cut chunks" "chunks \<noteq> []" "length chunks * BLOCK < 2 ^ 31" "fs path \<in> {None, Some []}" "clean s"
    and "incoming s = messages (concat chunks) (length chunks) 0 chunks"
  shows "\<exists>s'. send_message ctx buf0 msg0 COMMAND_RETREIVE path st fs s = Some (Finished, st, fs(path \<mapsto> concat chunks), s')"
  using assms by (rule download)

definition demo_download :: os where
  "demo_download = \<lparr>incoming = messages [0x61, 0x62] 1 0 [[0x61, 0x62]], outgoing = [], events = [Interrupt, Transfer 3]\<rparr>"

lemma download_complete_witness:
  "\<exists>s'. send_message any_ctx (replicate COMPSYS_BUFSIZE 0) (replicate MAX_MSG_LEN 0) COMMAND_RETREIVE ''t'' (initial_network demo_me)
      (\<lambda>_. None) demo_download = Some (Finished, initial_network demo_me, [''t'' \<mapsto> [0x61, 0x62]], s')"
  using download_complete[of any_ctx "replicate COMPSYS_BUFSIZE 0" "''t''" "replicate MAX_MSG_LEN 0" "[[0x61, 0x62]]"
      "\<lambda>_. None" demo_download "initial_network demo_me"]
  by (simp add: any_ctx_def REQUEST_HEADER_LEN_def MAX_MSG_LEN_def BLOCK_def clean_def demo_download_def)

lemma retrieval_checked_witness:
  "announced_hash (replicate COMPSYS_BUFSIZE 0) (replicate MAX_MSG_LEN 0) COMMAND_RETREIVE ''t'' (initial_network demo_me) demo_download =
     sha256_spec [0x61, 0x62]"
proof -
  obtain s' where "send_message any_ctx (replicate COMPSYS_BUFSIZE 0) (replicate MAX_MSG_LEN 0) COMMAND_RETREIVE ''t'' (initial_network demo_me)
      (\<lambda>_. None) demo_download = Some (Finished, initial_network demo_me, [''t'' \<mapsto> [0x61, 0x62]], s')"
    using download[of any_ctx "replicate COMPSYS_BUFSIZE 0" "''t''" "replicate MAX_MSG_LEN 0" "[[0x61, 0x62]]"
      "\<lambda>_. None" demo_download "initial_network demo_me"]
    by (auto simp: any_ctx_def REQUEST_HEADER_LEN_def MAX_MSG_LEN_def BLOCK_def clean_def demo_download_def)
  from retrieval_checked[OF _ this] show ?thesis by (simp add: any_ctx_def)
qed

subsection \<open>Registering\<close>

lemma entry_of_port:
  assumes "0 \<le> sint p" "sint p < 10000000"
  shows "\<exists>t. put_port p (replicate PORT_LEN 0) = Some t \<and> length t = PORT_LEN \<and>
    NetworkAddress_bytes (reply_entry \<lparr>ip = addr, port = t\<rparr>) = addr @ net_bytes p"
proof -
  have "put_port p (replicate PORT_LEN 0) = Some (dec_nat (nat (sint p)) @ 0 # drop (Suc (length (dec_nat (nat (sint p))))) (replicate PORT_LEN 0))"
    using put_port_small[OF assms(1)] assms by (simp add: nat_less_iff)
  then show ?thesis using put_port_length[of "replicate PORT_LEN 0" p] port_value[OF assms(1)]
    by (auto simp: NetworkAddress_bytes_def reply_entry_def host_bytes_htonl)
qed

lemma register_payload:
  assumes "length (buffer_bytes ctx) = 64" "can_read (body @ rest) c" "header c = block_header body 1 0 body" "length body \<le> BLOCK"
  shows "block_loop ctx COMMAND_REGISTER path 1 (sha256_spec body) True 1 c =
    Some (None, got_into (length body) c)"
proof -
  note n = block_word[OF assms(4)]
  have "block_payload ctx COMMAND_REGISTER path c = Some (None, got_into (length body) c)"
    using payload_gets(3)[OF assms(2,4)] get_data_sha_spec[OF assms(1)] n assms(3,4)
    by (simp add: block_payload_eq Let_def block_header_def MAX_MSG_LEN_def BLOCK_def)
  moreover have "check_status COMMAND_REGISTER (rp_status (header c)) = None"
    using assms(3) by (simp add: check_status_def block_header_def)
  ultimately show ?thesis by (simp add: Let_def)
qed

text \<open>The first peer of the network registers: of the list of peers it is sent, of any length up
  to a block, it takes the first one - with the address and the port number of the list - and ignores the
  others.\<close>

theorem register_adds_first:
  assumes "length (buffer_bytes ctx) = 64" "length buf0 = COMPSYS_BUFSIZE" "length msg0 = MAX_MSG_LEN" "clean s"
    and "length addr = IP_LEN" "0 \<le> sint p" "sint p < 10000000" "length (addr @ net_bytes p @ others) \<le> BLOCK"
    and "incoming s = block_message (addr @ net_bytes p @ others) 1 0 (addr @ net_bytes p @ others)"
  shows "\<exists>q s'. send_message ctx buf0 msg0 COMMAND_REGISTER [] (initial_network me) fs s =
      Some (Finished, \<lparr>my_address = me, network = [me, q], slots = 2 + length others div 20\<rparr>, fs, s') \<and>
    register_body [q] = addr @ net_bytes p"
proof -
  let ?st = "initial_network me" and ?b = "addr @ net_bytes p @ others"
  let ?r = "request_message (my_address ?st) COMMAND_REGISTER []"
  let ?s = "snd (compsys_helper_writen ?r s)" and ?state = "compsys_helper_readinitb \<lparr>cnt = 0, bufptr = 0, buf = buf0\<rparr>"
  let ?start = "\<lparr>conn = (?state, ?s), msg_buf = over ?r msg0, header = parse_reply msg0, files = fs\<rparr>"
  let ?c = "next_header ?start"
  have "can_read (block_message ?b 1 0 ?b @ []) ?start"
    using writen_clean_sends[OF assms(4), of ?r] assms(2,9)
    by (simp add: can_read_def buffer_ok_def unread_def compsys_helper_readinitb_def)
  note rd = next_header_gets[OF this]
  let ?c1 = "got_into (length ?b) ?c"
  have loop: "block_loop ctx COMMAND_REGISTER [] 1 (sha256_spec ?b) True 1 ?c = Some (None, ?c1)"
    by (rule register_payload[OF assms(1) rd assms(8)])
  note len = block_word[OF assms(8)]
  note body = payload_gets(3)[OF rd(1) assms(8)]
  have keep: "files ?c1 = files ?c" by (rule got_into_keeps(2)) (use assms(8) in \<open>simp add: BLOCK_def\<close>)
  obtain t where t: "put_port p (replicate PORT_LEN 0) = Some t" "NetworkAddress_bytes (reply_entry \<lparr>ip = addr, port = t\<rparr>) = addr @ net_bytes p"
    using entry_of_port[OF assms(6,7)] by blast
  have "net_word (take_at IP_LEN 4 (?b @ [0])) = p" using assms(5) net_word_bytes[of p "[]"] by (simp add: take_at_def)
  moreover have "1 + length ?b div 20 = 2 + length others div 20" using assms(5) by (simp add: IP_LEN_def)
  ultimately have "register_reply (?b @ [0]) (word_of_nat (length ?b)) ?st =
      Some \<lparr>my_address = me, network = [me, \<lparr>ip = addr, port = t\<rparr>], slots = 2 + length others div 20\<rparr>"
    using assms(5) t(1) unfolding register_reply_def len Let_def
    by (simp add: add_peer_def initial_network_def)
  then have fin: "finish ctx COMMAND_REGISTER [] ?st ?c1 =
      Some (Finished, \<lparr>my_address = me, network = [me, \<lparr>ip = addr, port = t\<rparr>], slots = 2 + length others div 20\<rparr>, ?c1)"
    using body len assms(8) rd(2) by (simp add: finish_def Let_def block_header_def MAX_MSG_LEN_def BLOCK_def)
  have "length ?r \<le> length msg0" using assms(3)
    by (simp add: request_message_def RequestHeader_bytes_def request_header_def MAX_MSG_LEN_def IP_LEN_def)
  moreover have "rp_block_count (header ?c) = 1" "rp_total_hash (header ?c) = sha256_spec ?b"
    unfolding rd(2) by (simp_all add: block_header_def)
  ultimately have "send_message ctx buf0 msg0 COMMAND_REGISTER [] ?st fs s =
      Some (Finished, \<lparr>my_address = me, network = [me, \<lparr>ip = addr, port = t\<rparr>], slots = 2 + length others div 20\<rparr>, fs, snd (conn ?c1))"
    using loop fin keep by (simp add: send_message_eq Let_def split_beta)
  then show ?thesis using t(2) by auto
qed

lemma register_adds_first_witness:
  "\<exists>q s'. send_message any_ctx (replicate COMPSYS_BUFSIZE 0) (replicate MAX_MSG_LEN 0) COMMAND_REGISTER [] (initial_network demo_me) (\<lambda>_. None)
      \<lparr>incoming = block_message (replicate 16 0x32 @ net_bytes 80 @ []) 1 0 (replicate 16 0x32 @ net_bytes 80 @ []), outgoing = [], events = []\<rparr> =
    Some (Finished, \<lparr>my_address = demo_me, network = [demo_me, q], slots = 2\<rparr>, \<lambda>_. None, s')"
  using register_adds_first[of any_ctx "replicate COMPSYS_BUFSIZE 0" "replicate MAX_MSG_LEN 0"
      "\<lparr>incoming = block_message (replicate 16 0x32 @ net_bytes 80 @ []) 1 0 (replicate 16 0x32 @ net_bytes 80 @ []), outgoing = [], events = []\<rparr>"
      "replicate 16 0x32" 80 "[]" demo_me "\<lambda>_. None"]
  by (auto simp: any_ctx_def clean_def IP_LEN_def BLOCK_def)

end
