(* ===== verification/PeerExchange.thy ===== *)
theory PeerExchange
  imports PeerClient
begin

text \<open>
  Two peers of A4 together: the register request of one peer is served by another one, whose answer the first
  reads.
\<close>

subsection \<open>Reading leaves what was sent\<close>

lemma refill_outgoing: "outgoing (snd (snd (refill_loop rp s))) = outgoing s"
proof (induction rp s rule: refill_loop.induct)
  case (1 rp s)
  obtain r s1 where r: "os_read COMPSYS_BUFSIZE s = (r, s1)" by fastforce
  show ?case using 1 r os_read_outgoing[OF r] by (subst refill_loop.simps) (auto simp: Let_def split: result.split)
qed

lemma reader_outgoing: "reader n st = Some (r, st') \<Longrightarrow> outgoing (snd st') = outgoing (snd st)"
  using refill_outgoing[of "fst st" "snd st"]
  by (auto simp: reader_def compsys_helper_read_def Let_def split: prod.splits result.splits bool.splits if_splits)

lemma readnb_loop_outgoing: "readnb_loop n b st = Some (got, st') \<Longrightarrow> outgoing (snd st') = outgoing (snd st)"
proof (induction n b st rule: readnb_loop.induct)
  case (1 n b st)
  show ?case
  proof (cases "0 < n")
    case True
    then obtain r st1 where r: "reader n st = Some (r, st1)" using 1(2) by (auto simp: readnb_loop.simps[of n b st] split: option.splits)
    then show ?thesis using 1 reader_outgoing[OF r] True by (cases r) (auto simp: readnb_loop.simps[of n b st] split: if_splits)
  qed (use 1(2) in \<open>simp add: readnb_loop.simps\<close>)
qed

text \<open>Everything a peer sent on a connection that does not fail is read.\<close>

lemma readnb_all:
  assumes "clean s" "incoming s = bytes" "length buf0 = COMPSYS_BUFSIZE" "length bytes < 2147483648"
  shows "\<exists>state s'. compsys_helper_readnb (length bytes) (compsys_helper_readinitb \<lparr>cnt = 0, bufptr = 0, buf = buf0\<rparr>, s) =
      Some ((True, bytes), state, s') \<and> clean s' \<and> outgoing s' = outgoing s"
proof -
  let ?st = "(compsys_helper_readinitb \<lparr>cnt = 0, bufptr = 0, buf = buf0\<rparr>, s)"
  have st: "buffer_ok ?st" "unread ?st = bytes"
    using assms by (simp_all add: buffer_ok_def unread_def compsys_helper_readinitb_def)
  obtain ok got st' where r: "readnb_loop (length bytes) [] ?st = Some ((ok, got), st')" using readnb_loop_defined[OF assms(4), of "[]" ?st] by auto
  have c: "ok" "clean (snd st')" using readnb_clean[OF r assms(4) st(1)] assms(1) by simp_all
  then have r': "readnb_loop (length bytes) [] ?st = Some ((True, got), st')" using r by simp
  obtain new where "got = new" "bytes = new @ unread st'" "length new = length bytes"
    using readnb_loop_stream[OF st(1) assms(4) r'] st(2) by auto
  then have "got = bytes" by simp
  moreover have "outgoing (snd st') = outgoing s" using readnb_loop_outgoing[OF r] by simp
  ultimately show ?thesis using r c by (cases st') (simp add: compsys_helper_readnb_def)
qed

subsection \<open>The server\<close>

lemma length_request: "length (request_message me command []) = REQUEST_HEADER_LEN"
  by (simp add: request_message_def RequestHeader_bytes_def request_header_def REQUEST_HEADER_LEN_def IP_LEN_def string_bytes_def)

lemma request_served:
  assumes "clean s" "incoming s = request_message me COMMAND_REGISTER []" "length buf0 = COMPSYS_BUFSIZE"
  shows "\<exists>s1. clean s1 \<and> outgoing s1 = outgoing s \<and>
    handle_server_request junk ctx fs buf0 msg0 st s = handle_register junk ctx (strncpy IP_LEN (ip me)) (atoi (chars (port me))) st s1"
proof -
  let ?r = "request_message me COMMAND_REGISTER []"
  obtain state s1 where s1: "compsys_helper_readnb REQUEST_HEADER_LEN (compsys_helper_readinitb \<lparr>cnt = 0, bufptr = 0, buf = buf0\<rparr>, s) =
      Some ((True, ?r), state, s1)" "clean s1" "outgoing s1 = outgoing s"
    using readnb_all[OF assms] unfolding length_request by (auto simp: REQUEST_HEADER_LEN_def)
  have "parse_request (take REQUEST_HEADER_LEN ?r) = \<lparr>rq_ip = strncpy IP_LEN (ip me), rq_port = atoi (chars (port me)),
      rq_command = COMMAND_REGISTER, rq_length = word_of_nat (length ([] :: string))\<rparr>"
    by (rule conjunct1[OF request_understood])
  then have p: "parse_request (take REQUEST_HEADER_LEN (?r @ rest)) = \<lparr>rq_ip = strncpy IP_LEN (ip me), rq_port = atoi (chars (port me)),
      rq_command = COMMAND_REGISTER, rq_length = word_of_nat (length ([] :: string))\<rparr>" for rest
    using length_request[of me COMMAND_REGISTER] by simp
  have "handle_server_request junk ctx fs buf0 msg0 st s = handle_register junk ctx (strncpy IP_LEN (ip me)) (atoi (chars (port me))) st s1"
    unfolding handle_server_request_def Let_def s1(1) Option.bind.simps prod.case snd_conv p by simp
  then show ?thesis using s1(2,3) by blast
qed

subsection \<open>The client\<close>

text \<open>The header as the client reads it: length and status are as meant, but the numbers of blocks, which are
  sent in the order of the host, are turned around.\<close>

definition seen_header :: "nat \<Rightarrow> byte list \<Rightarrow> ReplyHeader" where
  "seen_header count digest =
     \<lparr>rp_length = word_of_nat (count * 20), rp_status = STATUS_OK, rp_this_block = htonl 1,
      rp_block_count = htonl (rp_block_count (register_header count digest)), rp_block_hash = digest, rp_total_hash = digest\<rparr>"

lemma htonl_twice [simp]: "htonl (htonl w) = w"
  by (simp add: htonl_def le32_def word32_bits bit_simps)

lemma parse_any_reply:
  assumes "length (rp_block_hash h) = 32" "length (rp_total_hash h) = 32"
  shows "parse_reply (ReplyHeader_bytes h) = h\<lparr>rp_length := htonl (rp_length h), rp_status := htonl (rp_status h),
      rp_this_block := htonl (rp_this_block h), rp_block_count := htonl (rp_block_count h)\<rparr>"
  using parse_reply_bytes[of "h\<lparr>rp_length := htonl (rp_length h), rp_status := htonl (rp_status h),
      rp_this_block := htonl (rp_this_block h), rp_block_count := htonl (rp_block_count h)\<rparr>"] assms by simp

lemma parse_register_header:
  "length digest = 32 \<Longrightarrow> parse_reply (ReplyHeader_bytes (register_header count digest)) = seen_header count digest"
  using parse_any_reply[of "register_header count digest"]
  by (simp add: register_header_def seen_header_def STATUS_OK_def Let_def)

lemma seen_blocks: "unat (rp_block_count (seen_header count digest)) \<noteq> 0"
proof -
  have "htonl 1 \<noteq> 0" "htonl 2 \<noteq> 0" by code_simp+
  then show ?thesis by (simp add: seen_header_def register_header_def Let_def unat_eq_zero)
qed

text \<open>What the client makes of the answer with \<open>payload\<close> behind the header: the first check of the payload
  fails.\<close>

lemma register_rejected:
  assumes ctx: "length (buffer_bytes ctx) = 64" and b: "length buf1 = COMPSYS_BUFSIZE" "length msg1 = MAX_MSG_LEN"
    and s: "clean s" "incoming s = ReplyHeader_bytes (register_header count digest) @ payload"
    and l: "length digest = 32" "length payload = 20 * count" "count \<le> 28" and d: "sha256_spec payload \<noteq> digest"
  shows "\<exists>s'. send_message ctx buf1 msg1 COMMAND_REGISTER [] st fs s = Some (Payload_hash_mismatch, st, fs, s')"
proof -
  let ?r = "request_message (my_address st) COMMAND_REGISTER []"
  let ?s = "snd (compsys_helper_writen ?r s)" and ?state = "compsys_helper_readinitb \<lparr>cnt = 0, bufptr = 0, buf = buf1\<rparr>"
  let ?start = "\<lparr>conn = (?state, ?s), msg_buf = over ?r msg1, header = parse_reply msg1, files = fs\<rparr>"
  let ?c = "next_header ?start" and ?h = "ReplyHeader_bytes (register_header count digest)"
  have hl: "length ?h = REPLY_HEADER_LEN" using l(1)
    by (simp add: ReplyHeader_bytes_def register_header_def Let_def REPLY_HEADER_LEN_def)
  have "can_read (?h @ payload) ?start"
    using writen_clean_sends[OF s(1), of ?r] b(1) s(2)
    by (simp add: can_read_def buffer_ok_def unread_def compsys_helper_readinitb_def)
  note rd = got_into_gets[OF this, unfolded hl REPLY_HEADER_LEN_def, simplified, folded REPLY_HEADER_LEN_def]
  have c: "header ?c = seen_header count digest" "can_read (payload @ []) ?c"
    using rd hl parse_register_header[OF l(1)] by (simp_all add: next_header_def Let_def over_def can_read_def)
  let ?c1 = "got_into (length payload) ?c"
  have keep: "files ?c1 = files ?c" by (rule got_into_keeps(2)) (use l in simp)
  have n: "unat (rp_length (header ?c)) = length payload"
    using l(2,3) c(1) block_word[of "20 * count"] by (simp add: seen_header_def BLOCK_def mult.commute)
  have "take (length payload) (msg_buf ?c1) = payload" using payload_gets(3)[OF c(2)] l(2,3) by (simp add: BLOCK_def)
  then have "block_payload ctx COMMAND_REGISTER [] ?c = Some (Some Payload_hash_mismatch, ?c1)"
    using n l(2,3) d c(1) get_data_sha_spec[OF ctx] by (simp add: block_payload_eq Let_def MAX_MSG_LEN_def seen_header_def)
  moreover have "check_status COMMAND_REGISTER (rp_status (header ?c)) = None"
    by (simp add: c(1) check_status_def seen_header_def)
  moreover obtain k where "unat (rp_block_count (header ?c)) = Suc k"
    using seen_blocks[of count digest] c(1) not0_implies_Suc by metis
  ultimately have loop: "block_loop ctx COMMAND_REGISTER [] (rp_block_count (header ?c)) (rp_total_hash (header ?c)) True
      (unat (rp_block_count (header ?c))) ?c = Some (Some Payload_hash_mismatch, ?c1)"
    by (simp add: Let_def)
  have "length ?r \<le> length msg1" using b(2) length_request[of "my_address st"] by (simp add: REQUEST_HEADER_LEN_def MAX_MSG_LEN_def)
  then show ?thesis using loop keep by (simp add: send_message_eq Let_def split_beta)
qed

subsection \<open>The exchange\<close>

text \<open>C39: when a peer registers with another peer of this program, over connections that do not fail, the other adds
  it to its list, with its address; but the answer, of which only the header is right, is rejected and the list of the
  peer that registers stays as it was - unless what the memory of the other holds has the digest of the
  list. This is for lists of up to 28 peers.\<close>

theorem registration_one_sided:
  assumes "length (buffer_bytes ctx) = 64" "length buf0 = COMPSYS_BUFSIZE" "length buf_c = COMPSYS_BUFSIZE" "length msg_c = MAX_MSG_LEN"
    and "peer_count st \<le> 28" "\<forall>p \<in> set (network st). length (ip p) = IP_LEN"
    and "clean s" "incoming s = request_message (my_address stc) COMMAND_REGISTER []" "outgoing s = []"
    and "handle_server_request junk ctx fs buf0 msg0 st s = Some (st', s')"
    and "clean sc" "incoming sc = outgoing s'"
  shows "(\<exists>p. network st' = network st @ [\<lparr>ip = strncpy IP_LEN (ip (my_address stc)), port = p\<rparr>]) \<and>
    (sha256_spec (map junk [80..<80 + 20 * peer_count st]) = sha256_spec (register_body (network st)) \<or>
     (\<exists>sc'. send_message ctx buf_c msg_c COMMAND_REGISTER [] stc fsc sc = Some (Payload_hash_mismatch, stc, fsc, sc')))"
proof -
  let ?answer = "ReplyHeader_bytes (register_header (peer_count st) (sha256_spec (register_body (network st)))) @
      map junk [80..<80 + 20 * peer_count st]"
  obtain s1 where s1: "clean s1" "outgoing s1 = []"
      "handle_server_request junk ctx fs buf0 msg0 st s =
        handle_register junk ctx (strncpy IP_LEN (ip (my_address stc))) (atoi (chars (port (my_address stc)))) st s1"
    using request_served[OF assms(7,8,2), of junk ctx fs msg0 st] assms(9) by auto
  obtain p where p: "st' = st\<lparr>slots := peer_count st + 1, network := network st @ [\<lparr>ip = take IP_LEN (strncpy IP_LEN (ip (my_address stc))), port = p\<rparr>]\<rparr>"
      "s' = snd (compsys_helper_writen ?answer s1)"
    using assms(10) unfolding s1(3) register_sends_junk[OF assms(1,5,6)] by auto
  have "incoming sc = ?answer" using writen_clean_sends[OF s1(1), of ?answer] s1(2) p(2) assms(12) by simp
  from register_rejected[OF assms(1,3,4,11) this length_spec _ assms(5)] p(1) show ?thesis by (simp, blast)
qed

text \<open>A client with port 80 registers with the peer of the other examples, whose memory holds sevens.\<close>

definition demo_client :: PeerAddress where
  "demo_client = \<lparr>ip = replicate 16 0x32, port = [0x38, 0x30, 0, 0, 0, 0, 0, 0]\<rparr>"

lemma registration_one_sided_witness:
  "\<exists>st' s' sc'. handle_server_request (\<lambda>_. 7) any_ctx (\<lambda>_. None) (replicate COMPSYS_BUFSIZE 0) [] (initial_network demo_me)
       \<lparr>incoming = request_message demo_client COMMAND_REGISTER [], outgoing = [], events = []\<rparr> = Some (st', s') \<and>
     length (network st') = 2 \<and>
     (sha256_spec (map (\<lambda>_. 7) [80..<100]) = sha256_spec (register_body [demo_me]) \<or>
      send_message any_ctx (replicate COMPSYS_BUFSIZE 0) (replicate MAX_MSG_LEN 0) COMMAND_REGISTER [] (initial_network demo_client) (\<lambda>_. None)
       \<lparr>incoming = outgoing s', outgoing = [], events = []\<rparr> = Some (Payload_hash_mismatch, initial_network demo_client, \<lambda>_. None, sc'))"
proof -
  let ?s = "\<lparr>incoming = request_message demo_client COMMAND_REGISTER [], outgoing = [], events = []\<rparr>"
  let ?st = "initial_network demo_me"
  have ctx: "length (buffer_bytes any_ctx) = 64" by (simp add: any_ctx_def)
  have net: "peer_count ?st \<le> 28" "\<forall>p \<in> set (network ?st). length (ip p) = IP_LEN"
    by (simp_all add: initial_network_def demo_me_def IP_LEN_def)
  obtain s1 where s1: "handle_server_request (\<lambda>_. 7) any_ctx (\<lambda>_. None) (replicate COMPSYS_BUFSIZE 0) [] ?st ?s =
      handle_register (\<lambda>_. 7) any_ctx (strncpy IP_LEN (ip demo_client)) (atoi (chars (port demo_client))) ?st s1"
    using request_served[of ?s demo_client "replicate COMPSYS_BUFSIZE 0" "\<lambda>_. 7" any_ctx "\<lambda>_. None" "[]" ?st] by (auto simp: clean_def)
  have "put_port (atoi (chars (port demo_client))) (uninit (\<lambda>_. 7) PORT_LEN) \<noteq> None" by code_simp
  then obtain st' s' where r: "handle_server_request (\<lambda>_. 7) any_ctx (\<lambda>_. None) (replicate COMPSYS_BUFSIZE 0) [] ?st ?s = Some (st', s')"
    unfolding s1 register_sends_junk[OF ctx net] by auto
  from registration_one_sided[OF ctx _ _ _ net _ _ _ r, where stc = "initial_network demo_client"
      and sc = "\<lparr>incoming = outgoing s', outgoing = [], events = []\<rparr>" and buf_c = "replicate COMPSYS_BUFSIZE 0"
      and msg_c = "replicate MAX_MSG_LEN 0" and fsc = "\<lambda>_. None"]
  show ?thesis using r by (auto simp: clean_def initial_network_def)
qed

end
