(* ===== verification/PeerRace.thy ===== *)
theory PeerRace
  imports CPrelude
begin

text \<open>
  The list of peers shared by the two threads of \<open>A4/peer.c\<close>: how \<open>handle_register\<close>, \<open>handle_inform\<close>, the
  registration in \<open>send_message\<close> and \<open>get_random_peer\<close> use it, interleaved statement by statement. The array
  \<open>network\<close> points to is the list of its slots; what an entry holds is the number of the peer. A write behind an array or
  through a slot without an entry and a read of an entry that is not there are faults; what the handlers do to their own
  local variables is not here (\<open>PeerServer\<close> has it, with the port that is too long for its field). \<open>realloc\<close> and
  the assignment of its result are one step.
\<close>

datatype slot = Unset | Allocated | Peer nat

datatype who = Server | Client

datatype fault = Behind_network | Without_entry | Behind_reply | Bad_read

datatype act =
    Realloc_next
  | Realloc_reply nat
  | Malloc_entry
  | Lock
  | Copy_peer nat
  | Count_up
  | Unlock
  | Size_reply
  | Reply_test nat
  | Read_entry nat
  | Write_entry nat
  | Pick_test nat

text \<open>\<open>reply_size\<close> is the length of the array \<open>reply_body\<close> of the request the server works on.\<close>

record shared =
  network :: "slot list"
  peer_count :: nat
  mutex :: "who option"
  reply_size :: nat

text \<open>The statements that add a peer: of the server for a request, and of the client for a reply of
  \<open>k\<close> entries.\<close>

definition server_adds :: "nat \<Rightarrow> act list" where
  "server_adds p = [Realloc_next, Malloc_entry, Lock, Copy_peer p, Count_up, Unlock]"

definition client_adds :: "nat \<Rightarrow> nat \<Rightarrow> act list" where
  "client_adds k p = [Realloc_reply k, Lock, Malloc_entry, Copy_peer p, Count_up, Unlock]"

text \<open>\<open>handle_register\<close> fills the reply from the list before it adds the peer; the client picks a random peer before each
  of its two retrievals.\<close>

definition register_acts :: "nat \<Rightarrow> act list" where
  "register_acts p = [Size_reply, Reply_test 0] @ server_adds p"

definition client_acts :: "nat \<Rightarrow> nat \<Rightarrow> act list" where
  "client_acts k p = client_adds k p @ [Pick_test 0, Pick_test 0]"

definition fill_entry :: "nat \<Rightarrow> act list" where
  "fill_entry i = [Lock, Read_entry i, Unlock, Write_entry i]"

text \<open>The tests of the two loops go on with the body or not.\<close>

fun continue :: "act \<Rightarrow> shared \<Rightarrow> act list" where
  "continue (Reply_test i) s = (if i < peer_count s then fill_entry i @ [Reply_test (i + 1)] else [])"
| "continue (Pick_test i) s = (if i < peer_count s then [Read_entry i, Pick_test (i + 1)] else [])"
| "continue a s = []"

definition realloc :: "nat \<Rightarrow> slot list \<Rightarrow> slot list" where
  "realloc n xs = take n xs @ replicate (n - length xs) Unset"

text \<open>A statement: \<open>None\<close> when it has to wait.\<close>

fun execute :: "who \<Rightarrow> act \<Rightarrow> shared \<Rightarrow> (fault + shared) option" where
  "execute w Realloc_next s = Some (Inr (s\<lparr>network := realloc (peer_count s + 1) (network s)\<rparr>))"
| "execute w (Realloc_reply k) s = Some (Inr (s\<lparr>network := realloc (1 + k) (network s)\<rparr>))"
| "execute w Malloc_entry s =
     Some (if peer_count s < length (network s) then Inr (s\<lparr>network := (network s)[peer_count s := Allocated]\<rparr>) else Inl Behind_network)"
| "execute w Lock s = (if mutex s = None then Some (Inr (s\<lparr>mutex := Some w\<rparr>)) else None)"
| "execute w (Copy_peer p) s =
     Some (if length (network s) \<le> peer_count s then Inl Behind_network
       else if network s ! peer_count s = Unset then Inl Without_entry
       else Inr (s\<lparr>network := (network s)[peer_count s := Peer p]\<rparr>))"
| "execute w Count_up s = Some (Inr (s\<lparr>peer_count := peer_count s + 1\<rparr>))"
| "execute w Unlock s = Some (Inr (s\<lparr>mutex := None\<rparr>))"
| "execute w Size_reply s = Some (Inr (s\<lparr>reply_size := peer_count s\<rparr>))"
| "execute w (Read_entry i) s = Some (if i < length (network s) \<and> network s ! i \<notin> {Unset, Allocated} then Inr s else Inl Bad_read)"
| "execute w (Write_entry i) s = Some (if i < reply_size s then Inr s else Inl Behind_reply)"
| "execute w (Reply_test i) s = Some (Inr s)"
| "execute w (Pick_test i) s = Some (Inr s)"

text \<open>The threads: what is left of the request or reply each is working on; the server takes requests for ever.
  \<open>added\<close> counts the additions that have been counted.\<close>

record system =
  shared :: shared
  server :: "act list"
  client :: "act list"
  added :: nat

definition counts :: "act \<Rightarrow> nat" where
  "counts a = (if a = Count_up then 1 else 0)"

definition set_acts :: "who \<Rightarrow> act list \<Rightarrow> system \<Rightarrow> system" where
  "set_acts w acts s = (case w of Server \<Rightarrow> s\<lparr>server := acts\<rparr> | Client \<Rightarrow> s\<lparr>client := acts\<rparr>)"

definition acts_of :: "who \<Rightarrow> system \<Rightarrow> act list" where
  "acts_of w s = (case w of Server \<Rightarrow> server s | Client \<Rightarrow> client s)"

inductive race_step :: "system \<Rightarrow> fault + system \<Rightarrow> bool" where
  inform: "server s = [] \<Longrightarrow> race_step s (Inr (s\<lparr>server := server_adds p\<rparr>))"
| register: "server s = [] \<Longrightarrow> race_step s (Inr (s\<lparr>server := register_acts p\<rparr>))"
| fault: "acts_of w s = a # rest \<Longrightarrow> execute w a (shared s) = Some (Inl f) \<Longrightarrow> race_step s (Inl f)"
| act: "acts_of w s = a # rest \<Longrightarrow> execute w a (shared s) = Some (Inr sh) \<Longrightarrow>
    race_step s (Inr (set_acts w (continue a (shared s) @ rest) (s\<lparr>shared := sh, added := added s + counts a\<rparr>)))"

inductive race_run :: "system \<Rightarrow> fault + system \<Rightarrow> bool" where
  start: "race_run s (Inr s)"
| more: "race_run s (Inr s') \<Longrightarrow> race_step s' r \<Longrightarrow> race_run s r"

text \<open>\<open>main\<close>: the list holds the address of the peer itself.\<close>

definition network_start :: "act list \<Rightarrow> system" where
  "network_start c = \<lparr>shared = \<lparr>network = [Peer 0], peer_count = 1, mutex = None, reply_size = 0\<rparr>, server = [], client = c, added = 0\<rparr>"

subsection \<open>The server alone\<close>

definition complete :: "shared \<Rightarrow> bool" where
  "complete s \<longleftrightarrow> peer_count s \<le> length (network s) \<and> (\<forall>i < peer_count s. \<exists>p. network s ! i = Peer p)"

text \<open>What holds of the next slot after \<open>i\<close> statements of an addition.\<close>

definition next_slot :: "nat \<Rightarrow> shared \<Rightarrow> bool" where
  "next_slot i s \<longleftrightarrow> (i \<in> {1, 2, 3, 4} \<longrightarrow> peer_count s < length (network s)) \<and>
     (i \<in> {2, 3, 4} \<longrightarrow> network s ! peer_count s \<noteq> Unset) \<and>
     (i = 4 \<longrightarrow> (\<exists>p. network s ! peer_count s = Peer p))"

text \<open>Where the server can be: before or inside the reply, or inside the addition.\<close>

definition replying :: "act list \<Rightarrow> shared \<Rightarrow> bool" where
  "replying acts s \<longleftrightarrow> (\<exists>p. acts = register_acts p \<or>
     reply_size s = peer_count s \<and> ((\<exists>i. acts = Reply_test i # server_adds p) \<or>
       (\<exists>i < peer_count s. \<exists>j < 4. acts = drop j (fill_entry i) @ Reply_test (i + 1) # server_adds p)))"

definition adding :: "act list \<Rightarrow> shared \<Rightarrow> bool" where
  "adding acts s \<longleftrightarrow> (\<exists>i p. i \<le> 6 \<and> acts = drop i (server_adds p) \<and> next_slot i s)"

definition alone :: "system \<Rightarrow> bool" where
  "alone s \<longleftrightarrow> client s = [] \<and> complete (shared s) \<and> (replying (server s) (shared s) \<or> adding (server s) (shared s))"

lemma realloc_next: "c \<le> length xs \<Longrightarrow> length (realloc (c + 1) xs) = c + 1 \<and> (\<forall>i < c. realloc (c + 1) xs ! i = xs ! i)"
  by (auto simp: realloc_def nth_append)

lemma length_adds [simp]: "length (server_adds p) = 6"
  by (simp add: server_adds_def)

lemma adds_nth: "i < 6 \<Longrightarrow> drop i (server_adds p) = server_adds p ! i # drop (Suc i) (server_adds p)"
  by (simp add: Cons_nth_drop_Suc)

lemma complete_update: "complete s \<Longrightarrow> complete (s\<lparr>network := (network s)[peer_count s := x]\<rparr>)"
  by (simp add: complete_def)

lemma complete_count: "complete s \<Longrightarrow> next_slot 4 s \<Longrightarrow> complete (s\<lparr>peer_count := peer_count s + 1\<rparr>)"
  by (auto simp: complete_def next_slot_def less_Suc_eq)

lemma adds_execute:
  assumes c: "complete sh" and n: "next_slot i sh" and i: "i < 6" and e: "execute Server (server_adds p ! i) sh = Some r"
  shows "\<exists>sh'. r = Inr sh' \<and> complete sh' \<and> next_slot (Suc i) sh' \<and> continue (server_adds p ! i) sh = []"
proof -
  have "i = 0 \<or> i = 1 \<or> i = 2 \<or> i = 3 \<or> i = 4 \<or> i = 5" using i by auto
  then consider "i = 0" | "i = 1" | "i = 2" | "i = 3" | "i = 4" | "i = 5" by blast
  then show ?thesis
  proof cases
    case 1
    then have "r = Inr (sh\<lparr>network := realloc (peer_count sh + 1) (network sh)\<rparr>)" using e by (simp add: server_adds_def)
    then show ?thesis using 1 c realloc_next[of "peer_count sh" "network sh"] by (simp add: complete_def next_slot_def server_adds_def)
  next
    case 2
    then have "r = Inr (sh\<lparr>network := (network sh)[peer_count sh := Allocated]\<rparr>)"
      using e n by (simp add: server_adds_def next_slot_def)
    then show ?thesis using 2 n complete_update[OF c] by (simp add: next_slot_def server_adds_def)
  next
    case 3
    then have "r = Inr (sh\<lparr>mutex := Some Server\<rparr>)" using e by (simp add: server_adds_def split: if_splits)
    then show ?thesis using 3 n c by (simp add: next_slot_def complete_def server_adds_def)
  next
    case 4
    then have "r = Inr (sh\<lparr>network := (network sh)[peer_count sh := Peer p]\<rparr>)"
      using e n by (simp add: server_adds_def next_slot_def)
    then show ?thesis using 4 n complete_update[OF c] by (simp add: next_slot_def server_adds_def)
  next
    case 5
    then have "r = Inr (sh\<lparr>peer_count := peer_count sh + 1\<rparr>)" using e by (simp add: server_adds_def)
    then show ?thesis using 5 n complete_count[OF c] by (simp add: next_slot_def server_adds_def)
  next
    case 6
    then have "r = Inr (sh\<lparr>mutex := None\<rparr>)" using e by (simp add: server_adds_def)
    then show ?thesis using 6 c by (simp add: next_slot_def complete_def server_adds_def)
  qed
qed

lemma adding_execute:
  assumes "complete sh" "adding (a # rest) sh" "execute Server a sh = Some r"
  shows "\<exists>sh'. r = Inr sh' \<and> complete sh' \<and> adding (continue a sh @ rest) sh'"
proof -
  obtain i p where i: "i \<le> 6" "a # rest = drop i (server_adds p)" "next_slot i sh" using assms(2) by (auto simp: adding_def)
  have "i < 6" using i(1,2) by (cases "i = 6") auto
  with adds_nth[of i p] i(2) have a: "a = server_adds p ! i" "rest = drop (Suc i) (server_adds p)" by auto
  from adds_execute[OF assms(1) i(3) \<open>i < 6\<close>, of p r] assms(3) a(1) obtain sh' where
    "r = Inr sh'" "complete sh'" "next_slot (Suc i) sh'" "continue a sh = []" by auto
  then show ?thesis using a(2) \<open>i < 6\<close> unfolding adding_def by (intro exI[of _ sh'] conjI exI[of _ "Suc i"] exI[of _ p]) simp_all
qed

lemma adding_start: "adding (server_adds p) s"
  unfolding adding_def by (intro exI[of _ 0] exI[of _ p]) (simp add: next_slot_def)

lemma complete_frame: "network s' = network s \<Longrightarrow> peer_count s' = peer_count s \<Longrightarrow> complete s' = complete s"
  by (simp add: complete_def)

lemma replying_execute:
  assumes c: "complete sh" and s: "replying (a # rest) sh" and e: "execute Server a sh = Some r"
  shows "\<exists>sh'. r = Inr sh' \<and> complete sh' \<and> (replying (continue a sh @ rest) sh' \<or> adding (continue a sh @ rest) sh')"
proof -
  obtain p where "a # rest = register_acts p \<or>
     reply_size sh = peer_count sh \<and> ((\<exists>i. a # rest = Reply_test i # server_adds p) \<or>
       (\<exists>i < peer_count sh. \<exists>j < 4. a # rest = drop j (fill_entry i) @ Reply_test (i + 1) # server_adds p))"
    using s by (auto simp: replying_def)
  then consider (size) "a # rest = register_acts p" | (test) i where "reply_size sh = peer_count sh" "a = Reply_test i" "rest = server_adds p"
    | (entry) i j where "reply_size sh = peer_count sh" "i < peer_count sh" "j < 4" "a # rest = drop j (fill_entry i) @ Reply_test (i + 1) # server_adds p"
    by blast
  then show ?thesis
  proof cases
    case size
    then have a: "a = Size_reply" "rest = Reply_test 0 # server_adds p" by (simp_all add: register_acts_def)
    then have "r = Inr (sh\<lparr>reply_size := peer_count sh\<rparr>)" using e by simp
    moreover have "replying rest (sh\<lparr>reply_size := peer_count sh\<rparr>)" using a(2) by (auto simp: replying_def)
    ultimately show ?thesis using a(1) c by (simp add: complete_def)
  next
    case test
    then have "r = Inr sh" using e by simp
    moreover have "replying (continue a sh @ rest) sh \<or> adding (continue a sh @ rest) sh"
    proof (cases "i < peer_count sh")
      case True
      then have "continue a sh @ rest = drop 0 (fill_entry i) @ Reply_test (i + 1) # server_adds p" using test by simp
      then show ?thesis unfolding replying_def using True test(1) zero_less_numeral by metis
    next
      case False
      then show ?thesis using test adding_start by simp
    qed
    ultimately show ?thesis using c by blast
  next
    case entry
    from entry(3) have "j = 0 \<or> j = 1 \<or> j = 2 \<or> j = 3" by auto
    then have n: "a # rest = fill_entry i ! j # drop (Suc j) (fill_entry i) @ Reply_test (i + 1) # server_adds p"
      using entry(4) by (auto simp: fill_entry_def)
    have k: "continue a sh = []" using n \<open>j = 0 \<or> j = 1 \<or> j = 2 \<or> j = 3\<close> by (auto simp: fill_entry_def)
    have "i < length (network sh) \<and> network sh ! i \<notin> {Unset, Allocated}" using c entry(2) by (force simp: complete_def)
    then obtain sh' where sh': "r = Inr sh'" "network sh' = network sh" "peer_count sh' = peer_count sh" "reply_size sh' = reply_size sh"
      using n e \<open>j = 0 \<or> j = 1 \<or> j = 2 \<or> j = 3\<close> entry(1,2) by (auto simp: fill_entry_def split: if_splits)
    have "replying rest sh'"
    proof (cases "j = 3")
      case True
      then have "rest = Reply_test (i + 1) # server_adds p" using n by (simp add: fill_entry_def)
      then show ?thesis using sh'(3,4) entry(1) by (auto simp: replying_def)
    next
      case False
      then have "Suc j < 4" using entry(3) by simp
      moreover have "rest = drop (Suc j) (fill_entry i) @ Reply_test (i + 1) # server_adds p" using n by simp
      ultimately show ?thesis unfolding replying_def sh'(3,4) using entry(1,2) by blast
    qed
    then show ?thesis using sh' k complete_frame[OF sh'(2,3)] c by auto
  qed
qed

lemma alone_step: "race_step s r \<Longrightarrow> alone s \<Longrightarrow> \<exists>s'. r = Inr s' \<and> alone s'"
proof (induction rule: race_step.induct)
  case (inform s p)
  then show ?case using adding_start by (simp add: alone_def)
next
  case (register s p)
  then show ?case by (auto simp: alone_def replying_def)
next
  case (fault w s a rest f)
  then have s: "server s = a # rest" "execute Server a (shared s) = Some (Inl f)" by (cases w; simp add: acts_of_def alone_def)+
  then show ?case using fault(3) adding_execute[of "shared s" a rest "Inl f"] replying_execute[of "shared s" a rest "Inl f"]
    by (auto simp: alone_def)
next
  case (act w s a rest sh)
  then have s: "server s = a # rest" "execute Server a (shared s) = Some (Inr sh)" "w = Server" by (cases w; simp add: acts_of_def alone_def)+
  then show ?case using act(3) adding_execute[of "shared s" a rest "Inr sh"] replying_execute[of "shared s" a rest "Inr sh"]
    by (auto simp: alone_def set_acts_def)
qed

lemma alone_run: "race_run s r \<Longrightarrow> alone s \<Longrightarrow> \<exists>s'. r = Inr s' \<and> alone s'"
proof (induction rule: race_run.induct)
  case (more s s' r)
  then show ?case using alone_step by blast
qed auto

subsection \<open>Both threads\<close>

text \<open>A thread is in a critical section when the next use of the mutex is to leave it.\<close>

fun inside :: "act list \<Rightarrow> bool" where
  "inside (Lock # acts) = False"
| "inside (Unlock # acts) = True"
| "inside (Reply_test i # acts) = False"
| "inside (a # acts) = inside acts"
| "inside [] = False"

text \<open>The statements lock and unlock in turn; \<open>held\<close>: the thread holds the mutex before them.\<close>

fun balanced :: "bool \<Rightarrow> act list \<Rightarrow> bool" where
  "balanced held [] \<longleftrightarrow> \<not> held"
| "balanced held (a # acts) \<longleftrightarrow> (case a of Lock \<Rightarrow> \<not> held \<and> balanced True acts | Unlock \<Rightarrow> held \<and> balanced False acts
     | Reply_test i \<Rightarrow> \<not> held \<and> balanced held acts | Pick_test i \<Rightarrow> \<not> held \<and> balanced held acts | _ \<Rightarrow> balanced held acts)"

lemma balanced_inside: "balanced held acts \<Longrightarrow> inside acts \<longleftrightarrow> held"
  by (induction acts arbitrary: held rule: inside.induct) (auto split: act.splits)

lemma balanced_continue: "balanced held (a # rest) \<Longrightarrow> a \<noteq> Lock \<Longrightarrow> a \<noteq> Unlock \<Longrightarrow> balanced held (continue a sh @ rest)"
  by (cases a) (auto simp: fill_entry_def)

lemma balanced_acts: "balanced False (server_adds p)" "balanced False (register_acts p)" "balanced False (client_acts k p)"
  by (simp_all add: server_adds_def register_acts_def client_acts_def client_adds_def)

text \<open>The mutex is held by exactly the thread inside its critical section.\<close>

definition locked :: "system \<Rightarrow> bool" where
  "locked s \<longleftrightarrow> (\<forall>w. balanced (mutex (shared s) = Some w) (acts_of w s)) \<and> peer_count (shared s) = 1 + added s"

lemma execute_frame:
  assumes "execute w a sh = Some (Inr sh')"
  shows "peer_count sh' = peer_count sh + counts a" "a = Lock \<Longrightarrow> mutex sh = None \<and> mutex sh' = Some w" "a = Unlock \<Longrightarrow> mutex sh' = None"
    "a \<noteq> Lock \<Longrightarrow> a \<noteq> Unlock \<Longrightarrow> mutex sh' = mutex sh"
  using assms by (cases a; auto simp: counts_def split: if_splits)+

lemma acts_set [simp]: "acts_of v (set_acts w acts s) = (if v = w then acts else acts_of v s)" "shared (set_acts w acts s) = shared s"
    "added (set_acts w acts s) = added s" "acts_of w (s\<lparr>shared := sh, added := n\<rparr>) = acts_of w s"
  by (cases v; cases w; simp add: acts_of_def set_acts_def)+

lemma locked_step: "race_step s r \<Longrightarrow> locked s \<Longrightarrow> r = Inr s' \<Longrightarrow> locked s'"
proof (induction arbitrary: s' rule: race_step.induct)
  case (inform s p)
  then show ?case using balanced_acts by (auto simp: locked_def acts_of_def split: who.splits)
next
  case (register s p)
  then show ?case using balanced_acts by (auto simp: locked_def acts_of_def split: who.splits)
next
  case (act w s a rest sh)
  note f = execute_frame[OF act(2)]
  have l: "\<And>v. balanced (mutex (shared s) = Some v) (acts_of v s)" "peer_count (shared s) = 1 + added s"
    using act(3) by (simp_all add: locked_def)
  note b = l(1)[of w, unfolded act(1)] l
  have own: "balanced (mutex sh = Some w) (continue a (shared s) @ rest)"
    using b(1) f(2-4) balanced_continue[OF b(1)] by (cases "a = Lock"; cases "a = Unlock"; simp)
  have "balanced (mutex sh = Some v) (acts_of v s)" if "v \<noteq> w" for v
  proof -
    have "mutex (shared s) = Some w" if "a = Unlock" using b(1) that by simp
    then have "(mutex sh = Some v) = (mutex (shared s) = Some v)" using f(2-4) \<open>v \<noteq> w\<close> by (cases "a = Lock"; cases "a = Unlock"; simp)
    then show ?thesis using b(2)[of v] by simp
  qed
  with own show ?case using act(4) b(3) f(1) by (auto simp: locked_def)
qed simp

lemma locked_run: "race_run s r \<Longrightarrow> locked s \<Longrightarrow> r = Inr s' \<Longrightarrow> locked s'"
proof (induction arbitrary: s' rule: race_run.induct)
  case (more s s' r s'')
  then show ?case using locked_step by blast
qed auto

lemma locked_apart:
  assumes "locked s" shows "\<not> (inside (server s) \<and> inside (client s))" "peer_count (shared s) = 1 + added s"
proof -
  have "balanced (mutex (shared s) = Some w) (acts_of w s)" for w using assms by (simp add: locked_def)
  from this[of Server] this[of Client] have "inside (server s) \<longleftrightarrow> mutex (shared s) = Some Server" "inside (client s) \<longleftrightarrow> mutex (shared s) = Some Client"
    by (simp_all add: acts_of_def balanced_inside)
  then show "\<not> (inside (server s) \<and> inside (client s))" by simp
  show "peer_count (shared s) = 1 + added s" using assms by (simp add: locked_def)
qed

subsection \<open>Faults\<close>

definition turn :: "who \<Rightarrow> system \<Rightarrow> (fault + system) option" where
  "turn w s =
     (case acts_of w s of [] \<Rightarrow> None
      | a # rest \<Rightarrow>
          map_option (map_sum (\<lambda>f. f) (\<lambda>sh. set_acts w (continue a (shared s) @ rest) (s\<lparr>shared := sh, added := added s + counts a\<rparr>)))
            (execute w a (shared s)))"

fun schedule :: "who list \<Rightarrow> system \<Rightarrow> (fault + system) option" where
  "schedule [] s = Some (Inr s)"
| "schedule (w # ws) s =
     (case turn w s of None \<Rightarrow> None | Some (Inl f) \<Rightarrow> Some (Inl f) | Some (Inr s') \<Rightarrow> schedule ws s')"

lemma turn_step:
  assumes "turn w s = Some r" shows "race_step s r"
proof -
  obtain a rest x where x: "acts_of w s = a # rest" "execute w a (shared s) = Some x"
      "r = map_sum (\<lambda>f. f) (\<lambda>sh. set_acts w (continue a (shared s) @ rest) (s\<lparr>shared := sh, added := added s + counts a\<rparr>)) x"
    using assms by (auto simp: turn_def split: list.splits)
  then show ?thesis using race_step.fault[of w s a rest] race_step.act[of w s a rest] by (cases x) auto
qed

lemma schedule_run: "schedule ws s = Some r \<Longrightarrow> race_run s0 (Inr s) \<Longrightarrow> race_run s0 r"
proof (induction ws arbitrary: s)
  case (Cons w ws)
  show ?case
  proof (cases "turn w s")
    case (Some x)
    then have x: "race_run s0 x" using Cons.prems(2) turn_step race_run.more by blast
    then show ?thesis using Cons Some by (cases x) auto
  qed (use Cons.prems in simp)
qed simp

lemmas run_defs = network_start_def server_adds_def client_adds_def register_acts_def client_acts_def fill_entry_def turn_def realloc_def
  acts_of_def set_acts_def numeral_eq_Suc nth_append

text \<open>The server has made room and allocated the entry; then the client adds its peer, and the server copies
  into the slot behind it.\<close>

lemma addition_schedule:
  "\<exists>f \<in> {Behind_network, Without_entry}.
     schedule ([Server, Server] @ replicate 6 Client @ [Server, Server]) ((network_start (client_acts k q))\<lparr>server := server_adds p\<rparr>) = Some (Inl f)"
proof (cases k)
  case (Suc k')
  show ?thesis
    by (cases k') (simp_all add: Suc run_defs)
qed (simp add: run_defs)

text \<open>The server has taken room for the entries of its reply; then the client adds its peer, and the server's loop goes on to the new entry.\<close>

lemma reply_schedule:
  "schedule (Server # replicate 6 Client @ replicate 10 Server) ((network_start (client_acts (Suc k) q))\<lparr>server := register_acts p\<rparr>) = Some (Inl Behind_reply)"
  by (simp add: run_defs)

text \<open>C10: as long as no client runs, the server keeps the list complete and never faults: every slot below the
  count holds a peer, and its replies fit. With the client the mutex still keeps the two threads out of each other's critical
  sections, and no increment of the count is lost; but the room for the next peer is made, and on the server its entry allocated,
  outside of them, so that for every length of the reply some interleaving writes behind
  the array or through a slot without an entry; and the loop that fills a reply, which locks for each entry alone, can run behind the reply.\<close>

theorem network_shared:
  "(race_run (network_start []) r \<longrightarrow> (\<exists>s. r = Inr s \<and> complete (shared s))) \<and>
   (race_run (network_start (client_acts k q)) (Inr s) \<longrightarrow>
      \<not> (inside (server s) \<and> inside (client s)) \<and> peer_count (shared s) = 1 + added s) \<and>
   (\<exists>f \<in> {Behind_network, Without_entry}. race_run (network_start (client_acts k q)) (Inl f)) \<and>
   (0 < k \<longrightarrow> race_run (network_start (client_acts k q)) (Inl Behind_reply))"
proof (intro conjI impI)
  have "alone (network_start [])"
    unfolding alone_def adding_def
    by (intro conjI disjI2 exI[of _ 6] exI[of _ 0]) (simp_all add: network_start_def complete_def next_slot_def server_adds_def)
  then show "\<exists>s. r = Inr s \<and> complete (shared s)" if "race_run (network_start []) r"
    using alone_run[OF that] by (auto simp: alone_def)
  have "locked (network_start (client_acts k q))"
    using balanced_acts by (auto simp: locked_def network_start_def acts_of_def split: who.splits)
  then have "locked s" if "race_run (network_start (client_acts k q)) (Inr s)" using locked_run[OF that] by blast
  then show "peer_count (shared s) = 1 + added s" "\<not> (inside (server s) \<and> inside (client s))"
    if "race_run (network_start (client_acts k q)) (Inr s)"
    using locked_apart that by blast+
  have i: "race_run (network_start (client_acts k q)) (Inr ((network_start (client_acts k q))\<lparr>server := server_adds 7\<rparr>))"
    by (rule race_run.more[OF race_run.start race_step.inform]) (simp add: network_start_def)
  then show "\<exists>f \<in> {Behind_network, Without_entry}. race_run (network_start (client_acts k q)) (Inl f)"
    using addition_schedule[where k = k and q = q and p = 7] schedule_run[OF _ i] by blast
  have r: "race_run (network_start (client_acts k q)) (Inr ((network_start (client_acts k q))\<lparr>server := register_acts 7\<rparr>))"
    by (rule race_run.more[OF race_run.start race_step.register]) (simp add: network_start_def)
  show "race_run (network_start (client_acts k q)) (Inl Behind_reply)" if k: "0 < k"
  proof -
    obtain j where "k = Suc j" using k by (cases k) auto
    with schedule_run[OF reply_schedule[where k = j and q = q and p = 7]] r show ?thesis by simp
  qed
qed

text \<open>A request served, without a client and with one that has not begun.\<close>

lemma network_shared_witness:
  "\<exists>s s'. schedule (replicate 12 Server) ((network_start [])\<lparr>server := register_acts 7\<rparr>) = Some (Inr s) \<and> complete (shared s) \<and>
     schedule (replicate 6 Server) ((network_start (client_acts 1 5))\<lparr>server := server_adds 7\<rparr>) = Some (Inr s') \<and> peer_count (shared s') = 1 + added s' \<and>
     race_run (network_start (client_acts 1 5)) (Inl Behind_reply)"
proof -
  have i: "race_run (network_start c) (Inr ((network_start c)\<lparr>server := server_adds 7\<rparr>))" for c
    by (rule race_run.more[OF race_run.start race_step.inform]) (simp add: network_start_def)
  have r: "race_run (network_start c) (Inr ((network_start c)\<lparr>server := register_acts 7\<rparr>))" for c
    by (rule race_run.more[OF race_run.start race_step.register]) (simp add: network_start_def)
  obtain s where s: "schedule (replicate 12 Server) ((network_start [])\<lparr>server := register_acts 7\<rparr>) = Some (Inr s)"
    by (simp add: run_defs)
  obtain s' where s': "schedule (replicate 6 Server) ((network_start (client_acts 1 5))\<lparr>server := server_adds 7\<rparr>) = Some (Inr s')"
    by (simp add: run_defs)
  show ?thesis
    using network_shared[of "Inr s" 1 5 s'] schedule_run[OF s r] schedule_run[OF s' i] s s' by auto
qed

end
