(* ===== verification/Config.thy ===== *)
theory Config
  imports Decimals
begin

text \<open>
  The configuration files of A3 and A4: the checks of addresses and ports in \<open>common.c\<close> (the two
  copies are identical) and the loops in the two \<open>main\<close> functions that read the file. The fields are
  arrays of characters of fixed size; a value that does not fit is \<open>Field_overflow\<close>, a write or a
  read behind the field.
\<close>

subsection \<open>Scanning numbers\<close>

text \<open>\<open>sscanf\<close> with \<open>%d\<close>: the end of the input, no number, or a number and what follows.\<close>

datatype scan = End_of_input | No_number | Scanned i32 string

definition scan_d :: "string \<Rightarrow> scan" where
  "scan_d s =
     (let s = dropWhile is_space s
      in case s of [] \<Rightarrow> End_of_input
         | c # r \<Rightarrow>
             let digits = (if c = CHR ''-'' \<or> c = CHR ''+'' then r else s)
             in if digits = [] \<or> \<not> is_digit (hd digits) then No_number
                else Scanned (atoi s) (dropWhile is_digit digits))"

text \<open>The numbers that \<open>%d.%d...\<close> with \<open>n\<close> conversions scans, when the first one is not at the end of the
  input.\<close>

fun scan_dots :: "nat \<Rightarrow> string \<Rightarrow> i32 list" where
  "scan_dots 0 s = []"
| "scan_dots (Suc n) s =
     (case scan_d s of
        Scanned v r \<Rightarrow> v # (case r of [] \<Rightarrow> [] | c # r' \<Rightarrow> if c = CHR ''.'' then scan_dots n r' else [])
      | _ \<Rightarrow> [])"

subsection \<open>The checks\<close>

definition starts_with :: "string \<Rightarrow> string \<Rightarrow> bool" where
  "starts_with a b \<longleftrightarrow> take (length b) a = b"

definition string_equal :: "string \<Rightarrow> string \<Rightarrow> bool" where
  "string_equal x y \<longleftrightarrow> take (length y) x = y"

text \<open>\<open>None\<close> is the exit of the program when \<open>sscanf\<close> reports an error.\<close>

definition is_valid_ip :: "string \<Rightarrow> bool option" where
  "is_valid_ip ip_string =
     (if scan_d ip_string = End_of_input then None
      else let ip = scan_dots 4 ip_string
           in if length ip \<noteq> 4 then Some (string_equal ip_string ''localhost'')
              else Some (list_all (\<lambda>i. \<not> (255 < sint i \<or> sint i < 0)) ip))"

definition is_valid_port :: "string \<Rightarrow> bool option" where
  "is_valid_port port_string =
     (case scan_d port_string of
        End_of_input \<Rightarrow> None
      | No_number \<Rightarrow> Some False
      | Scanned port _ \<Rightarrow> Some (\<not> (sint port < 0 \<or> 65535 < sint port)))"

subsection \<open>The file\<close>

definition IP_SIZE :: nat where "IP_SIZE = 16"
definition PORT_SIZE :: nat where "PORT_SIZE = 8"

record config =
  own_ip :: string
  own_port :: string
  other_ip :: string
  other_port :: string

datatype config_error = Field_overflow | Scan_error | Invalid_value

text \<open>The keys of the four fields.\<close>

type_synonym keys = "string \<times> string \<times> string \<times> string"

definition A4_keys :: keys where
  "A4_keys = (''my_ip: '', ''my_port: '', ''peer_ip: '', ''peer_port: '')"

definition A3_keys :: keys where
  "A3_keys = (''client_ip: '', ''client_port: '', ''server_ip: '', ''server_port: '')"

definition zeros :: "nat \<Rightarrow> string" where
  "zeros n = replicate n (CHR 0x00)"

definition A4_initial :: config where
  "A4_initial = \<lparr>own_ip = zeros IP_SIZE, own_port = zeros PORT_SIZE,
     other_ip = CHR ''x'' # zeros (IP_SIZE - 1), other_port = CHR ''x'' # zeros (PORT_SIZE - 1)\<rparr>"

definition A3_initial :: config where
  "A3_initial = \<lparr>own_ip = zeros IP_SIZE, own_port = zeros PORT_SIZE, other_ip = zeros IP_SIZE, other_port = zeros PORT_SIZE\<rparr>"

text \<open>One field: what lies between the key and the line end is copied over the start of the field, which
  keeps the rest of an older value, and the field is checked as a string.\<close>

definition read_value :: "(string \<Rightarrow> bool option) \<Rightarrow> nat \<Rightarrow> string \<Rightarrow> string \<Rightarrow> string \<Rightarrow> config_error + string" where
  "read_value valid field_size key buffer old =
     (let text = drop (length key) (takeWhile (\<lambda>c. c \<noteq> CHR 0x0D \<and> c \<noteq> CHR 0x0A) buffer);
          field = text @ drop (length text) old
      in if field_size < length text \<or> CHR 0x00 \<notin> set field then Inl Field_overflow
         else case valid (c_str field) of
                None \<Rightarrow> Inl Scan_error
              | Some ok \<Rightarrow> if ok then Inr field else Inl Invalid_value)"

definition set_field :: "(string \<Rightarrow> config) \<Rightarrow> config_error + string \<Rightarrow> config_error + config" where
  "set_field upd r = (case r of Inl e \<Rightarrow> Inl e | Inr v \<Rightarrow> Inr (upd v))"

definition config_line :: "keys \<Rightarrow> string \<Rightarrow> config \<Rightarrow> config_error + config" where
  "config_line keys buffer c =
     (case keys of (k1, k2, k3, k4) \<Rightarrow>
        if starts_with buffer k1 then
          set_field (\<lambda>v. c\<lparr>own_ip := v\<rparr>) (read_value is_valid_ip IP_SIZE k1 buffer (own_ip c))
        else if starts_with buffer k2 then
          set_field (\<lambda>v. c\<lparr>own_port := v\<rparr>) (read_value is_valid_port PORT_SIZE k2 buffer (own_port c))
        else if starts_with buffer k3 then
          set_field (\<lambda>v. c\<lparr>other_ip := v\<rparr>) (read_value is_valid_ip IP_SIZE k3 buffer (other_ip c))
        else if starts_with buffer k4 then
          set_field (\<lambda>v. c\<lparr>other_port := v\<rparr>) (read_value is_valid_port PORT_SIZE k4 buffer (other_port c))
        else Inr c)"

function config_loop :: "keys \<Rightarrow> string \<Rightarrow> config \<Rightarrow> config_error + config" where
  "config_loop keys fp c =
     (if fp = [] then Inr c
      else case config_line keys (c_str (fst (fgets 127 fp))) c of
             Inl e \<Rightarrow> Inl e
           | Inr c' \<Rightarrow> config_loop keys (snd (fgets 127 fp)) c')"
  by pat_completeness auto
termination
  by (relation "measure (\<lambda>(_, fp, _). length fp)") (auto simp: fgets_shorter)

declare config_loop.simps [simp del]

subsection \<open>What the checks accept\<close>

definition dec_str :: "nat \<Rightarrow> string" where
  "dec_str k = byte_chars (dec_nat k)"

lemma dec_str_digits: "list_all is_digit (dec_str k)" "dec_str k \<noteq> []"
  using dec_nat_value[of k] dec_nat_head[of k] by (auto simp: dec_str_def byte_chars_def)

lemma dec_str_length: "k < 10 ^ m \<Longrightarrow> 0 < m \<Longrightarrow> length (dec_str k) \<le> m"
  using dec_nat_length[of k m] by (simp add: dec_str_def byte_chars_def)

definition stops :: "string \<Rightarrow> bool" where
  "stops rest \<longleftrightarrow> rest = [] \<or> \<not> is_digit (hd rest)"

lemma digits_value_stops: "stops rest \<Longrightarrow> digits_value v rest = v"
  by (cases rest) (simp_all add: stops_def)

lemma scan_d_dec:
  assumes "k < 2 ^ 31" "stops rest"
  shows "scan_d (dec_str k @ rest) = Scanned (word_of_nat k) rest"
proof -
  obtain d bs where d: "dec_nat k = (0x30 + word_of_nat d) # bs" "d < 10" using dec_nat_head by blast
  let ?c = "char_of (unat (0x30 + word_of_nat d :: byte)) :: char"
  have s: "dec_str k = ?c # byte_chars bs" unfolding dec_str_def d(1) byte_chars_def by simp
  note c = digit_char[OF d(2)]
  have sp: "dropWhile is_space (dec_str k @ rest) = dec_str k @ rest" using s c(2) by simp
  have "digits_value 0 (dec_str k @ rest) = int k"
    using dec_nat_value[of k] digits_value_stops[OF assms(2)] by (simp add: dec_str_def digits_value_append)
  then have "signed_value (dec_str k @ rest) = int k" using s c(3,4) by (simp add: signed_value_def)
  moreover have "(ucast (word_of_nat k :: i64) :: i32) = word_of_nat k" by (rule bit_word_eqI) (simp add: bit_simps)
  ultimately have "atoi (dec_str k @ rest) = word_of_nat k"
    using assms(1) sp by (simp add: atoi_def atol_def)
  moreover have "dropWhile is_digit (dec_str k @ rest) = rest"
    using dec_str_digits(1)[of k] assms(2) by (subst dropWhile_append2) (auto simp: list_all_iff stops_def dropWhile_eq_self_iff)
  ultimately show ?thesis unfolding scan_d_def Let_def sp using s c(1,3,4) by simp
qed

definition ip_text :: "nat \<Rightarrow> nat \<Rightarrow> nat \<Rightarrow> nat \<Rightarrow> string" where
  "ip_text a b c d = dec_str a @ ''.'' @ dec_str b @ ''.'' @ dec_str c @ ''.'' @ dec_str d"

lemma dot_stops [simp]: "stops (CHR ''.'' # r)"
  by (simp add: stops_def is_digit_def)

lemma sint_small: "k < 2 ^ 31 \<Longrightarrow> sint (word_of_nat k :: i32) = int k"
  by (simp add: signed_of_nat signed_take_bit_int_eq_self)

lemma scan_dots_dot: "k < 2 ^ 31 \<Longrightarrow> scan_dots (Suc n) (dec_str k @ CHR ''.'' # r) = word_of_nat k # scan_dots n r"
  by (simp add: scan_d_dec)

lemma scan_dots_last: "k < 2 ^ 31 \<Longrightarrow> stops r \<Longrightarrow> scan_dots (Suc 0) (dec_str k @ r) = [word_of_nat k]"
  using scan_d_dec[of k r] by (cases r) simp_all

lemma valid_ip:
  assumes "a < 2 ^ 31" "b < 2 ^ 31" "c < 2 ^ 31" "d < 2 ^ 31" "stops rest"
  shows "is_valid_ip (ip_text a b c d @ rest) = Some (a \<le> 255 \<and> b \<le> 255 \<and> c \<le> 255 \<and> d \<le> 255)"
proof -
  have "scan_dots (Suc (Suc (Suc (Suc 0)))) (ip_text a b c d @ rest) = [word_of_nat a, word_of_nat b, word_of_nat c, word_of_nat d]"
    using assms by (simp add: ip_text_def scan_dots_dot scan_dots_last del: scan_dots.simps)
  moreover have "scan_d (ip_text a b c d @ rest) \<noteq> End_of_input"
    using assms(1) by (simp add: ip_text_def scan_d_dec)
  moreover have four: "(4 :: nat) = Suc (Suc (Suc (Suc 0)))" by simp
  ultimately show ?thesis using assms(1-4) unfolding is_valid_ip_def four Let_def
    by (simp add: sint_small not_less del: scan_dots.simps)
qed

lemma valid_port: "k < 2 ^ 31 \<Longrightarrow> stops rest \<Longrightarrow> is_valid_port (dec_str k @ rest) = Some (k \<le> 65535)"
  by (simp add: is_valid_port_def scan_d_dec sint_small not_less)

text \<open>The checks on addresses and ports: four decimal numbers with dots are accepted exactly when each is at
  most 255, a decimal number exactly when it is at most 65535 - in both cases whatever follows the last
  digit.\<close>

theorem checks_accept:
  assumes "a < 2 ^ 31" "b < 2 ^ 31" "c < 2 ^ 31" "d < 2 ^ 31" "k < 2 ^ 31" "rest = [] \<or> \<not> is_digit (hd rest)"
  shows "is_valid_ip (ip_text a b c d @ rest) = Some (a \<le> 255 \<and> b \<le> 255 \<and> c \<le> 255 \<and> d \<le> 255) \<and>
    is_valid_port (dec_str k @ rest) = Some (k \<le> 65535)"
  using valid_ip[of a b c d rest] valid_port[of k rest] assms by (simp add: stops_def)

lemma checks_accept_witness:
  "is_valid_ip (ip_text 10 0 0 255 @ ''x'') = Some True \<and> is_valid_port (dec_str 65536 @ ''x'') = Some False"
  using checks_accept[of 10 0 0 255 65536 "''x''"] by (simp add: is_digit_def)

subsection \<open>Reading a file\<close>

definition plain :: "string \<Rightarrow> bool" where
  "plain v \<longleftrightarrow> CHR 0x00 \<notin> set v \<and> CHR 0x0A \<notin> set v \<and> CHR 0x0D \<notin> set v"

lemma plain_append [simp]: "plain (u @ v) \<longleftrightarrow> plain u \<and> plain v"
  by (auto simp: plain_def)

lemma plain_Cons [simp]: "plain [] \<and> (plain (c # v) \<longleftrightarrow> c \<noteq> CHR 0x00 \<and> c \<noteq> CHR 0x0A \<and> c \<noteq> CHR 0x0D \<and> plain v)"
  by (auto simp: plain_def)

lemma digit_plain: "list_all is_digit v \<Longrightarrow> plain v"
  by (auto simp: plain_def list_all_iff is_digit_def)

lemma plain_dec [simp]: "plain (dec_str k)"
  using dec_str_digits(1) by (rule digit_plain)

lemma plain_ip [simp]: "plain (ip_text a b c d)"
  by (simp add: ip_text_def)

lemma config_step:
  assumes "plain l" "length l < 127"
  shows "config_loop keys (l @ CHR 0x0A # rest) c =
    (case config_line keys (l @ [CHR 0x0A]) c of Inl e \<Rightarrow> Inl e | Inr c' \<Rightarrow> config_loop keys rest c')"
proof -
  have "c_str (l @ [CHR 0x0A]) = l @ [CHR 0x0A]" using assms(1) by (intro c_str_no_nul) (auto simp: plain_def)
  then show ?thesis using fgets_line[of l 127 rest] assms by (simp add: config_loop.simps[of keys "l @ CHR 0x0A # rest"] plain_def split: sum.split)
qed

lemma read_value_text:
  assumes "plain key" "plain v" "valid v = Some True" "length v < length old" "field_size = length old" "old ! length v = CHR 0x00"
  shows "read_value valid field_size key (key @ v @ [CHR 0x0A]) old = Inr (v @ drop (length v) old)"
proof -
  have "takeWhile (\<lambda>c. c \<noteq> CHR 0x0D \<and> c \<noteq> CHR 0x0A) ((key @ v) @ CHR 0x0A # []) = key @ v"
    using assms(1,2) by (subst takeWhile_append2) (auto simp: plain_def)
  then have t: "drop (length key) (takeWhile (\<lambda>c. c \<noteq> CHR 0x0D \<and> c \<noteq> CHR 0x0A) (key @ v @ [CHR 0x0A])) = v" by simp
  have d: "drop (length v) old = CHR 0x00 # drop (Suc (length v)) old"
    using assms(4,6) Cons_nth_drop_Suc[of "length v" old] by simp
  have "c_str (v @ drop (length v) old) = v"
    unfolding d c_str_def using assms(2) by (subst takeWhile_append2) (auto simp: plain_def)
  then show ?thesis unfolding read_value_def t Let_def using assms(3-5) d by simp
qed

definition pad :: "nat \<Rightarrow> string \<Rightarrow> string" where
  "pad n v = v @ zeros (n - length v)"

lemma drop_initial: "v \<noteq> [] \<Longrightarrow> v @ drop (length v) (x # zeros (n - 1)) = pad n v"
  by (cases v) (simp_all add: pad_def zeros_def)

lemma drop_zeros: "v @ drop (length v) (zeros n) = pad n v"
  by (simp add: pad_def zeros_def)

lemma nth_initial: "0 < k \<Longrightarrow> k < n \<Longrightarrow> (x # zeros (n - 1)) ! k = CHR 0x00"
  by (cases k) (simp_all add: zeros_def)

text \<open>The four lines of a file.\<close>

definition config_file :: "keys \<Rightarrow> string \<Rightarrow> string \<Rightarrow> string \<Rightarrow> string \<Rightarrow> string" where
  "config_file keys v1 v2 v3 v4 = (case keys of (k1, k2, k3, k4) \<Rightarrow>
     (k1 @ v1) @ CHR 0x0A # (k2 @ v2) @ CHR 0x0A # (k3 @ v3) @ CHR 0x0A # (k4 @ v4) @ [CHR 0x0A])"

lemma ip_fits:
  assumes "a \<le> 255" "b \<le> 255" "c \<le> 255" "d \<le> 255"
  shows "0 < length (ip_text a b c d) \<and> length (ip_text a b c d) < IP_SIZE"
proof -
  have "length (dec_str k) \<le> 3" if "k \<le> 255" for k using dec_str_length[of k 3] that by simp
  from this[OF assms(1)] this[OF assms(2)] this[OF assms(3)] this[OF assms(4)] show ?thesis
    by (simp add: ip_text_def IP_SIZE_def)
qed

lemma port_fits: "k \<le> 65535 \<Longrightarrow> 0 < length (dec_str k) \<and> length (dec_str k) < PORT_SIZE"
  using dec_str_length[of k 5] dec_str_digits(2)[of k] by (simp add: PORT_SIZE_def)

lemma config_lines:
  assumes "(k1, k2, k3, k4) \<in> {A3_keys, A4_keys}" "plain v"
  shows "plain (k1 @ v)" "plain (k2 @ v)" "plain (k3 @ v)" "plain (k4 @ v)"
    "config_line (k1, k2, k3, k4) ((k1 @ v) @ r) c = set_field (\<lambda>v. c\<lparr>own_ip := v\<rparr>) (read_value is_valid_ip IP_SIZE k1 (k1 @ v @ r) (own_ip c))"
    "config_line (k1, k2, k3, k4) ((k2 @ v) @ r) c = set_field (\<lambda>v. c\<lparr>own_port := v\<rparr>) (read_value is_valid_port PORT_SIZE k2 (k2 @ v @ r) (own_port c))"
    "config_line (k1, k2, k3, k4) ((k3 @ v) @ r) c = set_field (\<lambda>v. c\<lparr>other_ip := v\<rparr>) (read_value is_valid_ip IP_SIZE k3 (k3 @ v @ r) (other_ip c))"
    "config_line (k1, k2, k3, k4) ((k4 @ v) @ r) c = set_field (\<lambda>v. c\<lparr>other_port := v\<rparr>) (read_value is_valid_port PORT_SIZE k4 (k4 @ v @ r) (other_port c))"
    "length k1 \<le> 13" "length k2 \<le> 13" "length k3 \<le> 13" "length k4 \<le> 13"
  using assms by (auto simp: A3_keys_def A4_keys_def plain_def config_line_def starts_with_def)

lemma read_fresh:
  assumes "plain key" "plain v" "valid v = Some True" "0 < length v" "length v < n" "old = zeros n \<or> old = CHR ''x'' # zeros (n - 1)"
  shows "read_value valid n key (key @ v @ [CHR 0x0A]) old = Inr (pad n v)"
proof -
  have l: "length old = n" using assms(4-6) by (auto simp: zeros_def)
  have z: "old ! length v = CHR 0x00" using assms(6) nth_initial[OF assms(4,5)] assms(5) by (elim disjE) (simp_all add: zeros_def)
  have p: "v @ drop (length v) old = pad n v" using assms(4,6) drop_zeros[of v n] drop_initial[of v "CHR ''x''" n] by auto
  show ?thesis unfolding p[symmetric]
    by (rule read_value_text[of key v valid old n, OF assms(1-3) _ l[symmetric] z]) (use l assms(5) in simp)
qed

text \<open>C37: a configuration file with the four lines of A3 or of A4 is read into exactly the addresses and
  ports it names, each padded with zeros to the size of its field.\<close>

theorem config_read:
  assumes "(keys, initial) \<in> {(A3_keys, A3_initial), (A4_keys, A4_initial)}"
    and "list_all (\<lambda>n. n \<le> 255) [a, b, c, d, a', b', c', d']" "p \<le> 65535" "p' \<le> 65535"
  shows "config_loop keys (config_file keys (ip_text a b c d) (dec_str p) (ip_text a' b' c' d') (dec_str p')) initial =
    Inr \<lparr>own_ip = pad IP_SIZE (ip_text a b c d), own_port = pad PORT_SIZE (dec_str p),
         other_ip = pad IP_SIZE (ip_text a' b' c' d'), other_port = pad PORT_SIZE (dec_str p')\<rparr>"
proof -
  obtain k1 k2 k3 k4 where k: "keys = (k1, k2, k3, k4)" by (cases keys)
  then have ks: "(k1, k2, k3, k4) \<in> {A3_keys, A4_keys}" using assms(1) by auto
  let ?i = "ip_text a b c d" and ?i' = "ip_text a' b' c' d'" and ?p = "dec_str p" and ?p' = "dec_str p'"
  have fit: "0 < length ?i" "length ?i < IP_SIZE" "0 < length ?i'" "length ?i' < IP_SIZE"
      "0 < length ?p" "length ?p < PORT_SIZE" "0 < length ?p'" "length ?p' < PORT_SIZE"
    using ip_fits[of a b c d] ip_fits[of a' b' c' d'] port_fits[of p] port_fits[of p'] assms(2-4) by simp_all
  have valid: "is_valid_ip ?i = Some True" "is_valid_ip ?i' = Some True" "is_valid_port ?p = Some True" "is_valid_port ?p' = Some True"
    using valid_ip[of a b c d "[]"] valid_ip[of a' b' c' d' "[]"] valid_port[of p "[]"] valid_port[of p' "[]"] assms(2-4)
    by (simp_all add: stops_def)
  have init: "own_ip initial = zeros IP_SIZE" "own_port initial = zeros PORT_SIZE"
      "other_ip initial = zeros IP_SIZE \<or> other_ip initial = CHR ''x'' # zeros (IP_SIZE - 1)"
      "other_port initial = zeros PORT_SIZE \<or> other_port initial = CHR ''x'' # zeros (PORT_SIZE - 1)"
    using assms(1) by (auto simp: A3_initial_def A4_initial_def)
  have pk: "plain k1" "plain k2" "plain k3" "plain k4" using config_lines(1-4)[OF ks, of "[]"] by simp_all
  have short: "length (k1 @ ?i) < 127" "length (k2 @ ?p) < 127" "length (k3 @ ?i') < 127" "length (k4 @ ?p') < 127"
    using config_lines(9-12)[OF ks, of "[]"] fit by (simp_all add: IP_SIZE_def PORT_SIZE_def)
  have ends: "config_loop (k1, k2, k3, k4) [] c = Inr c" for c by (subst config_loop.simps) simp
  have r: "read_value is_valid_ip IP_SIZE k1 (k1 @ ?i @ [CHR 0x0A]) (own_ip initial) = Inr (pad IP_SIZE ?i)"
      "read_value is_valid_port PORT_SIZE k2 (k2 @ ?p @ [CHR 0x0A]) (own_port initial) = Inr (pad PORT_SIZE ?p)"
      "read_value is_valid_ip IP_SIZE k3 (k3 @ ?i' @ [CHR 0x0A]) (other_ip initial) = Inr (pad IP_SIZE ?i')"
      "read_value is_valid_port PORT_SIZE k4 (k4 @ ?p' @ [CHR 0x0A]) (other_port initial) = Inr (pad PORT_SIZE ?p')"
    using pk plain_ip plain_dec valid fit init by (blast intro: read_fresh)+
  show ?thesis unfolding k config_file_def prod.case
    using config_lines(1-4)[OF ks plain_ip[of a b c d]] config_lines(1-4)[OF ks plain_dec[of p]]
      config_lines(1-4)[OF ks plain_ip[of a' b' c' d']] config_lines(1-4)[OF ks plain_dec[of p']] short
    by (simp add: config_step config_lines(5-8)[OF ks] set_field_def r ends del: append_assoc)
qed

lemma config_read_witness:
  "\<exists>c. config_loop A4_keys (config_file A4_keys (ip_text 127 0 0 1) (dec_str 8080) (ip_text 10 0 0 2) (dec_str 80)) A4_initial = Inr c \<and>
     own_port c = pad PORT_SIZE (dec_str 8080)"
  using config_read[of A4_keys A4_initial 127 0 0 1 10 0 0 2 8080 80] by simp

text \<open>A second, shorter value of a key does not replace the first one: the field keeps the rest of
  the longer value, and what is checked and used is the two run together.\<close>

lemma second_value:
  assumes "plain key" "plain v" "plain u" "length v < length u" "length u < n"
  shows "read_value valid n key (key @ v @ [CHR 0x0A]) (pad n u) =
    (case valid (v @ drop (length v) u) of
       None \<Rightarrow> Inl Scan_error
     | Some ok \<Rightarrow> if ok then Inr (pad n (v @ drop (length v) u)) else Inl Invalid_value)"
proof -
  have "takeWhile (\<lambda>c. c \<noteq> CHR 0x0D \<and> c \<noteq> CHR 0x0A) ((key @ v) @ CHR 0x0A # []) = key @ v"
    using assms(1,2) by (subst takeWhile_append2) (auto simp: plain_def)
  then have t: "drop (length key) (takeWhile (\<lambda>c. c \<noteq> CHR 0x0D \<and> c \<noteq> CHR 0x0A) (key @ v @ [CHR 0x0A])) = v" by simp
  let ?w = "v @ drop (length v) u"
  have f: "v @ drop (length v) (pad n u) = ?w @ zeros (n - length u)" "pad n ?w = ?w @ zeros (n - length u)"
    using assms(4) by (simp_all add: pad_def)
  obtain z where z: "zeros (n - length u) = CHR 0x00 # z" using assms(5) by (cases "n - length u") (auto simp: zeros_def)
  have w: "CHR 0x00 \<notin> set ?w" using assms(2,3) by (auto simp: plain_def dest: in_set_dropD)
  then have "takeWhile (\<lambda>c. c \<noteq> CHR 0x00) (?w @ CHR 0x00 # z) = ?w" by (subst takeWhile_append2) auto
  then show ?thesis using assms(4,5) unfolding read_value_def t Let_def f z by (simp add: c_str_def)
qed

lemma second_value_example:
  "config_loop A4_keys (''my_ip: 10.10.10.10'' @ CHR 0x0A # ''my_ip: 1.1.1.1'' @ [CHR 0x0A]) A4_initial =
     Inr (A4_initial\<lparr>own_ip := ''1.1.1.10.10'' @ zeros 5\<rparr>)"
  by code_simp

end
