(* ===== verification/AccountClient.thy ===== *)
theory AccountClient
  imports Wire Sha256 Config
begin

text \<open>
  The client of A3, \<open>A3/networking.c\<close>: the salted signature of a password, the registration of a user,
  the request for a file, and the salt that is kept on disk between sessions. Buffers are lists of bytes
  with what they held before; \<open>None\<close> is a read or write outside an object. In three places
  the code writes a terminating zero one byte behind an array of variable length. Where that goes depends on the
  memory the compiler reserves for such an array, which is an argument: \<open>room n\<close> bytes for an array
  of \<open>n\<close>. The write is \<open>None\<close> when nothing is reserved behind the array, as it is with \<open>room n = n\<close> always.
\<close>

definition USERNAME_LEN :: nat where "USERNAME_LEN = 16"
definition PASSWORD_LEN :: nat where "PASSWORD_LEN = 16"
definition SALT_LEN :: nat where "SALT_LEN = 64"
definition MAXBUF :: nat where "MAXBUF = 8192"
definition RESPONSE_HEADER_LEN :: nat where "RESPONSE_HEADER_LEN = 80"
definition PATH_BYTES :: nat where "PATH_BYTES = 128"

text \<open>The string in a buffer; without a zero it is read behind the buffer.\<close>

definition c_bytes :: "byte list \<Rightarrow> byte list option" where
  "c_bytes buffer = (if 0 \<in> set buffer then Some (takeWhile (\<lambda>b. b \<noteq> 0) buffer) else None)"

text \<open>\<open>array[n] = '\0'\<close> for an array of variable length \<open>n\<close>.\<close>

definition ended :: "(nat \<Rightarrow> nat) \<Rightarrow> byte list \<Rightarrow> byte list option" where
  "ended room array = (if length array < room (length array) then Some (array @ [0]) else None)"

subsection \<open>Signatures\<close>

definition get_signature :: "(nat \<Rightarrow> nat) \<Rightarrow> sha_ctx \<Rightarrow> byte list \<Rightarrow> byte list \<Rightarrow> byte list option" where
  "get_signature room ctx password salt =
     Option.bind (c_bytes password) (\<lambda>p. Option.bind (c_bytes salt) (\<lambda>t.
     Option.bind (ended room (p @ t)) (\<lambda>s. Option.bind (c_bytes s) (\<lambda>salted_password. get_data_sha ctx salted_password 32))))"

subsection \<open>Requests\<close>

record account_header =
  username :: "byte list"
  salted_and_hashed :: "byte list"
  rq_payload_length :: u32

definition account_header_bytes :: "account_header \<Rightarrow> byte list" where
  "account_header_bytes h = username h @ salted_and_hashed h @ host_bytes (rq_payload_length h)"

datatype account_reply =
    Checksum_error
  | Response "byte list"
  | Unexpected_code u32

text \<open>The sections of a response, and the payload, which is copied from the buffer whatever its length.\<close>

record response =
  rs_length :: u32
  rs_status :: u32
  rs_block_number :: u32
  rs_block_count :: u32
  rs_block_hash :: "byte list"
  rs_total_hash :: "byte list"

definition parse_response :: "byte list \<Rightarrow> response" where
  "parse_response resbuf =
     \<lparr>rs_length = net_word (take_at 0 4 resbuf), rs_status = net_word (take_at 4 4 resbuf),
      rs_block_number = net_word (take_at 8 4 resbuf), rs_block_count = net_word (take_at 12 4 resbuf),
      rs_block_hash = take_at 16 32 resbuf, rs_total_hash = take_at 48 32 resbuf\<rparr>"

definition payload_of :: "byte list \<Rightarrow> byte list option" where
  "payload_of resbuf =
     (let len = unat (rs_length (parse_response resbuf))
      in if MAXBUF < RESPONSE_HEADER_LEN + len then None else Some (take_at RESPONSE_HEADER_LEN len resbuf))"

text \<open>A request is sent and up to \<open>MAXBUF\<close> bytes of the answer are read over what the buffer held.\<close>

definition exchange :: "byte list \<Rightarrow> byte list \<Rightarrow> os \<Rightarrow> byte list \<times> os" where
  "exchange request resbuf0 s =
     (let (_, s) = compsys_helper_writen request s;
          (got, s) = compsys_helper_readn MAXBUF s
      in (over (snd got) resbuf0, s))"

definition register_user :: "(nat \<Rightarrow> nat) \<Rightarrow> sha_ctx \<Rightarrow> byte list \<Rightarrow> byte list \<Rightarrow> byte list \<Rightarrow> byte list \<Rightarrow> os \<Rightarrow> (account_reply \<times> os) option" where
  "register_user room ctx resbuf0 user password user_salt s =
     Option.bind (get_signature room ctx password user_salt) (\<lambda>signature.
     let request_header = \<lparr>username = take USERNAME_LEN user, salted_and_hashed = signature, rq_payload_length = 0\<rparr>;
         (resbuf, s) = exchange (account_header_bytes request_header) resbuf0 s
     in Option.bind (payload_of resbuf) (\<lambda>payload.
        Option.bind (ended room payload) (\<lambda>response.
        Option.bind (get_data_sha ctx payload 32) (\<lambda>this_hash.
        if this_hash \<noteq> rs_total_hash (parse_response resbuf) then Some (Checksum_error, s)
        else let status = rs_status (parse_response resbuf)
             in if status = 1 then map_option (\<lambda>text. (Response text, s)) (c_bytes response)
                else Some (Unexpected_code status, s)))))"

text \<open>\<open>get_file\<close> hands \<open>get_signature\<close> the address of its parameter \<open>salt\<close>: what is hashed is
  \<open>salt_pointer\<close>, the bytes of the pointer. \<open>to_get\<close> is the memory at the path. The answer is read and not
  used.\<close>

definition get_file :: "(nat \<Rightarrow> nat) \<Rightarrow> sha_ctx \<Rightarrow> byte list \<Rightarrow> byte list \<Rightarrow> byte list \<Rightarrow> byte list \<Rightarrow> byte list \<Rightarrow> os \<Rightarrow> os option" where
  "get_file room ctx resbuf0 user password salt_pointer to_get s =
     Option.bind (get_signature room ctx password salt_pointer) (\<lambda>signature.
     Option.bind (c_bytes to_get) (\<lambda>path.
     if length to_get < PATH_BYTES then None else
     let request_header = \<lparr>username = take USERNAME_LEN user, salted_and_hashed = signature,
           rq_payload_length = word_of_nat (length path)\<rparr>;
         (resbuf, s) = exchange (account_header_bytes request_header @ take PATH_BYTES to_get) resbuf0 s
     in map_option (\<lambda>_. s) (Option.bind (payload_of resbuf) (ended room))))"

subsection \<open>The salt on disk\<close>

type_synonym disk = "byte list \<Rightarrow> byte list option"

definition ascii :: "string \<Rightarrow> byte list" where
  "ascii t = map (\<lambda>c. word_of_nat (of_char c)) t"

text \<open>The letters drawn, \<open>r i\<close> being the random number of turn \<open>i\<close>.\<close>

definition generate_salt :: "(nat \<Rightarrow> u32) \<Rightarrow> byte list \<Rightarrow> byte list" where
  "generate_salt r salt = over (map (\<lambda>i. 0x61 + ucast (r i mod 26)) [0..<SALT_LEN]) salt"

text \<open>The path, in a buffer of 256 bytes.\<close>

definition salt_path :: "byte list \<Rightarrow> byte list option" where
  "salt_path name =
     Option.bind (c_bytes name) (\<lambda>name.
     let path = ascii ''user_salts/'' @ name @ ascii ''.salt'' in if length path < 256 then Some path else None)"

definition save_to_disc :: "byte list \<Rightarrow> byte list \<Rightarrow> disk \<Rightarrow> disk option" where
  "save_to_disc name salt d =
     Option.bind (salt_path name) (\<lambda>path. map_option (\<lambda>text. d(path \<mapsto> text @ [0x0A])) (c_bytes salt))"

text \<open>\<open>fgets\<close> with a buffer of \<open>n\<close> bytes: at most \<open>n - 1\<close> bytes, up to and with the line end, and a
  zero behind them; an empty file leaves the buffer.\<close>

definition line_bytes :: "nat \<Rightarrow> byte list \<Rightarrow> byte list" where
  "line_bytes n content =
     (let line = takeWhile (\<lambda>b. b \<noteq> 0x0A) content in take (n - 1) (if length line < length content then line @ [0x0A] else line))"

definition find_file :: "byte list \<Rightarrow> byte list \<Rightarrow> nat \<Rightarrow> disk \<Rightarrow> byte list option" where
  "find_file name salt buff_size d =
     map_option (\<lambda>path. case d path of
         None \<Rightarrow> salt
       | Some content \<Rightarrow> if content = [] then salt else over (line_bytes buff_size content @ [0]) salt)
       (salt_path name)"

text \<open>The part of \<open>main\<close> that finds or makes the salt; \<open>salt0\<close> is what the buffer of 65 bytes held.\<close>

definition user_salt :: "(nat \<Rightarrow> u32) \<Rightarrow> byte list \<Rightarrow> byte list \<Rightarrow> disk \<Rightarrow> (byte list \<times> disk) option" where
  "user_salt r salt0 name d =
     Option.bind (find_file name salt0 SALT_LEN d) (\<lambda>salt.
     if salt ! 0 = 0 then
       let salt = generate_salt r salt in map_option (\<lambda>d. (salt, d)) (save_to_disc name salt d)
     else Some (salt, d))"

subsection \<open>The session\<close>

text \<open>\<open>scanf("%16s")\<close> into a buffer of \<open>n\<close> bytes that held \<open>old\<close>, the rest of the line being skipped,
  and the loop that clears the buffer behind the string. The terminating zero of a word of 16
  characters lies behind the buffer.\<close>

definition read_name :: "nat \<Rightarrow> byte list \<Rightarrow> string \<Rightarrow> (byte list \<times> string) option" where
  "read_name n old input =
     (let word = take 16 (takeWhile (\<lambda>c. \<not> is_space c) (dropWhile is_space input));
          field = (if word = [] then old else over (ascii word @ [0]) old);
          rest = drop 1 (dropWhile (\<lambda>c. c \<noteq> CHR 0x0A) (drop (length word) (dropWhile is_space input)))
      in if word \<noteq> [] \<and> n < length word + 1 then None
         else map_option (\<lambda>t. (t @ replicate (n - length t) 0, rest)) (c_bytes field))"

text \<open>\<open>main\<close> after the configuration: \<open>olds\<close> are the three local buffers before, \<open>salt_pointer\<close> the
  bytes of the pointer to the salt, and \<open>s1\<close>, \<open>s2\<close>, \<open>s3\<close> the connections.\<close>

definition session ::
  "(nat \<Rightarrow> nat) \<Rightarrow> sha_ctx \<Rightarrow> (nat \<Rightarrow> u32) \<Rightarrow> byte list \<times> byte list \<times> byte list \<Rightarrow> byte list \<Rightarrow> byte list \<Rightarrow> byte list \<Rightarrow> byte list \<Rightarrow> string \<Rightarrow> os \<Rightarrow> os \<Rightarrow> os \<Rightarrow> disk \<Rightarrow>
     (account_reply \<times> os \<times> os \<times> os \<times> disk) option" where
  "session room ctx r olds salt_pointer resbuf0 tiny hamlet input s1 s2 s3 d =
     (case olds of (name0, password0, salt0) \<Rightarrow>
       Option.bind (read_name USERNAME_LEN name0 input) (\<lambda>(name, input).
       Option.bind (read_name PASSWORD_LEN password0 input) (\<lambda>(password, _).
       Option.bind (user_salt r salt0 name d) (\<lambda>(salt, d).
       Option.bind (register_user room ctx resbuf0 name password salt s1) (\<lambda>(reply, s1).
       Option.bind (get_file room ctx resbuf0 name password salt_pointer tiny s2) (\<lambda>s2.
       map_option (\<lambda>s3. (reply, s1, s2, s3, d)) (get_file room ctx resbuf0 name password salt_pointer hamlet s3)))))))"

subsection \<open>What is sent and accepted\<close>

lemma c_bytes_string [simp]: "0 \<notin> set t \<Longrightarrow> c_bytes (t @ 0 # rest) = Some t"
  by (auto simp: c_bytes_def takeWhile_tail)


lemma signature_digest:
  assumes "length (buffer_bytes ctx) = 64" "c_bytes password = Some p" "c_bytes salt = Some t"
  shows "get_signature room ctx password salt = (if length (p @ t) < room (length (p @ t)) then Some (sha256_spec (p @ t)) else None)"
proof -
  have "0 \<notin> set (takeWhile (\<lambda>b. b \<noteq> 0) xs)" for xs :: "byte list" by (auto dest: set_takeWhileD)
  then have "0 \<notin> set (p @ t)" using assms(2,3) by (auto simp: c_bytes_def split: if_splits)
  then have "c_bytes (p @ t @ [0]) = Some (p @ t)" using c_bytes_string[of "p @ t" "[]"] by simp
  then show ?thesis using assms get_data_sha_spec[OF assms(1)] by (simp add: get_signature_def ended_def)
qed

lemma exchange_clean:
  assumes "clean s" "length resbuf0 = MAXBUF" "length (incoming s) \<le> MAXBUF"
  shows "\<exists>s'. exchange request resbuf0 s = (over (incoming s) resbuf0, s') \<and> outgoing s' = outgoing s @ request \<and> clean s'"
proof -
  let ?s = "snd (compsys_helper_writen request s)"
  have w: "clean ?s" "incoming ?s = incoming s" "outgoing ?s = outgoing s @ request"
    using writen_clean_sends[OF assms(1), of request] by simp_all
  obtain s' where r: "compsys_helper_readn MAXBUF ?s = ((True, incoming s), s')" "clean s'"
    using readn_clean_gets[OF w(1), of MAXBUF] w(2) assms(3) by auto
  have "outgoing s' = outgoing ?s" using readn_outgoing[of MAXBUF ?s] r(1) by simp
  then show ?thesis using r w(3) by (simp add: exchange_def split_beta)
qed

definition response_bytes :: "response \<Rightarrow> byte list" where
  "response_bytes h = net_bytes (rs_length h) @ net_bytes (rs_status h) @ net_bytes (rs_block_number h) @
     net_bytes (rs_block_count h) @ rs_block_hash h @ rs_total_hash h"

lemma net_word_net_bytes [simp]: "net_word (net_bytes w) = w"
  using net_word_bytes[of w "[]"] by simp

lemma parse_response_bytes:
  assumes "length (rs_block_hash h) = 32" "length (rs_total_hash h) = 32"
  shows "parse_response (response_bytes h @ rest) = h" "length (response_bytes h) = 80"
  using assms by (simp_all add: parse_response_def response_bytes_def take_at_def)


lemma exchange_sends: "clean s \<Longrightarrow> outgoing (snd (exchange request resbuf0 s)) = outgoing s @ request"
  using writen_clean_sends[of s request] by (simp add: exchange_def split_beta readn_outgoing)

text \<open>Asking for a file sends, instead of the signature the user registered with, the digest of the password
  followed by the bytes of a pointer, and the length of the path in the order of the host; the answer,
  whatever its status and digests, is read and neither checked nor stored.\<close>

theorem get_file_sends:
  assumes "length (buffer_bytes ctx) = 64" "c_bytes password = Some p" "c_bytes salt_pointer = Some q"
    and "c_bytes to_get = Some path" "PATH_BYTES \<le> length to_get"
    and "clean s" "length resbuf0 = MAXBUF" "incoming s = response_bytes h @ payload" "RESPONSE_HEADER_LEN + length payload \<le> MAXBUF"
    and "rs_length h = word_of_nat (length payload)" "length (rs_block_hash h) = 32" "length (rs_total_hash h) = 32"
    and "\<And>n. n < room n"
  shows "\<exists>s'. get_file room ctx resbuf0 user password salt_pointer to_get s = Some s' \<and>
    outgoing s' = outgoing s @ take USERNAME_LEN user @ sha256_spec (p @ q) @ host_bytes (word_of_nat (length path)) @
      take PATH_BYTES to_get"
proof -
  note pr = parse_response_bytes[OF assms(11,12)]
  let ?h = "\<lparr>username = take USERNAME_LEN user, salted_and_hashed = sha256_spec (p @ q), rq_payload_length = word_of_nat (length path)\<rparr>"
  let ?r = "account_header_bytes ?h @ take PATH_BYTES to_get"
  obtain s' where e: "exchange ?r resbuf0 s = (over (incoming s) resbuf0, s')" "outgoing s' = outgoing s @ ?r"
    using exchange_clean[OF assms(6,7)] assms(8,9) pr(2) by (auto simp: RESPONSE_HEADER_LEN_def)
  have b: "over (incoming s) resbuf0 = response_bytes h @ payload @ drop (length (incoming s)) resbuf0"
    using assms(8) by (simp add: over_def)
  have len: "unat (word_of_nat (length payload) :: u32) = length payload" using assms(9)
    by (simp add: MAXBUF_def unsigned_of_nat take_bit_nat_eq_self)
  have "payload_of (over (incoming s) resbuf0) = Some payload" unfolding b payload_of_def pr(1) Let_def
    using assms(9,10) len pr(2) by (simp add: take_at_def RESPONSE_HEADER_LEN_def)
  then show ?thesis using signature_digest[OF assms(1-3)] assms(4,5,13) e
    by (simp add: get_file_def account_header_bytes_def ended_def)
qed

subsection \<open>The salt\<close>

definition letter :: "u32 \<Rightarrow> byte" where
  "letter w = 0x61 + ucast (w mod 26)"

lemma letters: "list_all (\<lambda>k. (0x61 + word_of_nat k :: byte) \<noteq> 0 \<and> (0x61 + word_of_nat k :: byte) \<noteq> 0x0A) [0..<26]"
  by code_simp

lemma letter_plain [simp]: "letter w \<noteq> 0" "letter w \<noteq> 0x0A"
proof -
  have "unat (w mod 26) < 26" by (simp add: unat_mod)
  then have "unat (w mod 26) \<in> set [0..<26]" by simp
  moreover have "letter w = 0x61 + word_of_nat (unat (w mod 26))" by (simp add: letter_def)
  ultimately show "letter w \<noteq> 0" "letter w \<noteq> 0x0A" using letters unfolding list_all_iff by metis+
qed

definition drawn :: "(nat \<Rightarrow> u32) \<Rightarrow> byte list" where
  "drawn r = map (\<lambda>i. letter (r i)) [0..<SALT_LEN]"

lemma drawn_plain: "length (drawn r) = 64" "0 \<notin> set (drawn r)" "0x0A \<notin> set (drawn r)"
  by (auto simp: drawn_def SALT_LEN_def)

lemma salt_path_name:
  assumes "0 \<notin> set name" "length name < 240"
  shows "salt_path (name @ 0 # rest) = Some (ascii ''user_salts/'' @ name @ ascii ''.salt'')"
  using assms by (simp add: salt_path_def Let_def ascii_def)

text \<open>A user who is new gets a salt of 64 letters, which is saved and with which the signature is formed; but
  every later session reads back only the first 63 letters - the buffer given to \<open>fgets\<close> has no room for
  the last - and so forms the signature from another string.\<close>

theorem salt_loses_letter:
  assumes "length (buffer_bytes ctx) = 64" "c_bytes password = Some p"
    and "0 \<notin> set name" "length name < 240" "d (ascii ''user_salts/'' @ name @ ascii ''.salt'') = None"
    and "length salt0 = SALT_LEN + 1" "salt0 ! 0 = 0" "salt0 ! SALT_LEN = 0" "\<And>n. n < room n"
  shows "\<exists>salt1 salt2 d'. user_salt r salt0 (name @ 0 # rest) d = Some (salt1, d') \<and>
    user_salt r' salt0 (name @ 0 # rest) d' = Some (salt2, d') \<and>
    get_signature room ctx password salt1 = Some (sha256_spec (p @ drawn r)) \<and>
    get_signature room ctx password salt2 = Some (sha256_spec (p @ take (SALT_LEN - 1) (drawn r)))"
proof -
  let ?path = "ascii ''user_salts/'' @ name @ ascii ''.salt''" and ?g = "drawn r"
  note g = drawn_plain[of r] and path = salt_path_name[OF assms(3,4), of rest]
  let ?d = "d(?path \<mapsto> ?g @ [0x0A])"
  have last: "drop 64 salt0 = [0]" using assms(6,8) Cons_nth_drop_Suc[of 64 salt0] by (simp add: SALT_LEN_def)
  have gen: "generate_salt r salt0 = ?g @ [0]"
    using last g(1) by (simp add: generate_salt_def over_def drawn_def letter_def[abs_def] SALT_LEN_def)
  have one: "user_salt r salt0 (name @ 0 # rest) d = Some (?g @ [0], ?d)"
    using path assms(5,7) gen c_bytes_string[OF g(2), of "[]"] by (simp add: user_salt_def find_file_def save_to_disc_def)
  have "takeWhile (\<lambda>b. b \<noteq> 0x0A) (?g @ [0x0A]) = ?g" using g(3) by (subst takeWhile_append2) auto
  then have "line_bytes SALT_LEN (?g @ [0x0A]) = take 63 ?g" using g(1) by (simp add: line_bytes_def SALT_LEN_def)
  moreover have "drop 64 salt0 = [0]" by (rule last)
  ultimately have found: "find_file (name @ 0 # rest) salt0 SALT_LEN ?d = Some (take 63 ?g @ [0, 0])"
    using path g(1) by (simp add: find_file_def over_def)
  have "?g ! 0 \<in> set ?g" using g(1) by simp
  then have "?g ! 0 \<noteq> 0" using g(2) by metis
  then have n0: "take 63 ?g ! 0 \<noteq> 0" by simp
  have z: "0 \<notin> set (take 63 ?g)" using g(2) by (meson in_set_takeD)
  have two: "user_salt r' salt0 (name @ 0 # rest) ?d = Some (take 63 ?g @ [0, 0], ?d)"
    using found n0 g(1) by (simp add: user_salt_def nth_append)
  have "get_signature room ctx password (?g @ [0]) = Some (sha256_spec (p @ ?g))"
    using signature_digest[OF assms(1,2) c_bytes_string[OF g(2), of "[]"]] assms(9) by simp
  moreover have "get_signature room ctx password (take 63 ?g @ [0, 0]) = Some (sha256_spec (p @ take 63 ?g))"
    using signature_digest[OF assms(1,2) c_bytes_string[OF z, of "[0]"]] assms(9) by simp
  ultimately show ?thesis using one two by (auto simp: SALT_LEN_def)
qed


definition demo_answer :: "byte list \<Rightarrow> response" where
  "demo_answer payload = \<lparr>rs_length = word_of_nat (length payload), rs_status = 1, rs_block_number = 0, rs_block_count = 1,
     rs_block_hash = sha256_spec payload, rs_total_hash = sha256_spec payload\<rparr>"

definition demo_account_os :: "byte list \<Rightarrow> os" where
  "demo_account_os payload = \<lparr>incoming = response_bytes (demo_answer payload) @ payload, outgoing = [], events = [Interrupt, Transfer 7]\<rparr>"



lemma get_file_sends_witness:
  "\<exists>s'. get_file Suc any_ctx (replicate MAXBUF 0) [0x75, 0] [0x70, 0] [0x80, 0x7F, 0, 0] (ascii ''tiny.txt'' @ replicate 120 0) (demo_account_os [0x6F]) = Some s' \<and>
     outgoing s' = [0x75, 0] @ sha256_spec [0x70, 0x80, 0x7F] @ host_bytes 8 @ ascii ''tiny.txt'' @ replicate 120 0"
proof -
  have "c_bytes (ascii ''tiny.txt'' @ replicate 120 0) = Some (ascii ''tiny.txt'')" by code_simp
  then show ?thesis
    using get_file_sends[of any_ctx "[0x70, 0]" "[0x70]" "[0x80, 0x7F, 0, 0]" "[0x80, 0x7F]" "ascii ''tiny.txt'' @ replicate 120 0" "ascii ''tiny.txt''"
        "demo_account_os [0x6F]" "replicate MAXBUF 0" "demo_answer [0x6F]" "[0x6F]" Suc "[0x75, 0]"]
    by (auto simp: any_ctx_def c_bytes_def clean_def demo_account_os_def demo_answer_def length_spec MAXBUF_def RESPONSE_HEADER_LEN_def
        PATH_BYTES_def USERNAME_LEN_def ascii_def)
qed

lemma salt_loses_letter_witness:
  "\<exists>salt1 salt2 d'. user_salt (\<lambda>i. word_of_nat i) (replicate 65 0) [0x75, 0] (\<lambda>_. None) = Some (salt1, d') \<and>
     user_salt (\<lambda>i. word_of_nat i) (replicate 65 0) [0x75, 0] d' = Some (salt2, d') \<and>
     get_signature Suc any_ctx [0x70, 0] salt2 = Some (sha256_spec (0x70 # take 63 (drawn (\<lambda>i. word_of_nat i))))"
proof -
  have z: "replicate 65 (0 :: byte) ! 64 = 0" by simp
  obtain salt1 salt2 d' where s: "user_salt (\<lambda>i. word_of_nat i) (replicate 65 0) ([0x75] @ 0 # []) (\<lambda>_. None) = Some (salt1, d')"
     "user_salt (\<lambda>i. word_of_nat i) (replicate 65 0) ([0x75] @ 0 # []) d' = Some (salt2, d')"
     "get_signature Suc any_ctx [0x70, 0] salt2 = Some (sha256_spec ([0x70] @ take (SALT_LEN - 1) (drawn (\<lambda>i. word_of_nat i))))"
    using salt_loses_letter[of any_ctx "[0x70, 0]" "[0x70]" "[0x75]" "\<lambda>_. None" "replicate 65 0" Suc "\<lambda>i. word_of_nat i" "[]" "\<lambda>i. word_of_nat i"] z
    by (auto simp: any_ctx_def c_bytes_def SALT_LEN_def)
  then show ?thesis by (auto simp: SALT_LEN_def)
qed

text \<open>A name of 16 characters, which the conversion allows, is ended behind its buffer; one of 15 fits.\<close>

lemma read_name_overflow: "read_name USERNAME_LEN (replicate 16 0) (''abcdefghijklmnop'' @ [CHR 0x0A]) = None"
  by code_simp

lemma read_name_fits:
  "read_name USERNAME_LEN (replicate 16 7) (''abcdefghijklmno rest'' @ CHR 0x0A # ''pw'') = Some (ascii ''abcdefghijklmno'' @ [0], ''pw'')"
  by code_simp

end
