(* ===== verification/Sockets.thy ===== *)
theory Sockets
  imports CPrelude
begin

text \<open>
  Opening connections, \<open>compsys_helper_open_clientfd\<close> and \<open>compsys_helper_open_listenfd\<close> of
  \<open>A3/compsys_helpers.c\<close> (A4 has an identical copy). The state is what can leak: the open descriptors of
  the process, newest first, with what has become of each socket, and the number of address lists that
  were not released. An element of the list \<open>getaddrinfo\<close> returns comes with how the system reacts to
  the calls on it. A call of \<open>close\<close> that fails is taken to leave the descriptor open; POSIX does not say, and
  Linux releases it.
\<close>

datatype 'a role = Created | Reusable | Connected 'a | Bound 'a | Listening 'a

record 'a sockets =
  fds :: "(nat \<times> 'a role) list"
  lists :: nat

text \<open>\<open>made\<close>: a socket for the address can be created; \<open>reusable\<close>: the option can be set; \<open>accepted\<close>: connecting or
  binding succeeds; \<open>closable\<close>: so does closing it afterwards.\<close>

record 'a attempt =
  target :: 'a
  made :: bool
  reusable :: bool
  accepted :: bool
  closable :: bool

text \<open>POSIX gives a new descriptor the lowest number that is not in use.\<close>

definition new_fd :: "(nat \<times> 'a role) list \<Rightarrow> nat" where
  "new_fd ds = hd (filter (\<lambda>fd. fd \<notin> fst ` set ds) [0..<Suc (length ds)])"

definition sys_socket :: "'a attempt \<Rightarrow> 'a sockets \<Rightarrow> int \<times> 'a sockets" where
  "sys_socket p s = (if made p then (int (new_fd (fds s)), s\<lparr>fds := (new_fd (fds s), Created) # fds s\<rparr>) else (-1, s))"

definition become :: "int \<Rightarrow> 'a role \<Rightarrow> 'a sockets \<Rightarrow> 'a sockets" where
  "become fd r s = s\<lparr>fds := map (\<lambda>(k, r'). (k, if int k = fd then r else r')) (fds s)\<rparr>"

definition sys_connect :: "int \<Rightarrow> 'a attempt \<Rightarrow> 'a sockets \<Rightarrow> int \<times> 'a sockets" where
  "sys_connect fd p s = (if accepted p then (0, become fd (Connected (target p)) s) else (-1, s))"

definition sys_setsockopt :: "int \<Rightarrow> 'a attempt \<Rightarrow> 'a sockets \<Rightarrow> 'a sockets" where
  "sys_setsockopt fd p s = (if reusable p then become fd Reusable s else s)"

definition sys_bind :: "int \<Rightarrow> 'a attempt \<Rightarrow> 'a sockets \<Rightarrow> int \<times> 'a sockets" where
  "sys_bind fd p s = (if accepted p then (0, become fd (Bound (target p)) s) else (-1, s))"

definition sys_close :: "bool \<Rightarrow> int \<Rightarrow> 'a sockets \<Rightarrow> int \<times> 'a sockets" where
  "sys_close ok fd s = (if ok then (0, s\<lparr>fds := filter (\<lambda>(k, _). int k \<noteq> fd) (fds s)\<rparr>) else (-1, s))"

definition freeaddrinfo :: "'a sockets \<Rightarrow> 'a sockets" where
  "freeaddrinfo s = s\<lparr>lists := lists s - 1\<rparr>"

text \<open>How the walk over the list ended: with \<open>p\<close> NULL, with a break, or with the return inside the loop.\<close>

datatype 'a walk = Exhausted | Broke 'a int | Returned int

fun connect_walk :: "'a attempt list \<Rightarrow> 'a sockets \<Rightarrow> 'a walk \<times> 'a sockets" where
  "connect_walk [] s = (Exhausted, s)"
| "connect_walk (p # ps) s =
     (let (clientfd, s) = sys_socket p s
      in if clientfd < 0 then connect_walk ps s
         else let (c, s) = sys_connect clientfd p s
              in if c \<noteq> -1 then (Broke (target p) clientfd, s)
                 else let (c, s) = sys_close (closable p) clientfd s
                      in if c < 0 then (Returned (-1), s) else connect_walk ps s)"

text \<open>\<open>listp\<close> is what \<open>getaddrinfo\<close> found, \<open>None\<close> its failure.\<close>

definition open_clientfd :: "'a attempt list option \<Rightarrow> 'a sockets \<Rightarrow> int \<times> 'a sockets" where
  "open_clientfd listp s =
     (case listp of None \<Rightarrow> (-2, s)
      | Some ps \<Rightarrow>
          (case connect_walk ps (s\<lparr>lists := lists s + 1\<rparr>) of
             (Returned r, s) \<Rightarrow> (r, s)
           | (Exhausted, s) \<Rightarrow> (-1, freeaddrinfo s)
           | (Broke _ clientfd, s) \<Rightarrow> (clientfd, freeaddrinfo s)))"

fun bind_walk :: "'a attempt list \<Rightarrow> 'a sockets \<Rightarrow> 'a walk \<times> 'a sockets" where
  "bind_walk [] s = (Exhausted, s)"
| "bind_walk (p # ps) s =
     (let (listenfd, s) = sys_socket p s
      in if listenfd < 0 then bind_walk ps s
         else let s = sys_setsockopt listenfd p s; (b, s) = sys_bind listenfd p s
              in if b = 0 then (Broke (target p) listenfd, s)
                 else let (c, s) = sys_close (closable p) listenfd s
                      in if c < 0 then (Returned (-1), s) else bind_walk ps s)"

text \<open>The last step: \<open>listens\<close> says whether \<open>listen\<close> succeeds, \<open>closes\<close> whether the \<open>close\<close> after it does, whose
  result is not looked at.\<close>

definition open_listenfd :: "bool \<Rightarrow> bool \<Rightarrow> 'a attempt list option \<Rightarrow> 'a sockets \<Rightarrow> int \<times> 'a sockets" where
  "open_listenfd listens closes listp s =
     (case listp of None \<Rightarrow> (-2, s)
      | Some ps \<Rightarrow>
          (case bind_walk ps (s\<lparr>lists := lists s + 1\<rparr>) of
             (Returned r, s) \<Rightarrow> (r, s)
           | (Exhausted, s) \<Rightarrow> (-1, freeaddrinfo s)
           | (Broke a listenfd, s) \<Rightarrow>
               (let s = freeaddrinfo s
                in if \<not> listens then (-1, snd (sys_close closes listenfd s))
                   else (listenfd, become listenfd (Listening a) s))))"

subsection \<open>Descriptors\<close>

lemma new_fd_fresh: "new_fd ds \<notin> fst ` set ds"
proof -
  let ?free = "filter (\<lambda>fd. fd \<notin> fst ` set ds) [0..<Suc (length ds)]"
  have "card (fst ` set ds) \<le> length ds" using card_image_le[of "set ds" fst] card_length[of ds] by force
  then have "\<not> set [0..<Suc (length ds)] \<subseteq> fst ` set ds"
    using card_mono[of "fst ` set ds" "{0..<Suc (length ds)}"] by (auto simp del: upt_Suc)
  then have "?free \<noteq> []" by (auto simp: filter_empty_conv simp del: upt_Suc)
  then have "hd ?free \<in> set ?free" by (rule hd_in_set)
  then show ?thesis by (simp add: new_fd_def del: upt_Suc)
qed

text \<open>A descriptor that is made, used and closed leaves the table as it was.\<close>

lemma others_keep: "fd \<notin> fst ` set ds \<Longrightarrow> map (\<lambda>(k, r'). (k, if int k = int fd then r else r')) ds = ds"
  by (rule map_idI) (force split: prod.splits)

lemma become_new [simp]: "fds s = (new_fd ds, r') # ds \<Longrightarrow> become (int (new_fd ds)) r s = s\<lparr>fds := (new_fd ds, r) # ds\<rparr>"
  using others_keep[of "new_fd ds" ds r] new_fd_fresh[of ds] by (auto simp: become_def)

lemma close_new [simp]: "fds s = (new_fd ds, r) # ds \<Longrightarrow> sys_close True (int (new_fd ds)) s = (0, s\<lparr>fds := ds\<rparr>)"
proof -
  assume "fds s = (new_fd ds, r) # ds"
  moreover have "filter (\<lambda>(k, _). int k \<noteq> int (new_fd ds)) ds = ds"
    using new_fd_fresh[of ds] by (force simp: filter_id_conv)
  ultimately show ?thesis by (simp add: sys_close_def)
qed

lemma close_fails [simp]: "sys_close False fd s = (-1, s)"
  by (simp add: sys_close_def)

text \<open>The address that ends a walk: the first one whose socket is accepted, or made and then not closed.\<close>

definition decisive :: "'a attempt list \<Rightarrow> 'a attempt option" where
  "decisive ps = find (\<lambda>p. made p \<and> (accepted p \<or> \<not> closable p)) ps"

lemma connect_walk_result:
  "connect_walk ps s =
     (case decisive ps of None \<Rightarrow> (Exhausted, s)
      | Some p \<Rightarrow> if accepted p then (Broke (target p) (int (new_fd (fds s))), s\<lparr>fds := (new_fd (fds s), Connected (target p)) # fds s\<rparr>)
          else (Returned (-1), s\<lparr>fds := (new_fd (fds s), Created) # fds s\<rparr>))"
proof (induction ps)
  case (Cons p ps)
  then show ?case
    by (cases "accepted p"; cases "closable p") (auto simp: decisive_def sys_socket_def sys_connect_def Let_def)
qed (simp add: decisive_def)

lemma bind_walk_result:
  "bind_walk ps s =
     (case decisive ps of None \<Rightarrow> (Exhausted, s)
      | Some p \<Rightarrow> if accepted p then (Broke (target p) (int (new_fd (fds s))), s\<lparr>fds := (new_fd (fds s), Bound (target p)) # fds s\<rparr>)
          else (Returned (-1), s\<lparr>fds := (new_fd (fds s), if reusable p then Reusable else Created) # fds s\<rparr>))"
proof (induction ps)
  case (Cons p ps)
  then show ?case
    by (cases "accepted p"; cases "closable p"; cases "reusable p")
       (auto simp: decisive_def sys_socket_def sys_setsockopt_def sys_bind_def Let_def)
qed (simp add: decisive_def)

text \<open>C35: opening a connection or a listener ends with the descriptor of the first address for which it works,
  a number that was not in use, and with exactly that descriptor more open; when no address works everything is
  as it was. The exceptions are all failures of \<open>close\<close>: the one inside the loop returns with the
  descriptor open and the address list not released, and the one after a failed \<open>listen\<close> leaves the descriptor open.\<close>

theorem sockets_opened:
  "new_fd (fds s) \<notin> fst ` set (fds s) \<and>
   open_clientfd listp s =
     (case listp of None \<Rightarrow> (-2, s)
      | Some ps \<Rightarrow>
         (case decisive ps of None \<Rightarrow> (-1, s)
          | Some p \<Rightarrow>
              if accepted p then (int (new_fd (fds s)), s\<lparr>fds := (new_fd (fds s), Connected (target p)) # fds s\<rparr>)
              else (-1, s\<lparr>fds := (new_fd (fds s), Created) # fds s, lists := lists s + 1\<rparr>))) \<and>
   open_listenfd listens closes listp s =
     (case listp of None \<Rightarrow> (-2, s)
      | Some ps \<Rightarrow>
         (case decisive ps of None \<Rightarrow> (-1, s)
          | Some p \<Rightarrow>
              if accepted p then
                if listens then (int (new_fd (fds s)), s\<lparr>fds := (new_fd (fds s), Listening (target p)) # fds s\<rparr>)
                else (-1, if closes then s else s\<lparr>fds := (new_fd (fds s), Bound (target p)) # fds s\<rparr>)
              else (-1, s\<lparr>fds := (new_fd (fds s), if reusable p then Reusable else Created) # fds s, lists := lists s + 1\<rparr>)))"
  using new_fd_fresh[of "fds s"]
  by (auto simp: open_clientfd_def open_listenfd_def connect_walk_result bind_walk_result freeaddrinfo_def Let_def
        split: option.split)

text \<open>A first address whose connection is refused, a second that accepts.\<close>

lemma sockets_opened_example:
  "open_clientfd (Some [\<lparr>target = 6, made = True, reusable = True, accepted = False, closable = True\<rparr>,
       \<lparr>target = 4, made = True, reusable = True, accepted = True, closable = True\<rparr>])
     \<lparr>fds = [(2, Created), (0, Created)], lists = 0\<rparr> =
   (1, \<lparr>fds = [(1, Connected (4 :: nat)), (2, Created), (0, Created)], lists = 0\<rparr>)"
  by code_simp

end
