(* ===== verification/Simulator.thy ===== *)
theory Simulator
  imports IsaSpec ReadExec ProgArgs
begin

text \<open>
  The simulator as a whole, \<open>main\<close> of \<open>A5/src/main.c\<close>: the arguments of the program go into the simulated memory,
  the listing is loaded over them and run. The file system is two arguments, what the files contain and which can be
  written; the times are not modelled. \<open>terminate\<close> is the outcomes without a run.
\<close>

datatype sim_end =
    Argument_fault mem_fault
  | Missing_operands
  | No_log_file
  | Not_loaded load_error
  | Stopped sim_outcome
  | No_summary cpu
  | Summary bool int cpu

definition LOG_OPTION :: argument where "LOG_OPTION = [0x2d, 0x6c]"
definition SUMMARY_OPTION :: argument where "SUMMARY_OPTION = [0x2d, 0x73]"

text \<open>\<open>hexes\<close> is what the static array of the loader holds, \<open>uninit\<close> the registers before they are set. The flag of a
  summary says that it goes to the log. \<open>None\<close>: the fuel of the run is used up.\<close>

definition run_loaded :: "nat \<Rightarrow> (argument \<Rightarrow> bool) \<Rightarrow> (nat \<Rightarrow> i32) \<Rightarrow> byte list \<Rightarrow> argument list \<Rightarrow> nat \<Rightarrow> int \<Rightarrow> loader \<Rightarrow> sim_end option" where
  "run_loaded fuel writable uninit input argv argc start_addr ld =
     (case simulate fuel (ld_mem ld) (word_of_int start_addr) uninit input of
        None \<Rightarrow> None
      | Some (Return num_insns st) \<Rightarrow>
          if argc = 4 \<and> argv ! 2 = SUMMARY_OPTION then
            if writable (argv ! 3) then Some (Summary True num_insns st) else Some (No_summary st)
          else Some (Summary (argc = 4 \<and> argv ! 2 = LOG_OPTION) num_insns st)
      | Some other \<Rightarrow> Some (Stopped other))"

definition simulator :: "nat \<Rightarrow> (argument \<Rightarrow> string) \<Rightarrow> (argument \<Rightarrow> bool) \<Rightarrow> string \<Rightarrow> (nat \<Rightarrow> i32) \<Rightarrow> byte list \<Rightarrow> argument list \<Rightarrow> sim_end option" where
  "simulator fuel files writable hexes uninit input argv =
     (case pass_args_to_program memory_create argv of
        Inl f \<Rightarrow> Some (Argument_fault f)
      | Inr (m, argc) \<Rightarrow>
          if argc = 2 \<or> argc = 4 then
            if argc = 4 \<and> argv ! 2 = LOG_OPTION \<and> \<not> writable (argv ! 3) then Some No_log_file
            else (case read_exec m assembly_create hexes (files (argv ! 1)) of
                    Inl e \<Rightarrow> Some (Not_loaded e)
                  | Inr (start_addr, ld) \<Rightarrow> run_loaded fuel writable uninit input argv argc start_addr ld)
          else Some Missing_operands)"

subsection \<open>Listings\<close>

text \<open>A line is an indentation, the instruction and the columns of its text; a listing starts with the line of the
  start symbol.\<close>

type_synonym insn_source = "nat \<times> u32 \<times> string list"

fun print_program :: "u32 \<Rightarrow> insn_source list \<Rightarrow> string" where
  "print_program adr [] = []"
| "print_program adr ((indent, w, ts) # ls) = print_insn indent adr w ts @ print_program (adr + 4) ls"

definition start_line :: "u32 \<Rightarrow> string" where
  "start_line adr = hex_digits (unat adr) @ '' <_start>:''"

definition listing :: "u32 \<Rightarrow> insn_source list \<Rightarrow> string" where
  "listing adr ls = start_line adr @ CHR 0x0A # print_program adr ls"

definition printable :: "insn_source \<Rightarrow> bool" where
  "printable l = (case l of (indent, w, ts) \<Rightarrow> indent \<le> 900 \<and> length ts \<le> 2 \<and>
     list_all2 (\<lambda>n t. token t \<and> length t \<le> n) (take (length ts) [7, 8]) ts)"

text \<open>The bytes of the instructions laid over a memory.\<close>

fun code_bytes :: "(i32 \<Rightarrow> byte) \<Rightarrow> u32 \<Rightarrow> u32 list \<Rightarrow> (i32 \<Rightarrow> byte)" where
  "code_bytes f adr [] = f"
| "code_bytes f adr (w # ws) = code_bytes (upd_word f adr w) (adr + 4) ws"

subsection \<open>Loading a listing\<close>

lemma load_first_line:
  assumes "CHR 0x0A \<notin> set l" "length l < MAXLINE - 1"
  shows "load_lines (l @ CHR 0x0A # r) ld =
    (case load_line (l @ [CHR 0x0A]) ld of Inl e \<Rightarrow> Inl e | Inr ld' \<Rightarrow> load_lines r ld')"
  using fgets_line[OF assms, of r] by (simp add: load_lines.simps[of "l @ CHR 0x0A # r"] del: One_nat_def split: sum.split)

lemma digits_no_newline: "CHR 0x0A \<notin> set (hex_digits n)" "CHR 0x0A \<notin> set (hex_word w)" "CHR 0x00 \<notin> set (hex_digits n)"
  using numeral_digits[of n] numeral_hex_word[of w] hex_digit_props(9,10) unfolding numeral_string_def by metis+

lemma short_digits: "length (hex_digits (unat (w :: u32))) \<le> 8"
  using length_hex_digits[of 8 "unat w"] unsigned_less[of w, where 'a = nat] by simp

lemma small_sint: "uint (a :: u32) < 2 ^ 31 \<Longrightarrow> sint a = uint a"
proof -
  assume "uint a < 2 ^ 31"
  moreover have "- (2 ^ 31) \<le> uint a" by (rule order_trans[OF _ uint_ge_0]) simp
  ultimately show ?thesis by (simp add: sint_uint signed_take_bit_int_eq_self)
qed

text \<open>The line of the start symbol: the loader first tries it as data, which leaves its mark in \<open>hexes\<close> only.\<close>

lemma start_line_loaded:
  assumes "length (ld_hexes ld) = 36"
  shows "\<exists>ld'. load_line (start_line adr @ [CHR 0x0A]) ld = Inr ld' \<and> ld_mem ld' = ld_mem ld \<and> ld_asm ld' = ld_asm ld \<and>
    length (ld_hexes ld') = 36 \<and> ld_start ld' = sint adr"
proof -
  have c: "c_string (start_line adr @ [CHR 0x0A]) = start_line adr @ [CHR 0x0A]"
    using digits_no_newline(3)[of "unat adr"] unfolding c_string_def start_line_def
    by (subst takeWhile_eq_all_conv[THEN iffD2]) auto
  have x: "scan_x (start_line adr) = Some (adr, '' <_start>:'')"
    using scan_x_numeral[of "hex_digits (unat adr)" "'' <_start>:''" "[]"]
    by (simp add: start_line_def is_xdigit_def small_word)
  have t: "scan_s None ('' '' @ ''<_start>:'' @ []) = Some (''<_start>:'', [])"
    by (rule scan_s_token) (auto simp: is_space_def)
  then have d: "scan_data (start_line adr) = (2, adr, [''<_start>:''])"
    using x by (simp add: scan_data_def scan_s_blank Let_def)
  have i: "scan_insn (start_line adr) = (1, adr, 0, [])"
    using x by (simp add: scan_insn_def expect_def)
  have "scan_s None ([] @ ''_start>:'' @ []) = Some (''_start>:'', [])"
    by (rule scan_s_token) (auto simp: is_space_def)
  then have e: "scan_entry (start_line adr) = Some (adr, ''_start>:'')"
    using x by (simp add: scan_entry_def expect_def skip_space_def is_space_def)
  obtain h where h: "put_tokens 0 [''<_start>:''] (ld_hexes ld) = Inr h" "length h = 36" "h ! 0 = CHR ''<''"
    using assms by (simp add: drop_Cons')
  have "count_hexes h 1 = 0"
    using h(3) by (intro count_hexes_first) (auto simp: is_hex_def less_eq_char_def)
  then show ?thesis
    unfolding load_line_def c Let_def using d i e h by simp
qed

lemma aligned_uint: "(a :: u32) AND 3 = 0 \<longleftrightarrow> uint a mod 4 = 0"
proof -
  have "uint (a AND 3) = uint a AND mask 2" by (simp add: unsigned_and_eq mask_eq_exp_minus_1)
  also have "\<dots> = uint a mod 4" by (simp add: take_bit_eq_mask[symmetric] take_bit_eq_mod)
  finally show ?thesis by (metis uint_0_iff)
qed

lemma aligned_next: "adr AND 3 = 0 \<Longrightarrow> ((adr :: u32) + 4) AND 3 = 0"
  unfolding aligned_uint uint_word_ariths by (simp add: mod_mod_cancel)

lemma program_loaded:
  assumes "length (ld_hexes ld) = 36" "roomy (2 ^ 29) (ld_asm ld)" "adr AND 3 = 0"
    and "uint adr + 4 * int (length ls) \<le> 2 ^ 29" "\<forall>l \<in> set ls. printable l"
  shows "\<exists>ld'. load_lines (print_program adr ls) ld = Inr ld' \<and>
    byte_at (ld_mem ld') = code_bytes (byte_at (ld_mem ld)) adr (map (\<lambda>(_, w, _). w) ls) \<and> ld_start ld' = ld_start ld"
  using assms
proof (induction ls arbitrary: adr ld)
  case Nil
  then show ?case by (simp add: load_lines.simps[of "[]"])
next
  case (Cons l ls)
  obtain indent w ts where l: "l = (indent, w, ts)" by (cases l)
  have p: "indent \<le> 900" "length ts \<le> 2" "list_all2 (\<lambda>n t. token t \<and> length t \<le> n) (take (length ts) [7, 8]) ts"
    using Cons.prems(5) l by (auto simp: printable_def)
  have ok: "addr_ok adr" using Cons.prems(4) small_sint[of adr] by (simp add: addr_ok_def)
  have next_adr: "uint (adr + 4) = uint adr + 4" using Cons.prems(4) by (simp add: uint_word_ariths)
  have aligned: "(adr + 4) AND 3 = 0" by (rule aligned_next) (rule Cons.prems(3))
  obtain ld1 where ld1: "load_line (print_insn indent adr w ts) ld = Inr ld1"
      "byte_at (ld_mem ld1) = upd_word (byte_at (ld_mem ld)) adr w" "roomy (2 ^ 29) (ld_asm ld1)"
      "length (ld_hexes ld1) = 36" "ld_start ld1 = ld_start ld"
    using insn_line_loaded[OF p(2,3) Cons.prems(3) ok Cons.prems(1,2), of indent w] by blast
  have tok: "\<forall>t \<in> set ts. CHR 0x0A \<notin> set t \<and> length t \<le> 8"
    by (rule short_list_cases[OF p(2)]) (use p(3) in \<open>auto simp: token_def is_space_def\<close>)
  then have "CHR 0x0A \<notin> set (columns TAB ts)" by (auto simp: columns_def)
  then have nl: "CHR 0x0A \<notin> set (insn_body indent adr w ts)"
    using digits_no_newline by (auto simp: insn_body_def)
  have "length (columns TAB ts) \<le> 18" by (rule short_list_cases[OF p(2)]) (use tok in auto)
  then have short: "length (insn_body indent adr w ts) < MAXLINE - 1"
    using p(1) short_digits[of adr] by (simp add: insn_body_def MAXLINE_def)
  obtain ld' where "load_lines (print_program (adr + 4) ls) ld1 = Inr ld'"
      "byte_at (ld_mem ld') = code_bytes (byte_at (ld_mem ld1)) (adr + 4) (map (\<lambda>(_, w, _). w) ls)" "ld_start ld' = ld_start ld1"
    using Cons.IH[of ld1 "adr + 4"] ld1(3,4) aligned next_adr Cons.prems(4,5) by auto
  then show ?case
    using load_first_line[OF nl short, of "print_program (adr + 4) ls" ld] ld1(1,2,5) l
    by (simp add: print_insn_def insn_body_def)
qed

text \<open>A printed listing is loaded: the start address is that of the start symbol, and the memory is as before
  with the instructions laid over it from there on.\<close>

lemma listing_load:
  assumes "length hexes = 36" "adr AND 3 = 0" "uint adr + 4 * int (length ls) \<le> 2 ^ 29" "\<forall>l \<in> set ls. printable l"
  shows "\<exists>ld. read_exec m assembly_create hexes (listing adr ls) = Inr (sint adr, ld) \<and>
    byte_at (ld_mem ld) = code_bytes (byte_at m) adr (map (\<lambda>(_, w, _). w) ls)"
proof -
  let ?ld = "\<lparr>ld_mem = m, ld_asm = assembly_create, ld_hexes = hexes, ld_start = -1, ld_count = 0, ld_log = []\<rparr>"
  obtain ld1 where ld1: "load_line (start_line adr @ [CHR 0x0A]) ?ld = Inr ld1" "ld_mem ld1 = m"
      "ld_asm ld1 = assembly_create" "length (ld_hexes ld1) = 36" "ld_start ld1 = sint adr"
    using start_line_loaded[of ?ld adr] assms(1) by auto
  obtain ld where ld: "load_lines (print_program adr ls) ld1 = Inr ld"
      "byte_at (ld_mem ld) = code_bytes (byte_at m) adr (map (\<lambda>(_, w, _). w) ls)" "ld_start ld = sint adr"
    using program_loaded[of ld1 adr ls] assms(2-4) ld1(2-5) create_roomy[of "2 ^ 29"] by auto
  have "CHR 0x0A \<notin> set (start_line adr)" using digits_no_newline by (simp add: start_line_def)
  moreover have "length (start_line adr) < MAXLINE - 1" using short_digits[of adr] by (simp add: start_line_def MAXLINE_def)
  ultimately have "load_lines (listing adr ls) ?ld = Inr ld"
    using ld(1) ld1(1) by (simp add: listing_def load_first_line del: One_nat_def)
  moreover have "sint adr \<noteq> -1"
  proof
    assume "sint adr = -1"
    moreover have "sint adr = uint adr" using assms(3) by (intro small_sint) simp
    ultimately show False using uint_ge_0[of adr] by linarith
  qed
  ultimately show ?thesis using ld(2,3) by (simp add: read_exec_def)
qed

subsection \<open>Running a listing\<close>

text \<open>The reference machine with the two system calls for input and output; it stops outside \<open>sim_domain\<close>.\<close>

fun io_run :: "nat \<Rightarrow> isa_state \<times> byte list \<times> byte list \<Rightarrow> (isa_state \<times> byte list \<times> byte list) option" where
  "io_run 0 c = Some c"
| "io_run (Suc n) (s, input, output) =
     (case isa_fetch s of None \<Rightarrow> None
      | Some w \<Rightarrow>
          if opcode_of w = ECALL then
            if iregs s 17 = 1 then
              io_run n (s\<lparr>ipc := ipc s + 4, iregs := (iregs s)(10 := if input = [] then -1 else ucast (hd input))\<rparr>, drop 1 input, output)
            else if iregs s 17 = 2 then io_run n (s\<lparr>ipc := ipc s + 4\<rparr>, input, output @ [ucast (iregs s 10)])
            else None
          else if sim_domain w s then
            (case isa_exec w s of None \<Rightarrow> None | Some s' \<Rightarrow> io_run n (s', input, output))
          else None)"

definition abs_io :: "cpu \<Rightarrow> isa_state \<times> byte list \<times> byte list" where
  "abs_io st = (abs_cpu st, stdin st, stdout st)"

lemma sim_step_ecall:
  assumes "isa_fetch (abs_cpu st) = Some w" "opcode_of w = ECALL"
  shows "\<exists>m. byte_at m = byte_at (mem st) \<and> sim_step start_addr st = ecall_result start_addr (st\<lparr>mem := m\<rparr>)"
  using sim_step_fetch[OF assms(1), of start_addr] assms(2) by (auto simp: exec_inst_def exec_ecall_result)

lemma io_run_step:
  assumes "io_run (Suc n) (abs_io st) = Some c"
  shows "\<exists>st'. sim_step start_addr st = Next st' \<and> io_run n (abs_io st') = Some c"
proof -
  obtain w where w: "isa_fetch (abs_cpu st) = Some w" using assms by (auto simp: abs_io_def split: option.splits)
  show ?thesis
  proof (cases "opcode_of w = ECALL")
    case True
    obtain m where m: "byte_at m = byte_at (mem st)" "sim_step start_addr st = ecall_result start_addr (st\<lparr>mem := m\<rparr>)"
      using sim_step_ecall[OF w True] by blast
    show ?thesis using assms w True m
      by (auto simp: abs_io_def ecall_result_def abs_cpu_def split: if_splits)
  next
    case False
    then obtain s' where s': "isa_exec w (abs_cpu st) = Some s'" "sim_domain w (abs_cpu st)" "io_run n (s', stdin st, stdout st) = Some c"
      using assms w by (auto simp: abs_io_def split: if_splits option.splits)
    obtain st' where "sim_step start_addr st = Next st'" "abs_cpu st' = s'" "io_same st st'"
      using sim_step_isa[OF w s'(1,2)] by blast
    then show ?thesis using s'(3) by (auto simp: abs_io_def io_same_def)
  qed
qed

lemma io_run_simulated:
  "io_run n (abs_io st) = Some c \<Longrightarrow> \<exists>st'. abs_io st' = c \<and> (\<forall>fuel. sim_loop (n + fuel) start_addr st = sim_loop fuel start_addr st')"
proof (induction n arbitrary: st)
  case (Suc n)
  obtain st1 where "sim_step start_addr st = Next st1" "io_run n (abs_io st1) = Some c"
    using io_run_step[OF Suc.prems, of start_addr] by blast
  with Suc.IH[of st1] show ?case by auto
qed (auto simp: abs_io_def)

text \<open>C2: a whole run of the simulator, for the listings and runs the code handles. The listing has the line of the start
  symbol first, then its instructions from an aligned address, all below \<open>2 ^ 29\<close>, with operands of at most 7 and 8
  characters (\<open>printable\<close>; longer ones write past \<open>hexes\<close>, see \<open>insn_line_overflow\<close>). The
  reference machine runs the program, reading and writing bytes, with every step inside \<open>sim_domain\<close>: no branch that
  is not taken (\<open>untaken_branch_stuck\<close>), no \<open>JALR\<close> (\<open>jalr_target\<close>), no write to register 0, no
  negative offset of a load or store, no jump of 2 kB or more, no sign to extend in a byte or halfword load, no division of zero.
  When such a run comes to the system call that ends it, the simulator ends in the same state, having read and written the same
  bytes, and reports the distance from the start as the number of instructions; no fuel above the number of steps changes that.
  Nothing is claimed of a program outside this class.\<close>

theorem program_runs:
  assumes "pass_args_to_program memory_create argv = Inr (m, 2)" and "files (argv ! 1) = listing adr ls"
    and l: "length hexes = 36" "adr AND 3 = 0" "uint adr + 4 * int (length ls) \<le> 2 ^ 29" "\<forall>l \<in> set ls. printable l"
    and run: "io_run n (\<lparr>ipc = adr, iregs = uninit(0 := 0), ibytes = code_bytes (byte_at m) adr (map (\<lambda>(_, w, _). w) ls)\<rparr>, input, []) =
       Some (s, rest, out)"
    and stop: "isa_fetch s = Some w" "opcode_of w = ECALL" "iregs s 17 \<in> {3, 93}"
  shows "\<exists>st. abs_cpu st = s \<and> stdin st = rest \<and> stdout st = out \<and>
     (\<forall>fuel > n. simulator fuel files writable hexes uninit input argv = Some (Summary False (uint (ipc s - adr) div 4 + 1) st))"
proof -
  obtain ld where ld: "read_exec m assembly_create hexes (listing adr ls) = Inr (sint adr, ld)"
      "byte_at (ld_mem ld) = code_bytes (byte_at m) adr (map (\<lambda>(_, w, _). w) ls)"
    using listing_load[OF l] by blast
  let ?st = "\<lparr>program_counter = adr, reg = uninit(0 := 0), mem = ld_mem ld, stdin = input, stdout = []\<rparr>"
  have "io_run n (abs_io ?st) = Some (s, rest, out)" using run ld(2) by (simp add: abs_io_def abs_cpu_def)
  then obtain st1 where st1: "abs_io st1 = (s, rest, out)" "\<And>fuel. sim_loop (n + fuel) adr ?st = sim_loop fuel adr st1"
    using io_run_simulated[of n ?st _ adr] by blast
  then have f: "isa_fetch (abs_cpu st1) = Some w" using stop(1) by (simp add: abs_io_def)
  obtain m1 where m1: "byte_at m1 = byte_at (mem st1)" "sim_step adr st1 = ecall_result adr (st1\<lparr>mem := m1\<rparr>)"
    using sim_step_ecall[OF f stop(2)] by blast
  let ?fin = "st1\<lparr>mem := m1\<rparr>"
  have a: "abs_cpu ?fin = s" "stdin ?fin = rest" "stdout ?fin = out"
    using st1(1) m1(1) by (simp_all add: abs_io_def abs_cpu_mem)
  have r: "reg ?fin 17 \<in> {3, 93}" "program_counter ?fin = ipc s" using stop(3) a(1) by (auto simp: abs_cpu_def)
  have "sim_step adr st1 = Return (uint (ipc s - adr) div 4 + 1) ?fin"
    unfolding m1(2) ecall_result_def using r by auto
  then have loop: "sim_loop (Suc k) adr st1 = Some (Return (uint (ipc s - adr) div 4 + 1) ?fin)" for k by simp
  have "simulator fuel files writable hexes uninit input argv = Some (Summary False (uint (ipc s - adr) div 4 + 1) ?fin)"
    if more: "n < fuel" for fuel
  proof -
    obtain k where k: "fuel = n + Suc k" using less_imp_Suc_add[OF more] by auto
    have "simulate fuel (ld_mem ld) adr uninit input = Some (Return (uint (ipc s - adr) div 4 + 1) ?fin)"
      unfolding simulate_def k st1(2) by (rule loop)
    then show ?thesis using assms(1,2) ld(1) by (simp add: simulator_def run_loaded_def)
  qed
  with a show ?thesis by (intro exI[of _ ?fin]) blast
qed

text \<open>A program that writes the letter A and ends, its listing, and the run.\<close>

definition demo_lines :: "insn_source list" where
  "demo_lines = [(3, 0x04100513, [''li'', ''a0,65'']), (3, 0x00200893, [''li'', ''a7,2'']), (3, 0x73, [''ecall'']),
     (3, 0x00300893, [''li'', ''a7,3'']), (3, 0x73, [''ecall''])]"

definition demo_start :: isa_state where
  "demo_start = \<lparr>ipc = 0x10074, iregs = (\<lambda>_. 7)(0 := 0), ibytes = code_bytes (byte_at memory_create) 0x10074 (map (\<lambda>(_, w, _). w) demo_lines)\<rparr>"

lemma demo_io_run: "map_option (\<lambda>(s, rest, out). (ipc s, iregs s 17, isa_fetch s, rest, out)) (io_run 4 (demo_start, [1], [])) =
    Some (0x10084, 3, Some 0x73, [1], [0x41])"
  by code_simp

lemma program_runs_witness:
  "\<exists>st. stdout st = [0x41] \<and> simulator 5 (\<lambda>_. listing 0x10074 demo_lines) (\<lambda>_. False) (replicate 36 (CHR ''0'')) (\<lambda>_. 7) [1] [[0x73], [0x70]] =
     Some (Summary False 5 st)"
proof -
  obtain s where s: "io_run 4 (demo_start, [1], []) = Some (s, [1], [0x41])" "ipc s = 0x10084" "iregs s 17 = 3" "isa_fetch s = Some 0x73"
    using demo_io_run by (auto split: prod.splits)
  have "pass_args_to_program memory_create [[0x73], [0x70]] = Inr (memory_create, 2)"
    by (simp add: pass_args_to_program_def SEPARATOR_def)
  moreover have "\<forall>l \<in> set demo_lines. printable l"
    by (auto simp: demo_lines_def printable_def token_def is_space_def)
  moreover have "opcode_of 0x73 = ECALL" by code_simp
  moreover have "(0x10074 :: u32) AND 3 = 0" "uint (0x10074 :: u32) + 4 * int (length demo_lines) \<le> 2 ^ 29"
    by (simp_all add: demo_lines_def)
  ultimately show ?thesis
    using program_runs[of "[[0x73], [0x70]]" memory_create "\<lambda>_. listing 0x10074 demo_lines" "0x10074" demo_lines "replicate 36 (CHR ''0'')"
        4 "\<lambda>_. 7" "[1]" s "[1]" "[0x41]" "0x73" "\<lambda>_. False"] s
    by (auto simp: demo_start_def)
qed

end
