(* ===== verification/Syscalls.thy ===== *)
theory Syscalls
  imports Simulator LibC
begin

text \<open>
  The system calls of \<open>A6/handout/lib.c\<close> on the simulator of A5. Each wrapper is a few lines of inline assembly; the
  registers that the compiler chooses for its operands are arguments of the model, and its lines are taken to follow each
  other. The assembler's instructions for \<open>mv\<close> and \<open>li\<close> are those of its manual, \<open>addi\<close> from a register and from
  register zero.
\<close>

subsection \<open>The wrappers\<close>

abbreviation (input) A0 :: nat where "A0 \<equiv> 10"
abbreviation (input) A1 :: nat where "A1 \<equiv> 11"
abbreviation (input) A2 :: nat where "A2 \<equiv> 12"
abbreviation (input) A7 :: nat where "A7 \<equiv> 17"

datatype asm = Mv nat nat | Li nat nat | Ecall

definition inp_asm :: "nat \<Rightarrow> asm list" where
  "inp_asm c = [Li A7 1, Ecall, Mv c A0]"

definition outp_asm :: "nat \<Rightarrow> asm list" where
  "outp_asm c = [Mv A0 c, Li A7 2, Ecall]"

definition terminate_asm :: "nat \<Rightarrow> asm list" where
  "terminate_asm status = [Mv A0 status, Li A7 3, Ecall]"

definition read_int_buffer_asm :: "nat \<Rightarrow> nat \<Rightarrow> nat \<Rightarrow> nat \<Rightarrow> asm list" where
  "read_int_buffer_asm file buffer max_size retval = [Mv A0 file, Mv A1 buffer, Mv A2 max_size, Li A7 4, Ecall, Mv retval A0]"

definition write_int_buffer_asm :: "nat \<Rightarrow> nat \<Rightarrow> nat \<Rightarrow> nat \<Rightarrow> asm list" where
  "write_int_buffer_asm file buffer count retval = [Mv A0 file, Mv A1 buffer, Mv A2 count, Li A7 5, Ecall, Mv retval A0]"

definition open_file_asm :: "nat \<Rightarrow> nat \<Rightarrow> nat \<Rightarrow> asm list" where
  "open_file_asm path flags retval = [Mv A0 path, Mv A1 flags, Li A7 6, Ecall, Mv retval A0]"

definition close_file_asm :: "nat \<Rightarrow> nat \<Rightarrow> asm list" where
  "close_file_asm file retval = [Mv A0 file, Li A7 6, Ecall, Mv retval A0]"

subsection \<open>Their instructions\<close>

definition addi :: "nat \<Rightarrow> nat \<Rightarrow> nat \<Rightarrow> u32" where
  "addi rd rs imm = push_bit 20 (of_nat imm) OR push_bit 15 (of_nat rs) OR push_bit 7 (of_nat rd) OR 0x13"

fun assemble :: "asm \<Rightarrow> u32" where
  "assemble (Mv rd rs) = addi rd rs 0"
| "assemble (Li rd n) = addi rd 0 n"
| "assemble Ecall = 0x73"

text \<open>The registers are numbers of registers, the numbers fit in the instruction.\<close>

fun asm_ok :: "asm \<Rightarrow> bool" where
  "asm_ok (Mv rd rs) \<longleftrightarrow> 0 < rd \<and> rd < 32 \<and> rs < 32"
| "asm_ok (Li rd n) \<longleftrightarrow> 0 < rd \<and> rd < 32 \<and> n < 2048"
| "asm_ok Ecall \<longleftrightarrow> True"

definition placed :: "asm list \<Rightarrow> isa_state \<Rightarrow> bool" where
  "placed ins s \<longleftrightarrow> list_all asm_ok ins \<and> (\<forall>i < length ins. isa_fetch (s\<lparr>ipc := ipc s + 4 * of_nat i\<rparr>) = Some (assemble (ins ! i)))"

lemma fetch_regs: "isa_fetch (s\<lparr>iregs := r, ipc := a\<rparr>) = isa_fetch (s\<lparr>ipc := a\<rparr>)"
  by (simp add: isa_fetch_def)

lemma placed_Cons:
  assumes "placed (i # ins) s"
  shows "asm_ok i" "isa_fetch s = Some (assemble i)" "placed ins (s\<lparr>ipc := ipc s + 4, iregs := r\<rparr>)"
proof -
  have f: "isa_fetch (s\<lparr>ipc := ipc s + 4 * of_nat k\<rparr>) = Some (assemble ((i # ins) ! k))" if "k < Suc (length ins)" for k
    using assms that by (simp add: placed_def)
  show "asm_ok i" using assms by (simp add: placed_def)
  show "isa_fetch s = Some (assemble i)" using f[of 0] by simp
  have "isa_fetch (s\<lparr>ipc := ipc s + 4, iregs := r\<rparr>\<lparr>ipc := ipc s + 4 + 4 * of_nat k\<rparr>) = Some (assemble (ins ! k))"
    if "k < length ins" for k
    using f[of "Suc k"] that by (simp add: fetch_regs algebra_simps)
  then show "placed ins (s\<lparr>ipc := ipc s + 4, iregs := r\<rparr>)" using assms by (simp add: placed_def)
qed

lemma small_bits: "n < 2 ^ k \<Longrightarrow> k \<le> i \<Longrightarrow> \<not> bit (n :: nat) i"
  using bit_take_bit_iff[of k n i] by (simp add: take_bit_nat_eq_self)

lemma addi_fields:
  assumes "rd < 32" "rs < 32" "n < 2048"
  shows "bits 6 0 (addi rd rs n) = 0x13" "bits 14 12 (addi rd rs n) = 0" "bits 11 7 (addi rd rs n) = of_nat rd"
    "bits 19 15 (addi rd rs n) = of_nat rs" "imm_i (addi rd rs n) = of_nat n"
proof -
  note b = small_bits[of rd 5] small_bits[of rs 5] small_bits[of n 11]
  show "bits 6 0 (addi rd rs n) = 0x13" "bits 14 12 (addi rd rs n) = 0" "bits 11 7 (addi rd rs n) = of_nat rd"
    "bits 19 15 (addi rd rs n) = of_nat rs" "imm_i (addi rd rs n) = of_nat n"
    unfolding bits_def addi_def imm_i_def word32_bits bit_simps using assms b by simp_all
qed

lemma addi_step:
  assumes "0 < rd" "rd < 32" "rs < 32" "n < 2048" "isa_fetch s = Some (addi rd rs n)"
  shows "io_run (Suc k) (s, input, written) = io_run k (s\<lparr>ipc := ipc s + 4, iregs := (iregs s)(rd := iregs s rs + of_nat n)\<rparr>, input, written)"
proof -
  have u: "unat (of_nat k :: u32) = k" if "k < 32" for k using that by (simp add: unsigned_of_nat take_bit_nat_eq_self)
  note f = addi_fields[OF assms(2-4)]
  have "isa_exec (addi rd rs n) s = Some (s\<lparr>ipc := ipc s + 4, iregs := (iregs s)(rd := iregs s rs + of_nat n)\<rparr>)"
    using assms(1) by (simp add: isa_exec_def isa_alu_imm_def isa_next_def isa_write_def f u assms(2,3))
  moreover have "sim_domain (addi rd rs n) s" using assms(1) by (simp add: sim_domain_def f u assms(2))
  moreover have "opcode_of (addi rd rs n) \<noteq> ECALL" unfolding field_bits(1) f(1) by code_simp
  ultimately show ?thesis using assms(5) by simp
qed

subsection \<open>Running them\<close>

text \<open>Registers, input and output; \<open>None\<close> is any other system call.\<close>

definition char_read :: "byte list \<Rightarrow> i32" where
  "char_read input = (if input = [] then -1 else ucast (hd input))"

fun asm_run :: "asm list \<Rightarrow> (nat \<Rightarrow> i32) \<times> byte list \<times> byte list \<Rightarrow> ((nat \<Rightarrow> i32) \<times> byte list \<times> byte list) option" where
  "asm_run [] c = Some c"
| "asm_run (Mv rd rs # ins) (r, input, output) = asm_run ins (r(rd := r rs), input, output)"
| "asm_run (Li rd n # ins) (r, input, output) = asm_run ins (r(rd := of_nat n), input, output)"
| "asm_run (Ecall # ins) (r, input, output) =
     (if r A7 = 1 then asm_run ins (r(A0 := char_read input), drop 1 input, output)
      else if r A7 = 2 then asm_run ins (r, input, output @ [ucast (r A0)])
      else None)"

lemma asm_run_io:
  assumes "iregs s 0 = 0" "placed ins s" "asm_run ins (iregs s, input, written) = Some (r, input', written')"
  shows "io_run (length ins) (s, input, written) =
    Some (s\<lparr>ipc := ipc s + 4 * of_nat (length ins), iregs := r\<rparr>, input', written')"
  using assms
proof (induction ins arbitrary: s input written)
  case (Cons i ins)
  note p = placed_Cons[OF Cons.prems(2)]
  have ec: "opcode_of 0x73 = ECALL" by code_simp
  have IH: "io_run (length ins) (s\<lparr>ipc := ipc s + 4, iregs := q\<rparr>, j, out) =
      Some (s\<lparr>ipc := ipc s + 4 * of_nat (length (i # ins)), iregs := r\<rparr>, input', written')"
    if "q 0 = 0" "asm_run ins (q, j, out) = Some (r, input', written')" for q j out
    using Cons.IH[of "s\<lparr>ipc := ipc s + 4, iregs := q\<rparr>" j out] that p(3) by (simp add: algebra_simps)
  show ?case
  proof (cases i)
    case (Mv rd rs)
    then show ?thesis using p(1,2) Cons.prems(1,3) addi_step[of rd rs 0 s] IH[of "(iregs s)(rd := iregs s rs)" input written]
      by (simp del: io_run.simps)
  next
    case (Li rd n)
    then show ?thesis using p(1,2) Cons.prems(1,3) addi_step[of rd 0 n s] IH[of "(iregs s)(rd := of_nat n)" input written]
      by (simp del: io_run.simps)
  next
    case Ecall
    then show ?thesis using Cons.prems(1,3) p(2) ec IH[of "iregs s"]
        IH[of "(iregs s)(A0 := char_read input)"]
      by (auto simp: char_read_def split: if_splits)
  qed
qed simp

text \<open>On the simulator.\<close>

declare sim_loop.simps [simp del]

lemma asm_run_simulated:
  assumes "reg st 0 = 0" "placed ins (abs_cpu st)" "asm_run ins (reg st, stdin st, stdout st) = Some (r, input, written)"
  shows "\<exists>st'. abs_cpu st' = (abs_cpu st)\<lparr>ipc := program_counter st + 4 * of_nat (length ins), iregs := r\<rparr> \<and>
    stdin st' = input \<and> stdout st' = written \<and> (\<forall>fuel. sim_loop (length ins + fuel) a st = sim_loop fuel a st')"
proof -
  have r: "iregs (abs_cpu st) = reg st" "ipc (abs_cpu st) = program_counter st" by (simp_all add: abs_cpu_def)
  have "io_run (length ins) (abs_io st) =
      Some ((abs_cpu st)\<lparr>ipc := program_counter st + 4 * of_nat (length ins), iregs := r\<rparr>, input, written)"
    using asm_run_io[of "abs_cpu st" ins] assms unfolding abs_io_def r by simp
  from io_run_simulated[OF this, of a] show ?thesis by (auto simp: abs_io_def)
qed

lemma placed_append:
  assumes "placed (xs @ ys) s"
  shows "placed xs s" "placed ys (s\<lparr>ipc := ipc s + 4 * of_nat (length xs), iregs := r\<rparr>)"
proof -
  have f: "isa_fetch (s\<lparr>ipc := ipc s + 4 * of_nat k\<rparr>) = Some (assemble ((xs @ ys) ! k))" if "k < length xs + length ys" for k
    using assms that by (simp add: placed_def)
  show "placed xs s" using assms f by (auto simp: placed_def nth_append)
  have "isa_fetch (s\<lparr>iregs := r, ipc := ipc s + 4 * of_nat (length xs) + 4 * of_nat k\<rparr>) = Some (assemble (ys ! k))"
    if "k < length ys" for k
    using f[of "length xs + k"] that nth_append_length_plus[of xs ys k] by (simp add: fetch_regs algebra_simps)
  then show "placed ys (s\<lparr>ipc := ipc s + 4 * of_nat (length xs), iregs := r\<rparr>)" using assms by (simp add: placed_def)
qed

lemma sim_loop_more: "sim_loop fuel a st = Some r \<Longrightarrow> sim_loop (k + fuel) a st = Some r"
proof (induction fuel arbitrary: st)
  case (Suc fuel)
  then show ?case by (auto simp: sim_loop.simps split: sim_outcome.splits)
qed (simp add: sim_loop.simps)

text \<open>Up to a system call that ends the run or is not served.\<close>

lemma asm_run_to_ecall:
  assumes "reg st 0 = 0" "placed (xs @ Ecall # ys) (abs_cpu st)"
    "asm_run xs (reg st, stdin st, stdout st) = Some (r, stdin st, stdout st)"
  shows "\<exists>st'. reg st' = r \<and> program_counter st' = program_counter st + 4 * of_nat (length xs) \<and> stdout st' = stdout st \<and>
    isa_fetch (abs_cpu st') = Some 0x73 \<and> (\<forall>fuel. sim_loop (length xs + fuel) a st = sim_loop fuel a st')"
proof -
  note p = placed_append(1)[OF assms(2)] placed_append(2)[OF assms(2), of r]
  obtain st' where st': "abs_cpu st' = (abs_cpu st)\<lparr>ipc := program_counter st + 4 * of_nat (length xs), iregs := r\<rparr>"
      "stdout st' = stdout st" "\<forall>fuel. sim_loop (length xs + fuel) a st = sim_loop fuel a st'"
    using asm_run_simulated[OF assms(1) p(1) assms(3)] by blast
  moreover have "isa_fetch (abs_cpu st') = Some 0x73"
    using placed_Cons(2)[OF p(2)] st'(1) by (simp add: abs_cpu_def)
  moreover have "reg st' = r" "program_counter st' = program_counter st + 4 * of_nat (length xs)"
    using st'(1) by (auto simp: abs_cpu_def)
  ultimately show ?thesis by blast
qed

lemma unserved_call:
  assumes "reg st 0 = 0" "placed (xs @ Ecall # ys) (abs_cpu st)"
    "asm_run xs (reg st, stdin st, stdout st) = Some (r, stdin st, stdout st)" "r A7 \<notin> {1, 2, 3, 93}"
  shows "sim_loop fuel a st = None"
proof -
  obtain st' where st': "reg st' = r" "isa_fetch (abs_cpu st') = Some 0x73" "\<forall>fuel. sim_loop (length xs + fuel) a st = sim_loop fuel a st'"
    using asm_run_to_ecall[OF assms(1-3)] by blast
  have "opcode_of 0x73 = ECALL" by code_simp
  from ecall_behaviour[OF st'(2) this] have "sim_loop (length xs + fuel) a st = None" using st'(1,3) assms(4) by auto
  then show ?thesis using sim_loop_more[of fuel a st] by (cases "sim_loop fuel a st") auto
qed

lemma ending_call:
  assumes "reg st 0 = 0" "placed (xs @ Ecall # ys) (abs_cpu st)"
    "asm_run xs (reg st, stdin st, stdout st) = Some (r, stdin st, stdout st)" "r A7 = 3"
  shows "\<exists>n st'. sim_loop (length xs + Suc fuel) a st = Some (Return n st') \<and> stdout st' = stdout st"
proof -
  obtain st' where st': "reg st' = r" "stdout st' = stdout st" "isa_fetch (abs_cpu st') = Some 0x73"
      "\<forall>fuel. sim_loop (length xs + fuel) a st = sim_loop fuel a st'"
    using asm_run_to_ecall[OF assms(1-3)] by blast
  have "opcode_of 0x73 = ECALL" by code_simp
  from sim_step_ecall[OF st'(3) this, of a] obtain m where "sim_step a st' = ecall_result a (st'\<lparr>mem := m\<rparr>)" by blast
  then have "sim_loop (Suc fuel) a st' = Some (Return (uint (program_counter st' - a) div 4 + 1) (st'\<lparr>mem := m\<rparr>))"
    using st'(1) assms(4) by (simp add: ecall_result_def sim_loop.simps)
  then have "sim_loop (length xs + Suc fuel) a st = Some (Return (uint (program_counter st' - a) div 4 + 1) (st'\<lparr>mem := m\<rparr>))"
    using st'(4) by (simp del: add_Suc_right)
  moreover have "stdout (st'\<lparr>mem := m\<rparr>) = stdout st" using st'(2) by simp
  ultimately show ?thesis by blast
qed

subsection \<open>Properties\<close>

definition file_calls :: "nat \<Rightarrow> nat \<Rightarrow> nat \<Rightarrow> nat \<Rightarrow> asm list list" where
  "file_calls x y z retval = [read_int_buffer_asm x y z retval, write_int_buffer_asm x y z retval, open_file_asm x y retval, close_file_asm x retval]"

lemma file_calls_split:
  assumes "ins \<in> set (file_calls x y z retval)"
  shows "\<exists>xs ys r. ins = xs @ Ecall # ys \<and> asm_run xs (q, input, written) = Some (r, input, written) \<and> r A7 \<in> {4, 5, 6}"
proof -
  have e: "\<exists>xs ys r. pre @ Ecall # suf = xs @ Ecall # ys \<and> asm_run xs (q, input, written) = Some (r, input, written) \<and> r A7 \<in> {4, 5, 6}"
    if "asm_run pre (q, input, written) = Some (p, input, written)" "p A7 \<in> {4, 5, 6}" for pre suf p
    using that by blast
  from assms consider "ins = [Mv A0 x, Mv A1 y, Mv A2 z, Li A7 4] @ Ecall # [Mv retval A0]" | "ins = [Mv A0 x, Mv A1 y, Mv A2 z, Li A7 5] @ Ecall # [Mv retval A0]"
    | "ins = [Mv A0 x, Mv A1 y, Li A7 6] @ Ecall # [Mv retval A0]" | "ins = [Mv A0 x, Li A7 6] @ Ecall # [Mv retval A0]"
    by (auto simp: file_calls_def read_int_buffer_asm_def write_int_buffer_asm_def open_file_asm_def close_file_asm_def)
  then show ?thesis by cases (simp_all only:, (rule e, simp, simp)+)
qed

text \<open>C20: on the simulator the library's \<open>outp\<close> writes its character and \<open>inp\<close> reads the next byte as \<open>LibC\<close> says,
  with whatever registers the compiler takes, and go on behind their instructions with the memory as it was; \<open>terminate\<close> ends the run.
  The functions for files, closing included, never come back: their system calls are not served, and the simulator repeats the
  instruction for ever.\<close>

theorem library_calls:
  assumes "reg st 0 = 0"
  shows "(placed (outp_asm c) (abs_cpu st) \<longrightarrow> (\<exists>st'. (\<forall>fuel. sim_loop (3 + fuel) a st = sim_loop fuel a st') \<and>
      stdout st' = print_string [ucast (reg st c)] (stdout st) \<and> stdin st' = stdin st \<and>
      program_counter st' = program_counter st + 12 \<and> byte_at (mem st') = byte_at (mem st))) \<and>
    (placed (inp_asm c) (abs_cpu st) \<longrightarrow> (\<exists>st'. (\<forall>fuel. sim_loop (3 + fuel) a st = sim_loop fuel a st') \<and>
      (ucast (reg st' c), stdin st') = inp (stdin st) \<and> stdout st' = stdout st \<and>
      program_counter st' = program_counter st + 12 \<and> byte_at (mem st') = byte_at (mem st))) \<and>
    (placed (terminate_asm c) (abs_cpu st) \<longrightarrow> (\<exists>n st'. sim_loop (3 + fuel) a st = Some (Return n st') \<and> stdout st' = stdout st)) \<and>
    (\<forall>ins \<in> set (file_calls x y z retval). placed ins (abs_cpu st) \<longrightarrow> sim_loop fuel a st = None)"
proof (intro conjI impI ballI)
  assume "placed (outp_asm c) (abs_cpu st)"
  from asm_run_simulated[OF assms this, of _ _ _ a]
  show "\<exists>st'. (\<forall>fuel. sim_loop (3 + fuel) a st = sim_loop fuel a st') \<and>
      stdout st' = print_string [ucast (reg st c)] (stdout st) \<and> stdin st' = stdin st \<and>
      program_counter st' = program_counter st + 12 \<and> byte_at (mem st') = byte_at (mem st)"
    by (auto simp: outp_asm_def abs_cpu_def numeral_3_eq_3)
next
  assume "placed (inp_asm c) (abs_cpu st)"
  from asm_run_simulated[OF assms this, of _ _ _ a] obtain st' where
    "abs_cpu st' = (abs_cpu st)\<lparr>ipc := program_counter st + 12, iregs := (reg st)(A7 := 1, A0 := char_read (stdin st), c := char_read (stdin st))\<rparr>"
    "stdin st' = drop 1 (stdin st)" "stdout st' = stdout st" "\<forall>fuel. sim_loop (3 + fuel) a st = sim_loop fuel a st'"
    by (auto simp: inp_asm_def numeral_3_eq_3)
  moreover have "ucast (-1 :: i32) = (-1 :: byte)" by code_simp
  ultimately show "\<exists>st'. (\<forall>fuel. sim_loop (3 + fuel) a st = sim_loop fuel a st') \<and>
      (ucast (reg st' c), stdin st') = inp (stdin st) \<and> stdout st' = stdout st \<and>
      program_counter st' = program_counter st + 12 \<and> byte_at (mem st') = byte_at (mem st)"
    by (intro exI[of _ st']) (auto simp: abs_cpu_def inp_def char_read_def split: list.splits)
next
  assume "placed (terminate_asm c) (abs_cpu st)"
  then have "placed ([Mv A0 c, Li A7 3] @ [Ecall]) (abs_cpu st)" by (simp add: terminate_asm_def)
  from ending_call[OF assms this, of _ fuel a]
  show "\<exists>n st'. sim_loop (3 + fuel) a st = Some (Return n st') \<and> stdout st' = stdout st" by (simp add: numeral_3_eq_3)
next
  fix ins assume ins: "ins \<in> set (file_calls x y z retval)" "placed ins (abs_cpu st)"
  obtain xs ys r where "ins = xs @ Ecall # ys" "asm_run xs (reg st, stdin st, stdout st) = Some (r, stdin st, stdout st)"
      "r A7 \<in> {4, 5, 6}"
    using file_calls_split[OF ins(1)] by blast
  then show "sim_loop fuel a st = None" using unserved_call[OF assms, of xs ys r] ins(2) by auto
qed

text \<open>\<open>outp\<close> with the character in \<open>t0\<close>, and \<open>close_file\<close>.\<close>

lemma demo_outp: "placed (outp_asm 5) (abs_cpu (demo_cpu (map assemble (outp_asm 5))))"
  by code_simp

lemma demo_close: "placed (close_file_asm 5 6) (abs_cpu (demo_cpu (map assemble (close_file_asm 5 6))))"
  by code_simp

lemma library_calls_witness:
  "(\<exists>st'. sim_loop 3 0 (demo_cpu (map assemble (outp_asm 5))) = sim_loop 0 0 st' \<and> stdout st' = [0]) \<and>
   sim_loop 1000 0 (demo_cpu (map assemble (close_file_asm 5 6))) = None"
proof -
  have z: "reg (demo_cpu ws) 0 = 0" "reg (demo_cpu ws) 5 = 0" "stdout (demo_cpu ws) = []" for ws by (simp_all add: demo_cpu_def)
  have "\<exists>st'. sim_loop 3 0 (demo_cpu (map assemble (outp_asm 5))) = sim_loop 0 0 st' \<and> stdout st' = [0]"
    using library_calls[OF z(1)[of "map assemble (outp_asm 5)"], where c = 5 and a = 0] demo_outp z
    by (metis add_0_right print_string.simps append_Nil unsigned_0)
  moreover have "sim_loop 1000 0 (demo_cpu (map assemble (close_file_asm 5 6))) = None"
    using library_calls[OF z(1)[of "map assemble (close_file_asm 5 6)"], where x = 5 and y = 5 and z = 5 and retval = 6 and fuel = 1000 and a = 0] demo_close
    by (simp add: file_calls_def)
  ultimately show ?thesis by blast
qed

end
