(* ===== verification/Spec2Isabelle.thy ===== *)
theory Spec2Isabelle
  imports IsaSpec ReadExec ProgArgs FileType Sha256 Sha256Builds Radix LibC Allocator CStrings Records IdQuery HeapUse KdTree CoordQuery RandomIds JobQueue Jobs RobustIO
    Pool Display PeerServer PeerClient PeerExchange PeerRace Config AccountClient Sockets Simulator Syscalls
begin

text \<open>
  A verification library for the programs of the compSys repository.

  \<^bold>\<open>The programs.\<close> The directories A0 to A6 hold small C programs that do not share a build, but are
  built alike: a few data structures with operations, used by a loop over input.
  \<^item> A0: \<open>file\<close>, which tells the kind of text in a file.
  \<^item> A1: programs that answer queries about place names, over four indexes by number and one by position.
  \<^item> A2: a job queue for threads, and three programs whose workers take their jobs from it.
  \<^item> A3 and A4: the client of a file server with accounts, and a peer of a file sharing network, which is
    client and server. They share copies of \<open>sha256.c\<close>, \<open>compsys_helpers.c\<close> and \<open>common.c\<close>.
  \<^item> A5: a simulator of RISC-V: simulated memory, loader, table of assembly text, instruction loop.
  \<^item> A6: a program for that simulator that sorts with a radix tree, and its run-time library.

  \<^bold>\<open>How C is modelled.\<close> A struct is a record, an enum or a set of exits a datatype. An \<open>int\<close> or
  \<open>unsigned\<close> is a word of its width where the code can wrap around or works on bits; counters and
  sizes that provably stay small are numbers. Arrays and buffers are lists. A read or write outside an object,
  an overflow of a signed number and other operations without a meaning in C are outcomes of their own (\<open>None\<close>
  or a constructor that says which), so a theorem that ends in \<open>Some\<close> shows that they do not happen. What an object is, is that of the models: a program is not
  followed into what a local fault does to the rest of its memory. Memory
  from \<open>malloc\<close> and variables that are not set are arguments, mostly called \<open>junk\<close>, \<open>uninit\<close> or
  \<open>fresh\<close>. The C library is modelled by definitions of its documented behaviour where the programs depend on
  it: \<open>fgets\<close>, \<open>getline\<close>, \<open>sscanf\<close>, \<open>atoi\<close>, \<open>strncpy\<close>, \<open>sprintf\<close>, \<open>read\<close>, \<open>write\<close>, \<open>fseek\<close>. The arithmetic of
  \<open>double\<close>, \<open>qsort\<close>, random numbers, directory walks and the file system are arguments, with hypotheses where a theorem
  needs one. \<open>malloc\<close>, \<open>fopen\<close> of a file that is there and the creation of threads succeed. Loops that end are total
  functions; those that may not are relations, or have fuel, and then termination is stated as such.

  \<^bold>\<open>Shared theories.\<close> \<open>CPrelude\<close>: the integer types, bytes in words, bitwise proofs, \<open>fgets\<close>. \<open>CStrings\<close>:
  \<open>getline\<close>, \<open>atol\<close>, \<open>strstr\<close>. \<open>Decimals\<close>: decimals as \<open>sprintf\<close> writes them and that they are read back.
  \<open>Wire\<close>: byte orders and buffers.

  \<^bold>\<open>A5, the simulator.\<close> \<open>Memory\<close> is \<open>memory.c\<close>: a table of pages allocated on demand; the locale
  \<open>byte_memory\<close> is the contract of its eight operations, interpreted as \<open>mem\<close> through the abstraction \<open>byte_at\<close>
  to an array of bytes. \<open>Assembly\<close> is \<open>assembly.c\<close>: an open hash table that grows until everything fits; the
  locale \<open>text_table\<close>, interpreted as \<open>asm\<close>, says it is a map; \<open>roomy\<close> is the invariant that keeps its growth below
  \<open>INT_MAX\<close>. \<open>Simulate\<close> is \<open>simulate.c\<close>: \<open>exec_inst\<close> is the body of the loop with its branches, as they are
  written, \<open>sim_loop\<close> the loop with fuel. \<open>IsaSpec\<close> is the reference, RV32IM from the instruction formats, and the
  simulation proof: inside \<open>sim_domain\<close>, which leaves out exactly what the code gets wrong, a turn of the loop is a step of
  the reference machine. \<open>ReadExec\<close> is \<open>read_exec.c\<close>, the loader of listings, with the formats of \<open>sscanf\<close>;
  \<open>ProgArgs\<close> is \<open>pass_args_to_program\<close>. \<open>Simulator\<close> is \<open>main\<close> and composes them: from the text of a listing to the
  bytes a program writes.

  \<^bold>\<open>A6, a program for it.\<close> \<open>Radix\<close> is \<open>radix.c\<close>: the tree as a datatype with the bit positions of the code, the
  invariant that orders it, and the program, which does with the tree what it would do with a sorted list (locale
  \<open>sorted_bag\<close>, interpretation \<open>radix\<close>). \<open>LibC\<close>, \<open>Allocator\<close> and \<open>Syscalls\<close> are \<open>lib.c\<close>: numbers and strings; the
  lists of free blocks by size, with an invariant over the words of the heap that keeps areas apart as long as the chunks stay in the address
  space of 32 bits; and the wrappers of the system calls, whose
  instructions are run on the simulator of A5.

  \<^bold>\<open>A0.\<close> \<open>FileType\<close> is \<open>file.c\<close>. A stream has a position, on which the functions leave traces for each other.
  The loop over UTF-8 units seeks back; its fuel must exceed the number of units, and where no fuel is enough that is
  a theorem.

  \<^bold>\<open>A1, place names.\<close> \<open>Records\<close> is \<open>record.c\<close>, fields, lines and the growing array with its capacity, which overflows for files of 1677721600
  lines. \<open>IdQuery\<close> is \<open>id_query.c\<close> with the
  function pointers as the locale \<open>id_index\<close> and one interpretation for each of \<open>id_query_naive.c\<close>, \<open>id_query_indexed.c\<close>,
  \<open>id_query_binsort.c\<close> and \<open>id_query_bonus.c\<close> - for the last one only where new memory is clear, since its nodes keep the
  pointers their memory held, which are an argument here and in \<open>HeapUse\<close>; \<open>CoordQuery\<close> is \<open>coord_query.c\<close> with the locale \<open>nearest_index\<close> and
  \<open>coord_query_naive.c\<close>; \<open>RandomIds\<close> is \<open>random_ids.c\<close>. \<open>HeapUse\<close> follows the blocks that the query programs allocate
  and free (locale \<open>index_memory\<close>, four interpretations).

  \<^bold>\<open>A2, threads.\<close> \<open>JobQueue\<close> is \<open>job_queue.c\<close>: the ring buffer (locale \<open>bounded_fifo\<close>, interpretation \<open>fifo\<close>), and
  a step relation of any number of threads in push, pop and destroy, each at a program counter, with mutex and condition
  variables. A section under the mutex up to its unlock or wait is one step, and each unlocked read is a step of its own; the invariants hold in every
  interleaving without a push after the destruction has begun, and such pushes break the mutex. \<open>Jobs\<close> are the jobs of \<open>fibs.c\<close>, \<open>fauxgrep.c\<close>,
  \<open>fauxgrep-mt.c\<close>, \<open>fhistogram.c\<close>, \<open>fhistogram-mt.c\<close> and \<open>histogram.h\<close>; \<open>Pool\<close> runs their main functions and workers on the
  queue, and shows that what they do together is what the sequential programs do; \<open>Display\<close> is the printing of
  \<open>histogram.h\<close> on a terminal.

  \<^bold>\<open>A3 and A4, files over the network.\<close> \<open>Sha256\<close> is \<open>sha256.c\<close> against FIPS 180-4 (locale \<open>stream_hash\<close>,
  interpretation \<open>sha\<close>), as the makefiles build it; \<open>Sha256Builds\<close> is the code that other macros select and the test program,
  with the proof that all builds agree. \<open>RobustIO\<close> is the reading and writing of \<open>compsys_helpers.c\<close> over a system that
  interrupts and cuts transfers as it likes (locale \<open>stream_reader\<close>, interpretations \<open>raw\<close> for the system and \<open>buffered\<close>
  for the helper, which handles less than 2 GB at a time); \<open>Sockets\<close> is its opening of connections, with the descriptors that stay open. \<open>Config\<close> is \<open>common.c\<close>
  and the reading of the configuration files. \<open>AccountClient\<close> is \<open>A3/networking.c\<close>, with the memory behind its arrays
  of variable length, which it writes to, as an argument. \<open>PeerServer\<close> and \<open>PeerClient\<close> are
  the two halves of \<open>A4/peer.c\<close>: messages as bytes, the list of peers, the handlers, and the retrieval of a file in blocks;
  \<open>PeerExchange\<close> lets one of them register with the other, and \<open>PeerRace\<close> interleaves the statements with which the two threads use the list.

  \<^bold>\<open>What is shown.\<close> Refinement: memory, simulator, whole runs, hash, queue, tree, robust reading, each against an abstract
  specification. Equivalence: the indexes by number, the parallel and sequential programs, the builds of the hash. Invariants and safety: the
  heap, the tree, the queue, the list of peers, descriptors, the screen. Round trips: listings, configuration files, numbers, sent
  bytes. Bounds: buffers and arrays that are not left. Errors and liveness: where the code hangs, faults
  or departs from its comments, that is a theorem too, and a property states the domain in which the code is right.

  \<^bold>\<open>Not modelled.\<close>
  \<^item> \<open>A1/coord_query_kdtree.c\<close> is unfinished: the functions that build and search the tree have no return statement, and the file does
    not compile. \<open>KdTree\<close> has its comparisons and its sorting.
  \<^item> The eight lines of assembly at the start of \<open>A6/lib.c\<close>, which set the stack and call \<open>init_heap\<close>, \<open>args_to_main\<close> and
    \<open>terminate\<close>: what they call is modelled.
  \<^item> \<open>A4/sha256.c\<close>, \<open>A4/compsys_helpers.c\<close> and \<open>A4/common.c\<close> are copies of the files of A3: each model stands for both.
  \<^item> The call of \<open>accept\<close> in \<open>A4/peer.c\<close>, which passes pointers that were never set.
  \<^item> \<open>timing.h\<close> and \<open>endian.h\<close> are wrappers of the system, the latter for another one. Measured times, the logs of the simulator and the text
    of messages that depends on nothing are left out.
  \<^item> Elsewhere than in A1 the functions that only free memory have no effect that the models keep, except where a property is about it
    (pages, tree nodes, blocks, descriptors).
\<close>

end
